(* ===== verification/Platform_Prelude.thy ===== *)
theory Platform_Prelude
  imports Main "HOL-Library.Word" "HOL-Library.Monad_Syntax" "HOL-Library.Sublist"
begin

text \<open>
  Shared vocabulary of the development: the Go integer types as words, Go's \<open>nil\<close>-able
  pointers as options over addresses, and the generic lemmas on lists, options and words the
  component theories use.  A computation of type \<open>'a option\<close> is a piece of Go code that may
  fail to return: \<open>None\<close> is a run-time panic (a \<open>nil\<close> dereference, an index out of
  range) or, in a \<^theory_text>\<open>partial_function\<close>, a loop that does not end.
\<close>

type_synonym u64 = "64 word"

text \<open>Addresses of heap-allocated \<open>Order\<close> and \<open>Limit\<close> structs.\<close>

type_synonym oref = nat
type_synonym lref = nat


section \<open>First and last element as options\<close>

definition hd_opt :: "'a list \<Rightarrow> 'a option" where
  "hd_opt xs = (case xs of [] \<Rightarrow> None | x # _ \<Rightarrow> Some x)"

definition last_opt :: "'a list \<Rightarrow> 'a option" where
  "last_opt xs = (if xs = [] then None else Some (last xs))"

definition or_else :: "'a option \<Rightarrow> 'a option \<Rightarrow> 'a option" where
  "or_else a b = (case a of None \<Rightarrow> b | Some x \<Rightarrow> Some x)"

lemma hd_opt_simps [simp]: "hd_opt [] = None" "hd_opt (x # xs) = Some x"
  by (simp_all add: hd_opt_def)

lemma last_opt_simps [simp]: "last_opt [] = None" "last_opt (xs @ [x]) = Some x"
  "last_opt [x] = Some x" "last_opt (x # y # ys) = last_opt (y # ys)"
  by (simp_all add: last_opt_def)

lemma or_else_simps [simp]: "or_else None b = b" "or_else (Some x) b = Some x"
  "or_else a None = a"
  by (simp_all add: or_else_def split: option.split)

lemma or_else_None [simp]: "or_else a b = None \<longleftrightarrow> a = None \<and> b = None"
  by (simp add: or_else_def split: option.split)

lemma hd_opt_append [simp]: "hd_opt (xs @ ys) = or_else (hd_opt xs) (hd_opt ys)"
  by (cases xs) simp_all

lemma last_opt_append [simp]: "last_opt (xs @ ys) = or_else (last_opt ys) (last_opt xs)"
  by (simp add: last_opt_def or_else_def)

lemma last_opt_Cons [simp]: "last_opt (x # xs) = or_else (last_opt xs) (Some x)"
  by (simp add: last_opt_def or_else_def)

lemma hd_opt_None [simp]: "hd_opt xs = None \<longleftrightarrow> xs = []"
  by (cases xs) simp_all

lemma last_opt_None [simp]: "last_opt xs = None \<longleftrightarrow> xs = []"
  by (simp add: last_opt_def)

lemma hd_opt_Some: "hd_opt xs = Some x \<longleftrightarrow> (\<exists>ys. xs = x # ys)"
  by (cases xs) auto

lemma last_opt_Some: "last_opt xs = Some x \<longleftrightarrow> (\<exists>ys. xs = ys @ [x])"
  by (cases xs rule: rev_cases) auto

section \<open>Maps\<close>

lemma restrict_map_UNIV [simp]: "m |` UNIV = m"
  by (simp add: restrict_map_def)

section \<open>Unsigned 64-bit arithmetic\<close>

text \<open>A natural number that a Go \<open>uint64\<close> holds without wrapping around.\<close>

definition fits64 :: "nat \<Rightarrow> bool" where
  "fits64 n \<longleftrightarrow> n < 2 ^ 64"

lemma fits64_unat [simp]: "fits64 (unat (a :: u64))"
  using unsigned_less [of a] by (simp add: fits64_def)

lemma fits64_mono: "fits64 n \<Longrightarrow> m \<le> n \<Longrightarrow> fits64 m"
  by (simp add: fits64_def)

lemma unat_of_nat_u64 [simp]: "fits64 n \<Longrightarrow> unat (of_nat n :: u64) = n"
  by (simp add: fits64_def unat_of_nat take_bit_nat_eq_self_iff)

lemma of_nat_u64_eq_0: "fits64 n \<Longrightarrow> (of_nat n = (0 :: u64)) = (n = 0)"
  using unat_of_nat_u64 [of n] by (auto simp del: unat_of_nat_u64)

lemma unat_diff_le: "b \<le> a \<Longrightarrow> unat (a - b :: u64) = unat a - unat b"
  by (rule unat_sub)

lemma unat_add_fits: "fits64 (unat a + unat b) \<Longrightarrow> unat (a + b :: u64) = unat a + unat b"
  by (simp add: fits64_def unat_word_ariths)

lemma sint_of_int63: "0 \<le> i \<Longrightarrow> i < 2 ^ 63 \<Longrightarrow> sint (word_of_int i :: 64 word) = i"
  by (simp add: sint_sbintrunc' signed_take_bit_int_eq_self)

end
