(* ===== verification/Limit_Queue.thy ===== *)
theory Limit_Queue
  imports Platform_Prelude
begin

text \<open>
  The order and price-level structs of \<open>pkg/orderbook/order.go\<close> and
  \<open>pkg/orderbook/limit.go\<close> with the pointers they hold.  A \<open>*Order\<close> or
  \<open>*Limit\<close> is an address into an explicit heap and \<open>nil\<close> is \<open>None\<close>; every
  dereference of the source is a lookup that gives \<open>None\<close> (a panic) at a dangling or
  \<open>nil\<close> address, and every assignment through a pointer is one heap update, in the source's
  order.  The theory proves that \<open>AddOrder\<close> and \<open>RemoveOrder\<close> keep the
  doubly-linked list of a level well formed and act as append and delete on the queue it holds.
\<close>

section \<open>Structs and the heap\<close>

text \<open>\<open>Side\<close> and \<open>OrderType\<close> are Go \<open>int\<close>s: any value can arrive from a client.\<close>

type_synonym side = int
type_synonym order_type = int

definition Buy :: side where "Buy = 0"
definition Sell :: side where "Sell = 1"
definition LimitOrder :: order_type where "LimitOrder = 0"
definition MarketOrder :: order_type where "MarketOrder = 1"

lemmas side_defs [simp] = Buy_def Sell_def LimitOrder_def MarketOrder_def

definition Side_String :: "side \<Rightarrow> string" where
  "Side_String s = (if s = Buy then ''BUY'' else ''SELL'')"

record order =
  oID :: string
  oSide :: side
  oType :: order_type
  oPrice :: u64
  oQuantity :: u64
  oFilledQty :: u64
  oTimestamp :: int
  oNext :: "oref option"
  oPrev :: "oref option"
  oLimit :: "lref option"

record limit =
  lPrice :: u64
  lTotalVolume :: u64
  lHead :: "oref option"
  lTail :: "oref option"

text \<open>
  The Go heap restricted to these two struct types.  \<open>onext\<close> and \<open>lnext\<close> are the
  allocator's next unused addresses.
\<close>

record heap =
  oheap :: "oref \<rightharpoonup> order"
  lheap :: "lref \<rightharpoonup> limit"
  onext :: oref
  lnext :: lref

definition RemainingQty :: "order \<Rightarrow> u64" where
  "RemainingQty x = oQuantity x - oFilledQty x"

definition NewOrder ::
  "string \<Rightarrow> side \<Rightarrow> order_type \<Rightarrow> u64 \<Rightarrow> u64 \<Rightarrow> int \<Rightarrow> 'a heap_scheme \<Rightarrow> oref \<times> 'a heap_scheme" where
  "NewOrder ident side orderType price qty now h =
     (onext h, h\<lparr>oheap := (oheap h)(onext h \<mapsto>
        \<lparr>oID = ident, oSide = side, oType = orderType, oPrice = price, oQuantity = qty,
         oFilledQty = 0, oTimestamp = now, oNext = None, oPrev = None, oLimit = None\<rparr>),
        onext := onext h + 1\<rparr>)"

definition NewLimit :: "u64 \<Rightarrow> 'a heap_scheme \<Rightarrow> lref \<times> 'a heap_scheme" where
  "NewLimit price h =
     (lnext h, h\<lparr>lheap := (lheap h)(lnext h \<mapsto>
        \<lparr>lPrice = price, lTotalVolume = 0, lHead = None, lTail = None\<rparr>),
        lnext := lnext h + 1\<rparr>)"

text \<open>An assignment \<open>p.f = e\<close> through a pointer: a panic when \<open>p\<close> does not point to a struct.\<close>

definition set_order :: "oref \<Rightarrow> (order \<Rightarrow> order) \<Rightarrow> 'a heap_scheme \<Rightarrow> 'a heap_scheme option" where
  "set_order p f h = do { x \<leftarrow> oheap h p; Some (h\<lparr>oheap := (oheap h)(p \<mapsto> f x)\<rparr>) }"

definition set_limit :: "lref \<Rightarrow> (limit \<Rightarrow> limit) \<Rightarrow> 'a heap_scheme \<Rightarrow> 'a heap_scheme option" where
  "set_limit l f h = do { x \<leftarrow> lheap h l; Some (h\<lparr>lheap := (lheap h)(l \<mapsto> f x)\<rparr>) }"

definition AddOrder :: "lref \<Rightarrow> oref \<Rightarrow> 'a heap_scheme \<Rightarrow> 'a heap_scheme option" where
  "AddOrder l p h = do {
     h \<leftarrow> set_order p (\<lambda>x. x\<lparr>oLimit := Some l\<rparr>) h;
     lim \<leftarrow> lheap h l;
     h \<leftarrow> (if lHead lim = None then do {
              h \<leftarrow> set_limit l (\<lambda>lim. lim\<lparr>lHead := Some p\<rparr>) h;
              set_limit l (\<lambda>lim. lim\<lparr>lTail := Some p\<rparr>) h }
           else do {
              t \<leftarrow> lTail lim;
              h \<leftarrow> set_order t (\<lambda>x. x\<lparr>oNext := Some p\<rparr>) h;
              h \<leftarrow> set_order p (\<lambda>x. x\<lparr>oPrev := lTail lim\<rparr>) h;
              h \<leftarrow> set_order p (\<lambda>x. x\<lparr>oNext := None\<rparr>) h;
              set_limit l (\<lambda>lim. lim\<lparr>lTail := Some p\<rparr>) h });
     x \<leftarrow> oheap h p;
     set_limit l (\<lambda>lim. lim\<lparr>lTotalVolume := lTotalVolume lim + RemainingQty x\<rparr>) h }"

definition RemoveOrder :: "lref \<Rightarrow> oref \<Rightarrow> 'a heap_scheme \<Rightarrow> 'a heap_scheme option" where
  "RemoveOrder l p h = do {
     x \<leftarrow> oheap h p;
     h \<leftarrow> (case oPrev x of
             Some q \<Rightarrow> set_order q (\<lambda>y. y\<lparr>oNext := oNext x\<rparr>) h
           | None \<Rightarrow> set_limit l (\<lambda>lim. lim\<lparr>lHead := oNext x\<rparr>) h);
     x \<leftarrow> oheap h p;
     h \<leftarrow> (case oNext x of
             Some q \<Rightarrow> set_order q (\<lambda>y. y\<lparr>oPrev := oPrev x\<rparr>) h
           | None \<Rightarrow> set_limit l (\<lambda>lim. lim\<lparr>lTail := oPrev x\<rparr>) h);
     x \<leftarrow> oheap h p;
     h \<leftarrow> set_limit l (\<lambda>lim. lim\<lparr>lTotalVolume := lTotalVolume lim - RemainingQty x\<rparr>) h;
     h \<leftarrow> set_order p (\<lambda>x. x\<lparr>oLimit := None\<rparr>) h;
     h \<leftarrow> set_order p (\<lambda>x. x\<lparr>oNext := None\<rparr>) h;
     set_order p (\<lambda>x. x\<lparr>oPrev := None\<rparr>) h }"

section \<open>Well-formed levels\<close>

text \<open>
  \<open>chain oh l pv ps nx\<close>: the orders at \<open>ps\<close> are linked in this order through
  \<open>Next\<close> and \<open>Prev\<close>, between \<open>pv\<close> and \<open>nx\<close>, and each points back to level \<open>l\<close>.
\<close>

fun chain :: "(oref \<rightharpoonup> order) \<Rightarrow> lref \<Rightarrow> oref option \<Rightarrow> oref list \<Rightarrow> oref option \<Rightarrow> bool" where
  "chain oh l pv [] nx = True"
| "chain oh l pv (p # ps) nx = (\<exists>x. oh p = Some x \<and> oPrev x = pv \<and>
     oNext x = or_else (hd_opt ps) nx \<and> oLimit x = Some l \<and> chain oh l (Some p) ps nx)"

definition rem_at :: "(oref \<rightharpoonup> order) \<Rightarrow> oref \<Rightarrow> nat" where
  "rem_at oh p = (case oh p of None \<Rightarrow> 0 | Some x \<Rightarrow> unat (RemainingQty x))"

definition vol :: "(oref \<rightharpoonup> order) \<Rightarrow> oref list \<Rightarrow> nat" where
  "vol oh ps = sum_list (map (rem_at oh) ps)"

text \<open>
  \<open>is_level h l ps\<close>: the struct at \<open>l\<close> is a level whose queue, oldest first, is \<open>ps\<close>.
  \<open>TotalVolume\<close> is the sum of the remaining quantities, modulo \<open>2 ^ 64\<close>.
\<close>

definition is_level :: "'a heap_scheme \<Rightarrow> lref \<Rightarrow> oref list \<Rightarrow> bool" where
  "is_level h l ps \<longleftrightarrow> distinct ps \<and> chain (oheap h) l None ps None \<and>
     (\<exists>lim. lheap h l = Some lim \<and> lHead lim = hd_opt ps \<and> lTail lim = last_opt ps \<and>
        lTotalVolume lim = of_nat (vol (oheap h) ps))"

text \<open>What an order carries apart from its links, and two heaps that agree on it.\<close>

definition odata :: "order \<Rightarrow> order" where
  "odata x = x\<lparr>oNext := None, oPrev := None, oLimit := None\<rparr>"

definition same_data :: "(oref \<rightharpoonup> order) \<Rightarrow> (oref \<rightharpoonup> order) \<Rightarrow> bool" where
  "same_data oh oh' \<longleftrightarrow> (\<forall>q. map_option odata (oh' q) = map_option odata (oh q))"

lemma vol_simps [simp]: "vol oh [] = 0" "vol oh (p # ps) = rem_at oh p + vol oh ps"
  "vol oh (ps @ qs) = vol oh ps + vol oh qs"
  by (simp_all add: vol_def)

lemma chain_append [simp]: "chain oh l pv (as @ bs) nx \<longleftrightarrow>
   chain oh l pv as (or_else (hd_opt bs) nx) \<and> chain oh l (or_else (last_opt as) pv) bs nx"
  by (induction as arbitrary: pv) (auto simp: or_else_def split: option.splits)

lemma chain_frame: "(\<And>q. q \<in> set ps \<Longrightarrow> oh' q = oh q) \<Longrightarrow> chain oh' l pv ps nx = chain oh l pv ps nx"
  by (induction ps arbitrary: pv) auto

lemma chain_upd [simp]: "p \<notin> set ps \<Longrightarrow> chain (oh(p := v)) l pv ps nx = chain oh l pv ps nx"
  by (rule chain_frame) auto

lemma chain_dom: "chain oh l pv ps nx \<Longrightarrow> q \<in> set ps \<Longrightarrow> \<exists>x. oh q = Some x \<and> oLimit x = Some l"
  by (induction ps arbitrary: pv) auto

lemma chain_set_next:
  "chain oh l pv as nx \<Longrightarrow> distinct as \<Longrightarrow> last_opt as = Some a \<Longrightarrow> oh a = Some x \<Longrightarrow>
   chain (oh(a \<mapsto> x\<lparr>oNext := nx'\<rparr>)) l pv as nx'"
  by (auto simp: last_opt_Some)

lemma chain_set_prev:
  "chain oh l pv bs nx \<Longrightarrow> distinct bs \<Longrightarrow> hd_opt bs = Some b \<Longrightarrow> oh b = Some x \<Longrightarrow>
   chain (oh(b \<mapsto> x\<lparr>oPrev := pv'\<rparr>)) l pv' bs nx"
  by (auto simp: hd_opt_Some)

section \<open>Correctness of \<open>AddOrder\<close> and \<open>RemoveOrder\<close>\<close>

text \<open>
  \<open>level_upd h l S h'\<close>: \<open>h'\<close> differs from \<open>h\<close> only in the struct of level
  \<open>l\<close>, whose price is kept, and in the links of the orders in \<open>S\<close>.
\<close>

definition level_upd :: "'a heap_scheme \<Rightarrow> lref \<Rightarrow> oref set \<Rightarrow> 'a heap_scheme \<Rightarrow> bool" where
  "level_upd h l S h' \<longleftrightarrow> (\<exists>oh lim0 lim. h' = h\<lparr>oheap := oh, lheap := (lheap h)(l \<mapsto> lim)\<rparr> \<and>
     lheap h l = Some lim0 \<and> lPrice lim = lPrice lim0 \<and> same_data (oheap h) oh \<and>
     (\<forall>q. q \<notin> S \<longrightarrow> oh q = oheap h q))"

lemma level_updI:
  "h' = h\<lparr>oheap := oh, lheap := (lheap h)(l \<mapsto> lim)\<rparr> \<Longrightarrow> lheap h l = Some lim0 \<Longrightarrow>
   lPrice lim = lPrice lim0 \<Longrightarrow> same_data (oheap h) oh \<Longrightarrow> (\<And>q. q \<notin> S \<Longrightarrow> oh q = oheap h q) \<Longrightarrow>
   level_upd h l S h'"
  unfolding level_upd_def by blast

lemma is_levelI:
  "distinct ps \<Longrightarrow> chain (oheap h) l None ps None \<Longrightarrow> lheap h l = Some lim \<Longrightarrow> lHead lim = hd_opt ps \<Longrightarrow>
   lTail lim = last_opt ps \<Longrightarrow> lTotalVolume lim = of_nat (vol (oheap h) ps) \<Longrightarrow> is_level h l ps"
  unfolding is_level_def by blast

lemma is_levelE:
  assumes "is_level h l ps"
  obtains lim where "distinct ps" "chain (oheap h) l None ps None" "lheap h l = Some lim"
    "lHead lim = hd_opt ps" "lTail lim = last_opt ps" "lTotalVolume lim = of_nat (vol (oheap h) ps)"
  using assms unfolding is_level_def by blast

lemma RemainingQty_links [simp]:
  "RemainingQty (x\<lparr>oNext := a\<rparr>) = RemainingQty x" "RemainingQty (x\<lparr>oPrev := a\<rparr>) = RemainingQty x"
  "RemainingQty (x\<lparr>oLimit := b\<rparr>) = RemainingQty x"
  by (simp_all add: RemainingQty_def)

lemma odata_links [simp]:
  "odata (x\<lparr>oNext := a\<rparr>) = odata x" "odata (x\<lparr>oPrev := a\<rparr>) = odata x"
  "odata (x\<lparr>oLimit := b\<rparr>) = odata x"
  by (simp_all add: odata_def)

lemma odata_alt: "x\<lparr>oLimit := None, oNext := None, oPrev := None\<rparr> = odata x"
  by (cases x) (simp add: odata_def)

lemma heap_upd_order [simp]: "h\<lparr>lheap := a, oheap := b\<rparr> = h\<lparr>oheap := b, lheap := a\<rparr>"
  by (cases h) simp

lemma odata_RemainingQty: "odata x = odata y \<Longrightarrow> RemainingQty x = RemainingQty y"
  by (cases x; cases y) (simp add: odata_def RemainingQty_def)

lemma same_data_refl [simp]: "same_data oh oh"
  by (simp add: same_data_def)

lemma same_data_trans: "same_data a b \<Longrightarrow> same_data b c \<Longrightarrow> same_data a c"
  by (simp add: same_data_def)

lemma same_data_upd: "same_data oh oh' \<Longrightarrow> oh' p = Some x \<Longrightarrow> odata y = odata x \<Longrightarrow> same_data oh (oh'(p \<mapsto> y))"
  unfolding same_data_def by (metis fun_upd_apply option.map(2))

lemma same_data_at: "same_data oh oh' \<Longrightarrow> map_option odata (oh' p) = map_option odata (oh p)"
  by (simp add: same_data_def)

lemma same_data_rem: "same_data oh oh' \<Longrightarrow> rem_at oh' p = rem_at oh p"
  using same_data_at [of oh oh' p]
  by (cases "oh p"; cases "oh' p") (auto simp: rem_at_def dest: odata_RemainingQty)

lemma same_data_vol: "same_data oh oh' \<Longrightarrow> vol oh' ps = vol oh ps"
  by (simp add: vol_def same_data_rem cong: map_cong)

lemma AddOrder_first:
  assumes lv: "is_level h l []" and p: "oheap h p = Some x" "oNext x = None" "oPrev x = None"
  shows "\<exists>h'. AddOrder l p h = Some h' \<and> is_level h' l [p] \<and> level_upd h l {p} h'"
proof -
  from lv obtain lim where lim: "lheap h l = Some lim" "lHead lim = hd_opt []" "lTail lim = last_opt []"
    "lTotalVolume lim = of_nat (vol (oheap h) [])"
    by (rule is_levelE)
  let ?oh = "(oheap h)(p \<mapsto> x\<lparr>oLimit := Some l\<rparr>)"
  let ?lim = "lim\<lparr>lHead := Some p, lTail := Some p, lTotalVolume := lTotalVolume lim + RemainingQty x\<rparr>"
  let ?h = "h\<lparr>oheap := ?oh, lheap := (lheap h)(l \<mapsto> ?lim)\<rparr>"
  have "AddOrder l p h = Some ?h" using lim p by (simp add: AddOrder_def set_order_def set_limit_def)
  moreover have "level_upd h l {p} ?h" using lim p by (intro level_updI [OF refl]) (auto intro: same_data_upd)
  moreover have "is_level ?h l [p]" using lim p by (intro is_levelI [where lim = ?lim]) (simp_all add: rem_at_def)
  ultimately show ?thesis by blast
qed

lemma AddOrder_next:
  assumes lv: "is_level h l (as @ [t])" and p: "p \<notin> set (as @ [t])" "oheap h p = Some x" "oNext x = None" "oPrev x = None"
  shows "\<exists>h'. AddOrder l p h = Some h' \<and> is_level h' l (as @ [t, p]) \<and> level_upd h l (insert p (set (as @ [t]))) h'"
proof -
  let ?ps = "as @ [t]"
  from lv obtain lim where lim: "distinct ?ps" "chain (oheap h) l None ?ps None" "lheap h l = Some lim"
    "lHead lim = hd_opt ?ps" "lTail lim = last_opt ?ps" "lTotalVolume lim = of_nat (vol (oheap h) ?ps)"
    by (rule is_levelE)
  then obtain y where y: "oheap h t = Some y" by auto
  let ?oh1 = "(oheap h)(t \<mapsto> y\<lparr>oNext := Some p\<rparr>)"
  let ?oh = "?oh1(p \<mapsto> x\<lparr>oLimit := Some l, oPrev := Some t, oNext := None\<rparr>)"
  let ?lim = "lim\<lparr>lTail := Some p, lTotalVolume := lTotalVolume lim + RemainingQty x\<rparr>"
  let ?h = "h\<lparr>oheap := ?oh, lheap := (lheap h)(l \<mapsto> ?lim)\<rparr>"
  from p have tp: "t \<noteq> p" by auto
  have 1: "AddOrder l p h = Some ?h"
    using lim p y tp by (simp add: AddOrder_def set_order_def set_limit_def fun_upd_twist [OF tp])
  have "same_data (oheap h) ?oh1" using y by (auto intro: same_data_upd)
  then have same: "same_data (oheap h) ?oh" by (rule same_data_upd) (use p tp in auto)
  have 2: "level_upd h l (insert p (set ?ps)) ?h" using lim same by (intro level_updI [OF refl]) auto
  have "chain ?oh1 l None ?ps (Some p)" using lim(1) y by (intro chain_set_next [OF lim(2)]) auto
  then have "chain ?oh l None (?ps @ [p]) None" using p by simp
  moreover have "rem_at (oheap h) p = unat (RemainingQty x)" using p by (simp add: rem_at_def)
  ultimately have "is_level ?h l (?ps @ [p])"
    using lim p same_data_vol [OF same, of "?ps @ [p]"] by (intro is_levelI [where lim = ?lim]) simp_all
  then have "is_level ?h l (as @ [t, p])" by (simp only: append_assoc append_Cons append_Nil)
  with 1 2 show ?thesis by blast
qed

lemma AddOrder_ok:
  assumes "is_level h l ps" "p \<notin> set ps" "oheap h p = Some x" "oNext x = None" "oPrev x = None"
  shows "\<exists>h'. AddOrder l p h = Some h' \<and> is_level h' l (ps @ [p]) \<and> level_upd h l (insert p (set ps)) h'"
proof (cases ps rule: rev_cases)
  case Nil
  show ?thesis using AddOrder_first [OF assms(1) [unfolded Nil] assms(3-5)] unfolding Nil by simp
next
  case (snoc as t)
  show ?thesis using AddOrder_next [OF assms(1,2) [unfolded snoc] assms(3-5)] unfolding snoc append_assoc by simp
qed

text \<open>
  \<open>RemoveOrder\<close> relinks the two sides of the removed order one after the other: first
  whatever precedes it (the previous order, or the level's \<open>Head\<close>), then whatever follows.
\<close>

lemma relink_prev:
  assumes c: "chain (oheap h) l None as nx0" "distinct as" and lim: "lheap h l = Some lim"
    and hd: "as \<noteq> [] \<Longrightarrow> lHead lim = hd_opt as"
  obtains oh where "(case last_opt as of
             Some q \<Rightarrow> set_order q (\<lambda>y. y\<lparr>oNext := nx\<rparr>) h
           | None \<Rightarrow> set_limit l (\<lambda>lim. lim\<lparr>lHead := nx\<rparr>) h)
         = Some (h\<lparr>oheap := oh, lheap := (lheap h)(l \<mapsto> lim\<lparr>lHead := or_else (hd_opt as) nx\<rparr>)\<rparr>)"
    "chain oh l None as nx" "same_data (oheap h) oh" "\<forall>q. q \<notin> set as \<longrightarrow> oh q = oheap h q"
proof (cases as rule: rev_cases)
  case Nil
  with lim show ?thesis by (intro that [of "oheap h"]) (simp_all add: set_limit_def)
next
  case (snoc qs q)
  with c obtain y where y: "oheap h q = Some y" by auto
  have "chain ((oheap h)(q \<mapsto> y\<lparr>oNext := nx\<rparr>)) l None as nx"
    using c(2) snoc y by (intro chain_set_next [OF c(1)]) auto
  moreover have "lim\<lparr>lHead := or_else (hd_opt as) nx\<rparr> = lim"
    using hd snoc by (cases qs) (cases lim, simp)+
  moreover have "(lheap h)(l \<mapsto> lim) = lheap h"
    using lim by (simp add: fun_upd_idem)
  ultimately show ?thesis
    using snoc y by (intro that [of "(oheap h)(q \<mapsto> y\<lparr>oNext := nx\<rparr>)"]) (simp_all add: set_order_def same_data_upd)
qed

lemma relink_next:
  assumes c: "chain (oheap h) l pv0 bs None" "distinct bs" and lim: "lheap h l = Some lim"
    and tl: "bs \<noteq> [] \<Longrightarrow> lTail lim = last_opt bs"
  obtains oh where "(case hd_opt bs of
             Some q \<Rightarrow> set_order q (\<lambda>y. y\<lparr>oPrev := pv\<rparr>) h
           | None \<Rightarrow> set_limit l (\<lambda>lim. lim\<lparr>lTail := pv\<rparr>) h)
         = Some (h\<lparr>oheap := oh, lheap := (lheap h)(l \<mapsto> lim\<lparr>lTail := or_else (last_opt bs) pv\<rparr>)\<rparr>)"
    "chain oh l pv bs None" "same_data (oheap h) oh" "\<forall>q. q \<notin> set bs \<longrightarrow> oh q = oheap h q"
proof (cases bs)
  case Nil
  with lim show ?thesis by (intro that [of "oheap h"]) (simp_all add: set_limit_def)
next
  case (Cons q qs)
  with c obtain y where y: "oheap h q = Some y" by auto
  have "chain ((oheap h)(q \<mapsto> y\<lparr>oPrev := pv\<rparr>)) l pv bs None"
    using c(2) Cons y by (intro chain_set_prev [OF c(1)]) auto
  moreover have "lim\<lparr>lTail := or_else (last_opt bs) pv\<rparr> = lim"
    using tl Cons by (cases "last_opt qs") (cases lim, simp)+
  moreover have "(lheap h)(l \<mapsto> lim) = lheap h"
    using lim by (simp add: fun_upd_idem)
  ultimately show ?thesis
    using Cons y by (intro that [of "(oheap h)(q \<mapsto> y\<lparr>oPrev := pv\<rparr>)"]) (simp_all add: set_order_def same_data_upd)
qed

lemma RemoveOrder_ok:
  assumes lv: "is_level h l (as @ p # bs)" and p: "oheap h p = Some x"
  shows "\<exists>h'. RemoveOrder l p h = Some h' \<and> is_level h' l (as @ bs) \<and>
     level_upd h l (set (as @ p # bs)) h' \<and> oheap h' p = Some (odata x)"
proof -
  from lv obtain lim where lim: "distinct (as @ p # bs)" "chain (oheap h) l None (as @ p # bs) None"
    "lheap h l = Some lim" "lHead lim = hd_opt (as @ p # bs)" "lTail lim = last_opt (as @ p # bs)"
    "lTotalVolume lim = of_nat (vol (oheap h) (as @ p # bs))"
    by (rule is_levelE)
  from lim(2) p have x: "oPrev x = last_opt as" "oNext x = hd_opt bs"
    and c: "chain (oheap h) l None as (Some p)" "chain (oheap h) l (Some p) bs None"
    by auto
  have dist: "distinct as" "distinct bs" using lim(1) by simp_all
  have ends: "as \<noteq> [] \<Longrightarrow> lHead lim = hd_opt as" "bs \<noteq> [] \<Longrightarrow> lTail lim = last_opt bs"
    using lim(4,5) by (simp_all add: hd_opt_def last_opt_def split: list.splits)
  define lim1 where "lim1 = lim\<lparr>lHead := or_else (hd_opt as) (hd_opt bs)\<rparr>"
  obtain oh1 where s1: "(case last_opt as of
             Some q \<Rightarrow> set_order q (\<lambda>y. y\<lparr>oNext := hd_opt bs\<rparr>) h
           | None \<Rightarrow> set_limit l (\<lambda>lim. lim\<lparr>lHead := hd_opt bs\<rparr>) h)
         = Some (h\<lparr>oheap := oh1, lheap := (lheap h)(l \<mapsto> lim1)\<rparr>)"
    and c1: "chain oh1 l None as (hd_opt bs)" and d1: "same_data (oheap h) oh1" and f1: "\<forall>q. q \<notin> set as \<longrightarrow> oh1 q = oheap h q"
    by (rule relink_prev [OF c(1) dist(1) lim(3) ends(1), of "hd_opt bs", folded lim1_def])
  let ?h1 = "h\<lparr>oheap := oh1, lheap := (lheap h)(l \<mapsto> lim1)\<rparr>"
  define lim2 where "lim2 = lim1\<lparr>lTail := or_else (last_opt bs) (last_opt as)\<rparr>"
  have lim1: "lheap ?h1 l = Some lim1" "bs \<noteq> [] \<Longrightarrow> lTail lim1 = last_opt bs" using ends(2) by (simp_all add: lim1_def)
  have cb: "chain (oheap ?h1) l (Some p) bs None"
    using c(2) lim(1) f1 by (subst chain_frame [where oh = "oheap h"]) auto
  obtain oh2 where s2: "(case hd_opt bs of
             Some q \<Rightarrow> set_order q (\<lambda>y. y\<lparr>oPrev := last_opt as\<rparr>) ?h1
           | None \<Rightarrow> set_limit l (\<lambda>lim. lim\<lparr>lTail := last_opt as\<rparr>) ?h1)
         = Some (?h1\<lparr>oheap := oh2, lheap := (lheap ?h1)(l \<mapsto> lim2)\<rparr>)"
    and c2: "chain oh2 l (last_opt as) bs None" and d2: "same_data (oheap ?h1) oh2" and f2: "\<forall>q. q \<notin> set bs \<longrightarrow> oh2 q = oheap ?h1 q"
    by (rule relink_next [OF cb dist(2) lim1(1,2), of "last_opt as", folded lim2_def])
  have p2: "oh1 p = Some x" "oh2 p = Some x"
    using lim(1) f1 f2 p by auto
  let ?lim = "lim2\<lparr>lTotalVolume := lTotalVolume lim2 - RemainingQty x\<rparr>"
  let ?h = "h\<lparr>oheap := oh2(p \<mapsto> odata x), lheap := (lheap h)(l \<mapsto> ?lim)\<rparr>"
  have "RemoveOrder l p h = Some ?h"
    using p p2 s1 [folded x] s2 [folded x] by (simp add: RemoveOrder_def set_order_def set_limit_def odata_alt)
  moreover have d: "same_data (oheap h) (oh2(p \<mapsto> odata x))"
    by (rule same_data_upd [OF same_data_trans [OF d1 d2 [simplified]] p2(2)]) (simp add: odata_def)
  moreover have "level_upd h l (set (as @ p # bs)) ?h"
    using lim(3) lim1_def lim2_def d f1 f2 by (intro level_updI [OF refl]) auto
  moreover have "chain oh2 l None as (hd_opt bs)"
    using c1 lim(1) f2 by (subst chain_frame [where oh = oh1]) auto
  then have "is_level ?h l (as @ bs)"
    using lim c2 x lim1_def lim2_def p same_data_vol [OF d, of "as @ bs"]
    by (intro is_levelI [where lim = ?lim]) (simp_all add: rem_at_def)
  ultimately show ?thesis by (intro exI [of _ ?h]) simp
qed

end
