(* ===== verification/Price_Time_Spec.thy ===== *)
theory Price_Time_Spec
  imports Platform_Prelude
begin

text \<open>
  The abstract specification of a limit order book with price-time priority, free of pointers,
  words and volume counters: each side is a list of price levels, best price first, and a level
  is the queue of its resting orders, oldest first, each with its identifier and its unfilled
  quantity as a natural number.  \<open>OrderBook\<close> proves that the pointer program of
  \<open>pkg/orderbook\<close> implements these operations.
\<close>

type_synonym resting = "string \<times> nat"
type_synonym slevel = "u64 \<times> resting list"
type_synonym fill = "string \<times> u64 \<times> nat"

record sbook =
  sbids :: "slevel list"
  sasks :: "slevel list"

section \<open>Operations of the specification\<close>

text \<open>Serve \<open>r\<close> units from one queue, oldest order first.\<close>

fun fill_queue :: "u64 \<Rightarrow> nat \<Rightarrow> resting list \<Rightarrow> nat \<times> resting list \<times> fill list" where
  "fill_queue pr r [] = (r, [], [])"
| "fill_queue pr r ((i, q) # qs) =
     (if r = 0 then (0, (i, q) # qs, [])
      else if r < q then (0, (i, q - r) # qs, [(i, pr, r)])
      else (case fill_queue pr (r - q) qs of (r', qs', fs) \<Rightarrow> (r', qs', (i, pr, q) # fs)))"

text \<open>Serve \<open>r\<close> units from the levels the taker accepts, best price first.\<close>

fun sweep :: "(u64 \<Rightarrow> bool) \<Rightarrow> nat \<Rightarrow> slevel list \<Rightarrow> nat \<times> slevel list \<times> fill list" where
  "sweep acc r [] = (r, [], [])"
| "sweep acc r ((pr, qs) # ls) =
     (if r = 0 \<or> \<not> acc pr then (r, (pr, qs) # ls, [])
      else (case fill_queue pr r qs of (r', qs', fs) \<Rightarrow>
        if qs' = [] then (case sweep acc r' ls of (r'', ls', fs') \<Rightarrow> (r'', ls', fs @ fs'))
        else (r', (pr, qs') # ls, fs)))"

text \<open>Join the queue of a price, creating the level in price order if there is none.\<close>

fun join_level :: "(u64 \<Rightarrow> u64 \<Rightarrow> bool) \<Rightarrow> u64 \<Rightarrow> resting \<Rightarrow> slevel list \<Rightarrow> slevel list" where
  "join_level lt pr x [] = [(pr, [x])]"
| "join_level lt pr x ((pr', qs) # ls) =
     (if pr' = pr then (pr', qs @ [x]) # ls
      else if lt pr' pr then (pr', qs) # join_level lt pr x ls
      else (pr, [x]) # (pr', qs) # ls)"

text \<open>Drop the order with a given identifier, and its level when that empties it.\<close>

fun drop_order :: "string \<Rightarrow> slevel list \<Rightarrow> slevel list" where
  "drop_order i [] = []"
| "drop_order i ((pr, qs) # ls) =
     (let qs' = filter (\<lambda>x. fst x \<noteq> i) qs in
      if qs' = [] then drop_order i ls else (pr, qs') # drop_order i ls)"

definition svol :: "resting list \<Rightarrow> nat" where
  "svol qs = sum_list (map snd qs)"

definition depth_levels :: "nat \<Rightarrow> slevel list \<Rightarrow> (u64 \<times> nat) list" where
  "depth_levels n ls = map (\<lambda>(pr, qs). (pr, svol qs)) (take n ls)"

definition vol_at :: "u64 \<Rightarrow> slevel list \<Rightarrow> nat" where
  "vol_at pr ls = sum_list (map (\<lambda>(pr', qs). if pr' = pr then svol qs else 0) ls)"

definition side_vol :: "slevel list \<Rightarrow> nat" where
  "side_vol ls = sum_list (map (\<lambda>l. svol (snd l)) ls)"

definition fill_vol :: "fill list \<Rightarrow> nat" where
  "fill_vol fs = sum_list (map (\<lambda>f. snd (snd f)) fs)"

definition better_bid :: "u64 \<Rightarrow> u64 \<Rightarrow> bool" where
  "better_bid a b \<longleftrightarrow> b < a"

definition better_ask :: "u64 \<Rightarrow> u64 \<Rightarrow> bool" where
  "better_ask a b \<longleftrightarrow> a < b"

definition uncrossed :: "sbook \<Rightarrow> bool" where
  "uncrossed s \<longleftrightarrow> (\<forall>b \<in> set (sbids s). \<forall>a \<in> set (sasks s). fst b < fst a)"

definition live_qs :: "slevel list \<Rightarrow> bool" where
  "live_qs ls \<longleftrightarrow> (\<forall>l \<in> set ls. snd l \<noteq> [] \<and> (\<forall>x \<in> set (snd l). 0 < snd x))"

section \<open>Conservation, bounds and priority\<close>

lemma live_qs_simps [simp]: "live_qs []"
  "live_qs (l # ls) \<longleftrightarrow> snd l \<noteq> [] \<and> (\<forall>x \<in> set (snd l). 0 < snd x) \<and> live_qs ls"
  by (auto simp: live_qs_def)

lemma svol_simps [simp]: "svol [] = 0" "svol (x # xs) = snd x + svol xs" "svol (xs @ ys) = svol xs + svol ys"
  by (simp_all add: svol_def)

lemma fill_vol_simps [simp]: "fill_vol [] = 0" "fill_vol (x # xs) = snd (snd x) + fill_vol xs"
  "fill_vol (xs @ ys) = fill_vol xs + fill_vol ys"
  by (simp_all add: fill_vol_def)

lemma side_vol_simps [simp]: "side_vol [] = 0" "side_vol (x # xs) = svol (snd x) + side_vol xs"
  by (simp_all add: side_vol_def)

lemma fill_queue_conserves:
  "fill_queue pr r qs = (r', qs', fs) \<Longrightarrow> r = r' + fill_vol fs \<and> svol qs = svol qs' + fill_vol fs"
  by (induction pr r qs arbitrary: r' qs' fs rule: fill_queue.induct)
     (auto split: if_splits prod.splits)

lemma fill_queue_exhausts: "fill_queue pr r qs = (r', qs', fs) \<Longrightarrow> r' = 0 \<or> qs' = []"
  by (induction pr r qs arbitrary: r' qs' fs rule: fill_queue.induct)
     (auto split: if_splits prod.splits)

lemma fill_queue_live:
  "fill_queue pr r qs = (r', qs', fs) \<Longrightarrow> \<forall>x \<in> set qs. 0 < snd x \<Longrightarrow> \<forall>x \<in> set qs'. 0 < snd x"
  by (induction pr r qs arbitrary: r' qs' fs rule: fill_queue.induct)
     (auto split: if_splits prod.splits)

lemma fill_queue_fills:
  "fill_queue pr r qs = (r', qs', fs) \<Longrightarrow> \<forall>x \<in> set qs. 0 < snd x \<Longrightarrow>
   \<forall>(i, pr', q) \<in> set fs. pr' = pr \<and> 0 < q"
  by (induction pr r qs arbitrary: r' qs' fs rule: fill_queue.induct)
     (fastforce split: if_splits prod.splits)+

text \<open>Time priority: the fills name a prefix of the queue, in queue order.\<close>

lemma fill_queue_prefix:
  "fill_queue pr r qs = (r', qs', fs) \<Longrightarrow> prefix (map fst fs) (map fst qs)"
  by (induction pr r qs arbitrary: r' qs' fs rule: fill_queue.induct)
     (auto split: if_splits prod.splits)

text \<open>Every order of the prefix but the last is filled completely.\<close>

lemma fill_queue_full:
  "fill_queue pr r qs = (r', qs', fs) \<Longrightarrow> j + 1 < length fs \<Longrightarrow> snd (snd (fs ! j)) = snd (qs ! j)"
proof (induction pr r qs arbitrary: r' qs' fs j rule: fill_queue.induct)
  case (2 pr r i q qs)
  then show ?case
    by (cases j) (auto split: if_splits prod.splits)
qed simp

lemma sweep_conserves:
  "sweep acc r ls = (r', ls', fs) \<Longrightarrow> r = r' + fill_vol fs \<and> side_vol ls = side_vol ls' + fill_vol fs"
  by (induction acc r ls arbitrary: r' ls' fs rule: sweep.induct)
     (fastforce split: if_splits prod.splits dest: fill_queue_conserves)+

lemma sweep_exhausts:
  "sweep acc r ls = (r', ls', fs) \<Longrightarrow> r' = 0 \<or> ls' = [] \<or> \<not> acc (fst (hd ls'))"
  by (induction acc r ls arbitrary: r' ls' fs rule: sweep.induct)
     (auto split: if_splits prod.splits dest: fill_queue_exhausts)

lemma sweep_live:
  "sweep acc r ls = (r', ls', fs) \<Longrightarrow> live_qs ls \<Longrightarrow> live_qs ls'"
  by (induction acc r ls arbitrary: r' ls' fs rule: sweep.induct)
     (fastforce split: if_splits prod.splits dest: fill_queue_live)+

lemma sweep_fills:
  "sweep acc r ls = (r', ls', fs) \<Longrightarrow> live_qs ls \<Longrightarrow> \<forall>(i, pr, q) \<in> set fs. acc pr \<and> 0 < q \<and> pr \<in> fst ` set ls"
  by (induction acc r ls arbitrary: r' ls' fs rule: sweep.induct)
     (fastforce split: if_splits prod.splits dest: fill_queue_fills)+

text \<open>The levels left are a suffix of the levels before, but for the head's queue.\<close>

lemma sweep_suffix: "sweep acc r ls = (r', ls', fs) \<Longrightarrow> suffix (map fst ls') (map fst ls)"
  by (induction acc r ls arbitrary: r' ls' fs rule: sweep.induct)
     (auto split: if_splits prod.splits intro: suffix_ConsI)

section \<open>Price priority\<close>

text \<open>
  Both sides of a book obey the same laws under their own order of prices: \<open>lt a b\<close> says
  that a level at price \<open>a\<close> is served before one at \<open>b\<close>.
\<close>

locale price_priority =
  fixes lt :: "u64 \<Rightarrow> u64 \<Rightarrow> bool"
  assumes lt_irrefl: "\<not> lt a a"
    and lt_trans: "lt a b \<Longrightarrow> lt b c \<Longrightarrow> lt a c"
    and lt_total: "a \<noteq> b \<Longrightarrow> lt a b \<or> lt b a"
begin

lemma sorted_distinct: "sorted_wrt lt ps \<Longrightarrow> distinct ps"
  by (induction ps) (auto simp: lt_irrefl)

lemma sweep_sorted:
  "sweep acc r ls = (r', ls', fs) \<Longrightarrow> sorted_wrt lt (map fst ls) \<Longrightarrow> sorted_wrt lt (map fst ls')"
  by (auto dest!: sweep_suffix simp: suffix_def sorted_wrt_append)

lemma join_level_prices: "fst ` set (join_level lt pr x ls) = insert pr (fst ` set ls)"
proof (induction ls)
  case (Cons a ls)
  then show ?case by (cases a) (simp add: insert_commute)
qed simp

lemma join_level_sorted:
  "sorted_wrt lt (map fst ls) \<Longrightarrow> sorted_wrt lt (map fst (join_level lt pr x ls))"
proof (induction ls)
  case (Cons a ls)
  obtain pr' qs where a: "a = (pr', qs)" by fastforce
  have ge: "lt pr pr'" if "pr' \<noteq> pr" "\<not> lt pr' pr"
    using that lt_total by blast
  have tl: "\<forall>q \<in> fst ` set ls. lt pr' q" and srt: "sorted_wrt lt (map fst ls)"
    using Cons.prems a by auto
  show ?case
  proof (cases "pr' = pr \<or> \<not> lt pr' pr")
    case True
    then show ?thesis using a ge tl srt by (auto intro: lt_trans)
  next
    case False
    then have "\<forall>q \<in> fst ` set (join_level lt pr x ls). lt pr' q"
      using tl by (simp add: join_level_prices)
    then show ?thesis using a False Cons.IH [OF srt] by simp
  qed
qed simp

lemma join_level_live: "live_qs ls \<Longrightarrow> 0 < snd x \<Longrightarrow> live_qs (join_level lt pr x ls)"
  by (induction ls) auto

lemma join_level_vol: "side_vol (join_level lt pr x ls) = side_vol ls + snd x"
  by (induction ls) auto

text \<open>Where the new order goes: after every better level, into the level of its price if any.\<close>

lemma join_level_split:
  assumes "\<forall>a \<in> set as. lt (fst a) pr" and "bs \<noteq> [] \<Longrightarrow> \<not> lt (fst (hd bs)) pr"
  shows "join_level lt pr x (as @ bs) =
    as @ (if bs \<noteq> [] \<and> fst (hd bs) = pr then (pr, snd (hd bs) @ [x]) # tl bs else (pr, [x]) # bs)"
  using assms
proof (induction as)
  case Nil
  then show ?case by (cases bs) auto
next
  case (Cons a as)
  then show ?case by (cases a) (auto simp: lt_irrefl)
qed

lemma sweep_price_order:
  assumes "sweep acc r ls = (r', ls', fs)" "sorted_wrt lt (map fst ls)" "live_qs ls"
  shows "sorted_wrt (\<lambda>a b. a = b \<or> lt a b) (map (\<lambda>f. fst (snd f)) fs)"
  using assms
proof (induction acc r ls arbitrary: r' ls' fs rule: sweep.induct)
  case (2 acc r pr qs ls)
  show ?case
  proof (cases "r = 0 \<or> \<not> acc pr")
    case False
    obtain r1 qs1 f1 where f: "fill_queue pr r qs = (r1, qs1, f1)" by (metis prod_cases3)
    have same: "\<forall>x \<in> set f1. fst (snd x) = pr"
      using fill_queue_fills [OF f] "2.prems"(3) by force
    then have s1: "sorted_wrt (\<lambda>a b. a = b \<or> lt a b) (map (\<lambda>f. fst (snd f)) f1)"
      by (induction f1) auto
    show ?thesis
    proof (cases "qs1 = []")
      case True
      obtain r2 ls2 f2 where s: "sweep acc r1 ls = (r2, ls2, f2)" by (metis prod_cases3)
      have live: "live_qs ls" and srt: "sorted_wrt lt (map fst ls)"
        using "2.prems" by auto
      have "sorted_wrt (\<lambda>a b. a = b \<or> lt a b) (map (\<lambda>f. fst (snd f)) f2)"
        using "2.IH" [OF False f [symmetric] refl True s srt live] .
      moreover have "\<forall>x \<in> set f2. lt pr (fst (snd x))"
        using sweep_fills [OF s live] "2.prems"(2) by fastforce
      moreover have "fs = f1 @ f2"
        using "2.prems"(1) False f True s by simp
      ultimately show ?thesis
        using s1 same by (auto simp: sorted_wrt_append)
    next
      case False': False
      with "2.prems"(1) False f s1 show ?thesis by simp
    qed
  qed (use "2.prems"(1) in simp)
qed simp

end

interpretation bid: price_priority better_bid
  by unfold_locales (auto simp: better_bid_def)

interpretation ask: price_priority better_ask
  by unfold_locales (auto simp: better_ask_def)

end
