(* ===== verification/Go_Search.thy ===== *)
theory Go_Search
  imports Platform_Prelude
begin

text \<open>
  The pieces of Go's standard library and slice operations that \<open>pkg/orderbook\<close> uses on its
  sorted slices of price levels: \<open>sort.Search\<close> (binary search, with a predicate that may
  panic), insertion by \<open>append\<close>, \<open>copy\<close> and assignment, and deletion by re-slicing.
\<close>

section \<open>Binary search\<close>

text \<open>
  \<open>sort.Search(n, f)\<close>: with \<open>i, j = 0, n\<close>, halve the interval while \<open>i < j\<close>.
\<close>

function search_loop :: "(nat \<Rightarrow> bool option) \<Rightarrow> nat \<Rightarrow> nat \<Rightarrow> nat option" where
  "search_loop f i j =
     (if i < j then do {
        b \<leftarrow> f ((i + j) div 2);
        if \<not> b then search_loop f ((i + j) div 2 + 1) j else search_loop f i ((i + j) div 2) }
      else Some i)"
  by pat_completeness auto
termination
  by (relation "measure (\<lambda>(f, i, j). j - i)") auto

declare search_loop.simps [simp del]

definition Search :: "nat \<Rightarrow> (nat \<Rightarrow> bool option) \<Rightarrow> nat option" where
  "Search n f = search_loop f 0 n"

lemma search_loop_correct:
  assumes "\<And>m. m < n \<Longrightarrow> f m = Some (k \<le> m)" "i \<le> k" "k \<le> j" "j \<le> n"
  shows "search_loop f i j = Some k"
  using assms
proof (induction f i j rule: search_loop.induct)
  case (1 f i j)
  show ?case
  proof (cases "i < j")
    case True
    let ?m = "(i + j) div 2"
    have m: "f ?m = Some (k \<le> ?m)" "?m < j"
      using "1.prems" True by auto
    show ?thesis
    proof (cases "k \<le> ?m")
      case lower: True
      then have "search_loop f i ?m = Some k"
        using "1.IH"(2) [OF True, of True] "1.prems" m by simp
      with True m lower show ?thesis by (simp add: search_loop.simps [of f i j])
    next
      case upper: False
      then have "search_loop f (?m + 1) j = Some k"
        using "1.IH"(1) [OF True, of False] "1.prems" m by simp
      with True m upper show ?thesis by (simp add: search_loop.simps [of f i j])
    qed
  next
    case False
    with "1.prems" show ?thesis by (simp add: search_loop.simps [of f i j])
  qed
qed

text \<open>
  The contract of \<open>sort.Search\<close>: on a predicate that is false below some index
  \<open>k\<close> and true from there on, the search returns \<open>k\<close>.
\<close>

lemma Search_threshold:
  "(\<And>m. m < n \<Longrightarrow> f m = Some (k \<le> m)) \<Longrightarrow> k \<le> n \<Longrightarrow> Search n f = Some k"
  unfolding Search_def by (rule search_loop_correct [of n]) auto

section \<open>Slices\<close>

text \<open>
  \<open>s = append(s, nil); copy(s[idx+1:], s[idx:]); s[idx] = x\<close>, with \<open>z\<close> for the zero
  value; \<open>copy\<close> moves as many elements as fit.
\<close>

definition slice_insert :: "'a \<Rightarrow> nat \<Rightarrow> 'a \<Rightarrow> 'a list \<Rightarrow> 'a list" where
  "slice_insert z idx x xs =
     (let s = xs @ [z];
          s' = take (idx + 1) s @ take (length s - (idx + 1)) (drop idx s)
      in s'[idx := x])"

text \<open>\<open>append(s[:idx], s[idx+1:]...)\<close>\<close>

definition slice_delete :: "nat \<Rightarrow> 'a list \<Rightarrow> 'a list" where
  "slice_delete idx xs = take idx xs @ drop (idx + 1) xs"

lemma slice_insert_split: "slice_insert z (length as) x (as @ bs) = as @ x # bs"
  by (cases bs) (simp_all add: slice_insert_def Let_def list_update_append)

lemma slice_delete_split: "slice_delete (length as) (as @ x # bs) = as @ bs"
  by (simp add: slice_delete_def)

end
