(* ===== verification/OrderBook.thy ===== *)
theory OrderBook
  imports Limit_Queue Price_Time_Spec Go_Search
begin

text \<open>
  The matching engine of \<open>pkg/orderbook/orderbook.go\<close> on the explicit heap of
  \<open>Limit_Queue\<close>: \<open>Process\<close>, \<open>Cancel\<close>, \<open>GetDepth\<close> and the
  helpers they call.  The theory holds the definitions; \<open>OrderBook_Match\<close> and
  \<open>OrderBook_Correct\<close> prove them against \<open>Price_Time_Spec\<close>.
\<close>

section \<open>State\<close>

record trade =
  MakerOrderID :: string
  TakerOrderID :: string
  tPrice :: u64
  tQuantity :: u64

record price_level =
  plPrice :: u64
  plVolume :: u64

record orderbook = heap +
  bids :: "lref list"
  asks :: "lref list"
  orders :: "string \<rightharpoonup> oref"

definition NewOrderBook :: orderbook where
  "NewOrderBook = \<lparr>oheap = Map.empty, lheap = Map.empty, onext = 0, lnext = 0,
     bids = [], asks = [], orders = Map.empty\<rparr>"

text \<open>
  The \<open>*[]*Limit\<close> arguments of the helpers point to one of the two slices of the book.
\<close>

datatype slice = Bids | Asks

definition limits_of :: "slice \<Rightarrow> orderbook \<Rightarrow> lref list" where
  "limits_of w s = (case w of Bids \<Rightarrow> bids s | Asks \<Rightarrow> asks s)"

definition set_limits :: "slice \<Rightarrow> lref list \<Rightarrow> orderbook \<Rightarrow> orderbook" where
  "set_limits w ls s = (case w of Bids \<Rightarrow> s\<lparr>bids := ls\<rparr> | Asks \<Rightarrow> s\<lparr>asks := ls\<rparr>)"

section \<open>Matching\<close>

definition min_u64 :: "u64 \<Rightarrow> u64 \<Rightarrow> u64" where
  "min_u64 a b = (if a < b then a else b)"

text \<open>One iteration of the inner loop of \<open>matchOrder\<close>, for the maker at the head of the level.\<close>

definition match_maker :: "oref \<Rightarrow> lref \<Rightarrow> oref \<Rightarrow> orderbook \<Rightarrow> (orderbook \<times> trade) option" where
  "match_maker taker best maker s = do {
     t \<leftarrow> oheap s taker;
     m \<leftarrow> oheap s maker;
     let matchQty = min_u64 (RemainingQty t) (RemainingQty m);
     s \<leftarrow> set_order taker (\<lambda>x. x\<lparr>oFilledQty := oFilledQty x + matchQty\<rparr>) s;
     s \<leftarrow> set_order maker (\<lambda>x. x\<lparr>oFilledQty := oFilledQty x + matchQty\<rparr>) s;
     s \<leftarrow> set_limit best (\<lambda>lim. lim\<lparr>lTotalVolume := lTotalVolume lim - matchQty\<rparr>) s;
     t \<leftarrow> oheap s taker;
     m \<leftarrow> oheap s maker;
     lim \<leftarrow> lheap s best;
     let trade = \<lparr>MakerOrderID = oID m, TakerOrderID = oID t, tPrice = lPrice lim, tQuantity = matchQty\<rparr>;
     if RemainingQty m = 0 then do {
       s \<leftarrow> RemoveOrder best maker s;
       m \<leftarrow> oheap s maker;
       Some (s\<lparr>orders := (orders s)(oID m := None)\<rparr>, trade) }
     else Some (s, trade) }"

text \<open>The inner loop: \<open>for bestLimit.Head != nil && takerOrder.RemainingQty() > 0\<close>.\<close>

partial_function (option) match_level ::
  "oref \<Rightarrow> lref \<Rightarrow> orderbook \<Rightarrow> trade list \<Rightarrow> (orderbook \<times> trade list) option" where
  "match_level taker best s trades = do {
     lim \<leftarrow> lheap s best;
     case lHead lim of
       None \<Rightarrow> Some (s, trades)
     | Some maker \<Rightarrow> do {
         t \<leftarrow> oheap s taker;
         if 0 < RemainingQty t then do {
           (s, trade) \<leftarrow> match_maker taker best maker s;
           match_level taker best s (trades @ [trade]) }
         else Some (s, trades) } }"

text \<open>The crossing test of the outer loop, made for limit orders only.\<close>

definition no_cross :: "order \<Rightarrow> u64 \<Rightarrow> bool" where
  "no_cross t best \<longleftrightarrow> oType t = LimitOrder \<and>
     (oSide t = Buy \<and> oPrice t < best \<or> oSide t = Sell \<and> oPrice t > best)"

partial_function (option) match_loop ::
  "oref \<Rightarrow> slice \<Rightarrow> orderbook \<Rightarrow> trade list \<Rightarrow> (orderbook \<times> trade list) option" where
  "match_loop taker w s trades = (case limits_of w s of
     [] \<Rightarrow> Some (s, trades)
   | best # _ \<Rightarrow> do {
       t \<leftarrow> oheap s taker;
       if 0 < RemainingQty t then do {
         lim \<leftarrow> lheap s best;
         if no_cross t (lPrice lim) then Some (s, trades)
         else do {
           (s, trades) \<leftarrow> match_level taker best s trades;
           lim \<leftarrow> lheap s best;
           match_loop taker w
             (if lTotalVolume lim = 0 then set_limits w (drop 1 (limits_of w s)) s else s) trades } }
       else Some (s, trades) })"

declare match_level.simps [code] match_loop.simps [code]

definition matchOrder :: "oref \<Rightarrow> slice \<Rightarrow> orderbook \<Rightarrow> (orderbook \<times> trade list) option" where
  "matchOrder taker w s = match_loop taker w s []"

section \<open>Levels in price order\<close>

definition price_at :: "slice \<Rightarrow> orderbook \<Rightarrow> nat \<Rightarrow> u64 option" where
  "price_at w s i = (if i < length (limits_of w s)
     then do { lim \<leftarrow> lheap s (limits_of w s ! i); Some (lPrice lim) } else None)"

definition find_level :: "slice \<Rightarrow> u64 \<Rightarrow> bool \<Rightarrow> orderbook \<Rightarrow> nat option" where
  "find_level w price descending s = Search (length (limits_of w s)) (\<lambda>i. do {
     q \<leftarrow> price_at w s i;
     Some (if descending then q \<le> price else q \<ge> price) })"

definition level_exists :: "slice \<Rightarrow> u64 \<Rightarrow> nat \<Rightarrow> orderbook \<Rightarrow> bool option" where
  "level_exists w price idx s = (if idx < length (limits_of w s)
     then do { q \<leftarrow> price_at w s idx; Some (q = price) } else Some False)"

definition addLimitOrder :: "oref \<Rightarrow> slice \<Rightarrow> bool \<Rightarrow> orderbook \<Rightarrow> orderbook option" where
  "addLimitOrder p w descending s = do {
     x \<leftarrow> oheap s p;
     let price = oPrice x;
     idx \<leftarrow> find_level w price descending s;
     found \<leftarrow> level_exists w price idx s;
     let (l, s) = (if found then (limits_of w s ! idx, s)
                   else case NewLimit price s of (l, s) \<Rightarrow>
                     (l, set_limits w (slice_insert 0 idx l (limits_of w s)) s));
     s \<leftarrow> AddOrder l p s;
     x \<leftarrow> oheap s p;
     Some (s\<lparr>orders := (orders s)(oID x \<mapsto> p)\<rparr>) }"

definition removeLimitLevel :: "slice \<Rightarrow> u64 \<Rightarrow> bool \<Rightarrow> orderbook \<Rightarrow> orderbook option" where
  "removeLimitLevel w price descending s = do {
     idx \<leftarrow> find_level w price descending s;
     found \<leftarrow> level_exists w price idx s;
     Some (if found then set_limits w (slice_delete idx (limits_of w s)) s else s) }"

section \<open>The book's operations\<close>

definition Process :: "oref \<Rightarrow> orderbook \<Rightarrow> (orderbook \<times> trade list) option" where
  "Process p s = do {
     x \<leftarrow> oheap s p;
     if oQuantity x = 0 then Some (s, [])
     else if oSide x = Buy then do {
       (s, trades) \<leftarrow> matchOrder p Asks s;
       x \<leftarrow> oheap s p;
       s \<leftarrow> (if 0 < RemainingQty x \<and> oType x = LimitOrder then addLimitOrder p Bids True s else Some s);
       Some (s, trades) }
     else do {
       (s, trades) \<leftarrow> matchOrder p Bids s;
       x \<leftarrow> oheap s p;
       s \<leftarrow> (if 0 < RemainingQty x \<and> oType x = LimitOrder then addLimitOrder p Asks False s else Some s);
       Some (s, trades) } }"

definition Cancel :: "string \<Rightarrow> orderbook \<Rightarrow> (orderbook \<times> bool) option" where
  "Cancel orderID s = (case orders s orderID of
     None \<Rightarrow> Some (s, False)
   | Some p \<Rightarrow> do {
       x \<leftarrow> oheap s p;
       case oLimit x of
         None \<Rightarrow> Some (s, False)
       | Some l \<Rightarrow> do {
           s \<leftarrow> RemoveOrder l p s;
           x \<leftarrow> oheap s p;
           let s = s\<lparr>orders := (orders s)(oID x := None)\<rparr>;
           lim \<leftarrow> lheap s l;
           s \<leftarrow> (if lTotalVolume lim = 0 then
                   if oSide x = Buy then removeLimitLevel Bids (lPrice lim) True s
                   else removeLimitLevel Asks (lPrice lim) False s
                 else Some s);
           Some (s, True) } })"

text \<open>
  \<open>make([]PriceLevel, 0, depth)\<close> panics on a negative capacity; the two loops copy the first
  \<open>depth\<close> levels.
\<close>

fun depth_loop :: "orderbook \<Rightarrow> nat \<Rightarrow> lref list \<Rightarrow> price_level list option" where
  "depth_loop s 0 ls = Some []"
| "depth_loop s (Suc n) [] = Some []"
| "depth_loop s (Suc n) (l # ls) = do {
     lim \<leftarrow> lheap s l;
     rest \<leftarrow> depth_loop s n ls;
     Some (\<lparr>plPrice = lPrice lim, plVolume = lTotalVolume lim\<rparr> # rest) }"

definition GetDepth :: "int \<Rightarrow> orderbook \<Rightarrow> (price_level list \<times> price_level list) option" where
  "GetDepth depth s = (if depth < 0 then None else do {
     bidsDepth \<leftarrow> depth_loop s (nat depth) (bids s);
     asksDepth \<leftarrow> depth_loop s (nat depth) (asks s);
     Some (bidsDepth, asksDepth) })"

end
