(* ===== verification/OrderBook_Match.thy ===== *)
theory OrderBook_Match
  imports OrderBook
begin

text \<open>
  The matching loops against the specification's \<open>fill_queue\<close>: one fill
  (\<open>match_maker\<close>) and the inner loop over a level's queue (\<open>match_level\<close>), which
  always returns on a well-formed level, trades with its orders oldest first and leaves a
  well-formed level holding the rest of the queue.
\<close>

section \<open>Views of the heap\<close>

definition price_of :: "'a heap_scheme \<Rightarrow> lref \<Rightarrow> u64" where
  "price_of h l = (case lheap h l of None \<Rightarrow> 0 | Some lim \<Rightarrow> lPrice lim)"

definition id_at :: "(oref \<rightharpoonup> order) \<Rightarrow> oref \<Rightarrow> string" where
  "id_at oh p = (case oh p of None \<Rightarrow> [] | Some x \<Rightarrow> oID x)"

text \<open>The queue a level holds, as the specification sees it.\<close>

definition qabs :: "(oref \<rightharpoonup> order) \<Rightarrow> oref list \<Rightarrow> resting list" where
  "qabs oh ps = map (\<lambda>p. (id_at oh p, rem_at oh p)) ps"

definition abs_fill :: "trade \<Rightarrow> fill" where
  "abs_fill z = (MakerOrderID z, tPrice z, unat (tQuantity z))"

text \<open>A resting order: a partly or not yet filled limit order of its level's side and price.\<close>

definition resting_ok :: "(oref \<rightharpoonup> order) \<Rightarrow> bool \<Rightarrow> u64 \<Rightarrow> oref \<Rightarrow> bool" where
  "resting_ok oh buy pr p \<longleftrightarrow> (\<exists>x. oh p = Some x \<and> oFilledQty x < oQuantity x \<and> oPrice x = pr \<and>
     (oSide x = Buy \<longleftrightarrow> buy) \<and> oType x = LimitOrder)"

text \<open>\<open>t'\<close> is the order \<open>t\<close> after some more of it was filled.\<close>

definition filled_more :: "order \<Rightarrow> order \<Rightarrow> bool" where
  "filled_more t t' \<longleftrightarrow> t' = t\<lparr>oFilledQty := oFilledQty t'\<rparr> \<and> oFilledQty t' \<le> oQuantity t"

text \<open>
  The effect of matching taker \<open>p\<close> at level \<open>l\<close>: the level's struct changes but for its
  price, the orders in \<open>S\<close> and the taker change, index entries may go.
\<close>

definition match_upd :: "orderbook \<Rightarrow> oref \<Rightarrow> lref \<Rightarrow> oref set \<Rightarrow> orderbook \<Rightarrow> bool" where
  "match_upd s p l S s' \<longleftrightarrow> (\<exists>oh lim0 lim om.
     s' = s\<lparr>oheap := oh, lheap := (lheap s)(l \<mapsto> lim), orders := om\<rparr> \<and>
     lheap s l = Some lim0 \<and> lPrice lim = lPrice lim0 \<and> dom oh = dom (oheap s) \<and>
     (\<forall>z. id_at oh z = id_at (oheap s) z) \<and> (\<forall>z. z \<notin> insert p S \<longrightarrow> oh z = oheap s z))"

lemma filled_more_trans: "filled_more t t' \<Longrightarrow> filled_more t' t'' \<Longrightarrow> filled_more t t''"
  unfolding filled_more_def by (cases t; cases t'; cases t'') simp

lemma filled_more_fields:
  "filled_more t t' \<Longrightarrow> oID t' = oID t \<and> oSide t' = oSide t \<and> oType t' = oType t \<and> oPrice t' = oPrice t \<and>
     oQuantity t' = oQuantity t \<and> oNext t' = oNext t \<and> oPrev t' = oPrev t \<and> oLimit t' = oLimit t \<and>
     oTimestamp t' = oTimestamp t \<and> oFilledQty t' \<le> oQuantity t"
  unfolding filled_more_def by (cases t; cases t') simp

lemma match_updI:
  "s' = s\<lparr>oheap := oh, lheap := (lheap s)(l \<mapsto> lim), orders := om\<rparr> \<Longrightarrow> lheap s l = Some lim0 \<Longrightarrow>
   lPrice lim = lPrice lim0 \<Longrightarrow> dom oh = dom (oheap s) \<Longrightarrow> (\<And>z. id_at oh z = id_at (oheap s) z) \<Longrightarrow>
   (\<And>z. z \<notin> insert p S \<Longrightarrow> oh z = oheap s z) \<Longrightarrow>
   match_upd s p l S s'"
  unfolding match_upd_def by blast

lemma match_upd_trans:
  assumes "match_upd s p l S s'" "match_upd s' p l S' s''" "S' \<subseteq> S"
  shows "match_upd s p l S s''"
proof -
  from assms(1) obtain oh lim0 lim om where 1: "s' = s\<lparr>oheap := oh, lheap := (lheap s)(l \<mapsto> lim), orders := om\<rparr>"
    "lheap s l = Some lim0" "lPrice lim = lPrice lim0" "dom oh = dom (oheap s)"
    "\<And>z. id_at oh z = id_at (oheap s) z" "\<And>z. z \<notin> insert p S \<Longrightarrow> oh z = oheap s z" unfolding match_upd_def by blast
  from assms(2) obtain oh' lim0' lim' om' where 2: "s'' = s'\<lparr>oheap := oh', lheap := (lheap s')(l \<mapsto> lim'), orders := om'\<rparr>"
    "lheap s' l = Some lim0'" "lPrice lim' = lPrice lim0'" "dom oh' = dom (oheap s')"
    "\<And>z. id_at oh' z = id_at (oheap s') z" "\<And>z. z \<notin> insert p S' \<Longrightarrow> oh' z = oheap s' z" unfolding match_upd_def by blast
  have "oh' z = oheap s z" if "z \<notin> insert p S" for z
    using 1(1,6) 2(6) [of z] assms(3) that by auto
  with 1(1-5) 2(1-5) show ?thesis
    by (intro match_updI [where oh = oh' and lim = lim' and om = om' and lim0 = lim0]) simp_all
qed

lemma chain_same_links:
  "oh m = Some x \<Longrightarrow> oNext x' = oNext x \<Longrightarrow> oPrev x' = oPrev x \<Longrightarrow> oLimit x' = oLimit x \<Longrightarrow>
   chain (oh(m \<mapsto> x')) l pv ps nx = chain oh l pv ps nx"
  by (induction ps arbitrary: pv) auto

lemma RemainingQty_fill [simp]: "RemainingQty (x\<lparr>oFilledQty := oFilledQty x + q\<rparr>) = RemainingQty x - q"
  by (simp add: RemainingQty_def)

lemma fill_le: "F \<le> Q \<Longrightarrow> m \<le> Q - F \<Longrightarrow> F + m \<le> (Q :: u64)"
proof -
  assume a: "F \<le> Q" "m \<le> Q - F"
  then have "unat m \<le> unat Q - unat F"
    by (simp add: word_le_nat_alt unat_sub)
  with a have le: "unat F + unat m \<le> unat Q"
    by (simp add: word_le_nat_alt)
  then have "unat (F + m) = unat F + unat m"
    by (intro unat_add_fits) (blast intro: fits64_mono fits64_unat)
  with le show ?thesis by (simp add: word_le_nat_alt)
qed


lemma resting_okD:
  "resting_ok oh buy pr p \<Longrightarrow> \<exists>x. oh p = Some x \<and> 0 < RemainingQty x \<and> rem_at oh p = unat (RemainingQty x) \<and> 0 < rem_at oh p"
  unfolding resting_ok_def rem_at_def RemainingQty_def
  by (auto simp: word_less_nat_alt unat_sub word_le_nat_alt less_imp_le)

lemma odata_eq: "odata x = odata y \<longleftrightarrow> oID x = oID y \<and> oSide x = oSide y \<and> oType x = oType y \<and>
   oPrice x = oPrice y \<and> oQuantity x = oQuantity y \<and> oFilledQty x = oFilledQty y \<and> oTimestamp x = oTimestamp y"
  by (cases x; cases y) (auto simp: odata_def)

lemma id_at_odata: "map_option odata (oh' q) = map_option odata (oh q) \<Longrightarrow> id_at oh' q = id_at oh q"
  by (cases "oh q"; cases "oh' q") (auto simp: id_at_def odata_eq)

lemma resting_ok_odata:
  "map_option odata (oh' q) = map_option odata (oh q) \<Longrightarrow> resting_ok oh' buy pr q = resting_ok oh buy pr q"
  by (cases "oh q"; cases "oh' q") (auto simp: resting_ok_def odata_eq)

lemma unat_min_u64: "unat (min_u64 a b) = min (unat a) (unat b)"
  by (simp add: min_u64_def word_less_nat_alt)

lemma rem_at_upd [simp]: "rem_at (oh(p \<mapsto> x)) q = (if q = p then unat (RemainingQty x) else rem_at oh q)"
  by (simp add: rem_at_def)

lemma vol_upd [simp]: "p \<notin> set ps \<Longrightarrow> vol (oh(p := v)) ps = vol oh ps"
  by (induction ps) (auto simp: rem_at_def)

lemma fill_level:
  assumes lv: "is_level s l (m # ms)" and h: "oheap s m = Some x" "lheap s l = Some lim" "p \<notin> set (m # ms)"
    and q: "q \<le> RemainingQty x"
  shows "is_level (s\<lparr>oheap := (oheap s)(p \<mapsto> t, m \<mapsto> x\<lparr>oFilledQty := oFilledQty x + q\<rparr>),
     lheap := (lheap s)(l \<mapsto> lim\<lparr>lTotalVolume := lTotalVolume lim - q\<rparr>)\<rparr>) l (m # ms)"
proof -
  let ?x = "x\<lparr>oFilledQty := oFilledQty x + q\<rparr>"
  have "chain ((oheap s)(p \<mapsto> t, m \<mapsto> ?x)) l None (m # ms) None"
    using lv h by (subst chain_same_links [where x = x]) (auto simp: is_level_def)
  moreover have "of_nat (unat (RemainingQty x - q)) = RemainingQty x - q"
    by simp
  ultimately show ?thesis
    using lv h by (intro is_levelI [where lim = "lim\<lparr>lTotalVolume := lTotalVolume lim - q\<rparr>"])
      (auto simp: is_level_def rem_at_def)
qed

lemma same_data_dom: "same_data oh oh' \<Longrightarrow> dom oh' = dom oh"
  unfolding same_data_def dom_def by (metis (no_types, lifting) option.map_disc_iff)

section \<open>One fill\<close>

text \<open>The trade with the maker \<open>m\<close>, and the book after taker and maker were filled by \<open>q\<close>.\<close>

definition level_trade :: "orderbook \<Rightarrow> order \<Rightarrow> lref \<Rightarrow> oref \<Rightarrow> trade" where
  "level_trade s t l m = \<lparr>MakerOrderID = id_at (oheap s) m, TakerOrderID = oID t, tPrice = price_of s l,
     tQuantity = of_nat (min (unat (RemainingQty t)) (rem_at (oheap s) m))\<rparr>"

definition filled_by :: "u64 \<Rightarrow> order \<Rightarrow> order" where
  "filled_by q x = x\<lparr>oFilledQty := oFilledQty x + q\<rparr>"

definition fill_state :: "orderbook \<Rightarrow> oref \<Rightarrow> order \<Rightarrow> oref \<Rightarrow> order \<Rightarrow> lref \<Rightarrow> limit \<Rightarrow> u64 \<Rightarrow> orderbook" where
  "fill_state s p t m x l lim q = s\<lparr>oheap := (oheap s)(p \<mapsto> filled_by q t, m \<mapsto> filled_by q x),
     lheap := (lheap s)(l \<mapsto> lim\<lparr>lTotalVolume := lTotalVolume lim - q\<rparr>)\<rparr>"

text \<open>What one fill of taker \<open>p\<close> with the first order \<open>m\<close> of level \<open>l\<close> does.\<close>

definition maker_filled :: "bool \<Rightarrow> u64 \<Rightarrow> oref \<Rightarrow> lref \<Rightarrow> oref \<Rightarrow> oref list \<Rightarrow> order \<Rightarrow> orderbook \<Rightarrow> order \<Rightarrow> orderbook \<Rightarrow> bool" where
  "maker_filled buy pr p l m ms t s t' s' \<longleftrightarrow> match_upd s p l (set (m # ms)) s' \<and> oheap s' p = Some t' \<and> filled_more t t' \<and>
     unat (RemainingQty t') = unat (RemainingQty t) - rem_at (oheap s) m \<and>
     (\<forall>q \<in> set ms. map_option odata (oheap s' q) = map_option odata (oheap s q)) \<and>
     (if rem_at (oheap s) m \<le> unat (RemainingQty t)
      then is_level s' l ms \<and> orders s' = (orders s)(id_at (oheap s) m := None)
      else is_level s' l (m # ms) \<and> orders s' = orders s \<and> resting_ok (oheap s') buy pr m \<and>
           id_at (oheap s') m = id_at (oheap s) m \<and>
           rem_at (oheap s') m = rem_at (oheap s) m - unat (RemainingQty t))"

lemma filled_by_simps [simp]:
  "RemainingQty (filled_by q x) = RemainingQty x - q" "oID (filled_by q x) = oID x" "oPrice (filled_by q x) = oPrice x"
  "oSide (filled_by q x) = oSide x" "oType (filled_by q x) = oType x" "oQuantity (filled_by q x) = oQuantity x"
  "oFilledQty (filled_by q x) = oFilledQty x + q"
  by (simp_all add: filled_by_def)

lemma filled_more_by:
  "oFilledQty t < oQuantity t \<Longrightarrow> q \<le> RemainingQty t \<Longrightarrow> filled_more t (filled_by q t)"
  using fill_le [of "oFilledQty t" "oQuantity t" q] by (auto simp: filled_more_def filled_by_def RemainingQty_def less_imp_le)

text \<open>The quantity of the fill, and \<open>match_maker\<close> up to the removal of a filled maker.\<close>

lemma fill_quantity:
  assumes "q = min_u64 (RemainingQty t) (RemainingQty x)" "rem_at oh m = unat (RemainingQty x)"
  shows "q \<le> RemainingQty t" "q \<le> RemainingQty x" "unat q = min (unat (RemainingQty t)) (rem_at oh m)"
    "RemainingQty x - q = 0 \<longleftrightarrow> rem_at oh m \<le> unat (RemainingQty t)"
    "unat (RemainingQty t - q) = unat (RemainingQty t) - rem_at oh m" "unat (RemainingQty x - q) = rem_at oh m - unat (RemainingQty t)"
proof -
  show q: "q \<le> RemainingQty t" "q \<le> RemainingQty x" "unat q = min (unat (RemainingQty t)) (rem_at oh m)"
    by (auto simp: assms unat_min_u64) (auto simp: min_u64_def)
  show "RemainingQty x - q = 0 \<longleftrightarrow> rem_at oh m \<le> unat (RemainingQty t)"
    using q assms(2) by (auto simp: word_unat_eq_iff unat_diff_le)
  show "unat (RemainingQty t - q) = unat (RemainingQty t) - rem_at oh m" "unat (RemainingQty x - q) = rem_at oh m - unat (RemainingQty t)"
    using q assms(2) by (simp_all add: unat_diff_le)
qed

lemma match_maker_eq:
  assumes "oheap s m = Some x" "lheap s l = Some lim" "oheap s p = Some t" "p \<noteq> m" "q = min_u64 (RemainingQty t) (RemainingQty x)"
    and "rem_at (oheap s) m = unat (RemainingQty x)"
  shows "match_maker p l m s = (if rem_at (oheap s) m \<le> unat (RemainingQty t) then do {
       s' \<leftarrow> RemoveOrder l m (fill_state s p t m x l lim q); m' \<leftarrow> oheap s' m;
       Some (s'\<lparr>orders := (orders s')(oID m' := None)\<rparr>, level_trade s t l m) }
     else Some (fill_state s p t m x l lim q, level_trade s t l m))"
proof -
  have "level_trade s t l m = \<lparr>MakerOrderID = oID x, TakerOrderID = oID t, tPrice = lPrice lim, tQuantity = q\<rparr>"
    using assms(1,2) fill_quantity(3) [OF assms(5,6), symmetric] by (simp add: level_trade_def id_at_def price_of_def)
  then show ?thesis using assms(1-4) fill_quantity(4) [OF assms(5,6), symmetric]
    by (simp add: match_maker_def set_order_def set_limit_def fill_state_def filled_by_def flip: assms(5))
qed

lemma match_maker_full:
  assumes lv: "is_level (fill_state s p t m x l lim q) l (m # ms)" and h: "oheap s m = Some x" "lheap s l = Some lim" "oheap s p = Some t"
    and p: "p \<notin> set (m # ms)"
  shows "\<exists>s' s''. RemoveOrder l m (fill_state s p t m x l lim q) = Some s' \<and> oheap s' m = Some (odata (filled_by q x)) \<and>
     s'' = s'\<lparr>orders := (orders s')(oID x := None)\<rparr> \<and> match_upd s p l (set (m # ms)) s'' \<and> oheap s'' p = Some (filled_by q t) \<and>
     (\<forall>q \<in> set ms. map_option odata (oheap s'' q) = map_option odata (oheap s q)) \<and>
     is_level s'' l ms \<and> orders s'' = (orders s)(id_at (oheap s) m := None)"
proof -
  let ?s = "fill_state s p t m x l lim q"
  have o: "oheap ?s = (oheap s)(p \<mapsto> filled_by q t, m \<mapsto> filled_by q x)" by (simp add: fill_state_def)
  obtain s' where s': "RemoveOrder l m ?s = Some s'" "is_level s' l ms"
    "level_upd ?s l (set (m # ms)) s'" "oheap s' m = Some (odata (filled_by q x))"
    using RemoveOrder_ok [of ?s l "[]" m ms "filled_by q x"] lv by (auto simp: o)
  from s'(3) obtain oh lim2 where u: "s' = s\<lparr>oheap := oh, lheap := (lheap s)(l \<mapsto> lim2)\<rparr>"
    "lPrice lim2 = lPrice lim" "same_data (oheap ?s) oh" "\<And>z. z \<notin> set (m # ms) \<Longrightarrow> oh z = oheap ?s z"
    unfolding level_upd_def by (auto simp: fill_state_def)
  let ?s' = "s'\<lparr>orders := (orders s')(oID x := None)\<rparr>"
  have eq: "?s' = s\<lparr>oheap := oh, lheap := (lheap s)(l \<mapsto> lim2), orders := (orders s)(oID x := None)\<rparr>" using u(1) by simp
  have "dom oh = dom (oheap s)" using same_data_dom [OF u(3)] h by (auto simp: o)
  moreover have "id_at oh z = id_at (oheap s) z" for z
    using id_at_odata [of oh z "oheap ?s"] same_data_at [OF u(3), of z] h by (auto simp: id_at_def o)
  ultimately have "match_upd s p l (set (m # ms)) ?s'" using u h by (intro match_updI [OF eq]) (auto simp: o)
  moreover have "oheap ?s' p = Some (filled_by q t)" using u p by (simp add: o)
  moreover have "\<forall>q \<in> set ms. map_option odata (oheap ?s' q) = map_option odata (oheap s q)"
    using same_data_at [OF u(3)] u(1) lv p by (auto simp: is_level_def o)
  moreover have "is_level ?s' l ms" using s'(2) by (simp add: is_level_def)
  moreover have "orders ?s' = (orders s)(id_at (oheap s) m := None)" using eq h by (simp add: id_at_def)
  ultimately show ?thesis using s'(1,4) by blast
qed

lemma fill_state_part:
  assumes lv: "is_level (fill_state s p t m x l lim q) l (m # ms)" and h: "oheap s m = Some x" "lheap s l = Some lim" "oheap s p = Some t"
    and ok: "resting_ok (oheap s) buy pr m" "p \<notin> set (m # ms)" "q \<le> RemainingQty x" "RemainingQty x - q \<noteq> 0"
  shows "match_upd s p l (set (m # ms)) (fill_state s p t m x l lim q)" "resting_ok (oheap (fill_state s p t m x l lim q)) buy pr m"
    "oheap (fill_state s p t m x l lim q) p = Some (filled_by q t)" "orders (fill_state s p t m x l lim q) = orders s"
    "\<forall>k \<in> set ms. oheap (fill_state s p t m x l lim q) k = oheap s k"
    "id_at (oheap (fill_state s p t m x l lim q)) m = id_at (oheap s) m"
    "rem_at (oheap (fill_state s p t m x l lim q)) m = unat (RemainingQty x - q)"
proof -
  let ?s = "fill_state s p t m x l lim q"
  show "match_upd s p l (set (m # ms)) ?s"
    using h by (intro match_updI [where om = "orders s" and oh = "oheap ?s" and lim = "lim\<lparr>lTotalVolume := lTotalVolume lim - q\<rparr>"])
      (auto simp: id_at_def fill_state_def)
  show "resting_ok (oheap ?s) buy pr m"
    using ok h fill_le [of "oFilledQty x" "oQuantity x" q]
    by (auto simp: resting_ok_def RemainingQty_def order.strict_iff_order algebra_simps fill_state_def)
  show "oheap ?s p = Some (filled_by q t)" "orders ?s = orders s" "\<forall>k \<in> set ms. oheap ?s k = oheap s k"
    "id_at (oheap ?s) m = id_at (oheap s) m" "rem_at (oheap ?s) m = unat (RemainingQty x - q)"
    using ok(2) h lv by (auto simp: fill_state_def id_at_def is_level_def)
qed

lemma match_maker_ok:
  assumes lv: "is_level s l (m # ms)" and ok: "resting_ok (oheap s) buy pr m"
    and t: "oheap s p = Some t" "p \<notin> set (m # ms)" "oFilledQty t < oQuantity t"
  shows "\<exists>s' t'. match_maker p l m s = Some (s', level_trade s t l m) \<and> maker_filled buy pr p l m ms t s t' s'"
proof -
  from ok obtain x where x: "oheap s m = Some x" "rem_at (oheap s) m = unat (RemainingQty x)" using resting_okD by blast
  from lv obtain lim where lim: "lheap s l = Some lim" by (rule is_levelE)
  define q where "q = min_u64 (RemainingQty t) (RemainingQty x)"
  note q = fill_quantity [OF q_def x(2)]
  have lv1: "is_level (fill_state s p t m x l lim q) l (m # ms)"
    using fill_level [OF lv x(1) lim t(2) q(2)] by (simp add: fill_state_def filled_by_def)
  have pm: "p \<noteq> m" using t(2) by auto
  note mm = match_maker_eq [OF x(1) lim t(1) pm q_def x(2)]
  note tt = filled_more_by [OF t(3) q(1)]
  show ?thesis
  proof (cases "rem_at (oheap s) m \<le> unat (RemainingQty t)")
    case True
    from match_maker_full [OF lv1 x(1) lim t(1,2)] show ?thesis
      using True mm tt q(5) by (auto simp: maker_filled_def odata_def)
  next
    case False
    then have "RemainingQty x - q \<noteq> 0" using q(4) by simp
    note f = fill_state_part [OF lv1 x(1) lim t(1) ok t(2) q(2) this]
    show ?thesis using False mm tt q(5,6) lv1 f by (auto simp: maker_filled_def)
  qed
qed

section \<open>The queue of a level\<close>

lemma match_upd_refl: "lheap s l = Some lim \<Longrightarrow> match_upd s p l S s"
  by (rule match_updI [where oh = "oheap s" and lim = lim and om = "orders s" and lim0 = lim])
     (simp_all add: fun_upd_idem)

lemma RemainingQty_pos: "oFilledQty x \<le> oQuantity x \<Longrightarrow> 0 < RemainingQty x \<longleftrightarrow> oFilledQty x < oQuantity x"
  by (auto simp: RemainingQty_def word_less_nat_alt unat_sub word_le_nat_alt)

lemma unat_pos: "0 < unat (a :: u64) \<longleftrightarrow> 0 < a"
  by (simp add: word_less_nat_alt)

lemma rem_at_odata: "map_option odata (oh' q) = map_option odata (oh q) \<Longrightarrow> rem_at oh' q = rem_at oh q"
  by (cases "oh q"; cases "oh' q") (auto simp: rem_at_def odata_eq RemainingQty_def)

lemma qabs_odata:
  "\<forall>q \<in> set ps. map_option odata (oh' q) = map_option odata (oh q) \<Longrightarrow> qabs oh' ps = qabs oh ps"
  by (simp add: qabs_def) (blast intro: id_at_odata rem_at_odata)

lemma qabs_simps [simp]: "qabs oh [] = []" "qabs oh (p # ps) = (id_at oh p, rem_at oh p) # qabs oh ps"
  "qabs oh ps = [] \<longleftrightarrow> ps = []" "qabs oh (ps @ qs) = qabs oh ps @ qabs oh qs"
  by (simp_all add: qabs_def)

lemma match_upd_price: "match_upd s p l S s' \<Longrightarrow> price_of s' k = price_of s k"
  unfolding match_upd_def price_of_def by auto

text \<open>What matching taker \<open>p\<close> at level \<open>l\<close> with queue \<open>ps\<close> does: \<open>ps'\<close> is what is left of the queue.\<close>

definition level_matched ::
  "bool \<Rightarrow> u64 \<Rightarrow> oref \<Rightarrow> lref \<Rightarrow> oref list \<Rightarrow> order \<Rightarrow> orderbook \<Rightarrow> oref list \<Rightarrow> order \<Rightarrow> trade list \<Rightarrow> orderbook \<Rightarrow> bool" where
  "level_matched buy pr p l ps t s ps' t' ts s' \<longleftrightarrow> is_level s' l ps' \<and> suffix ps' ps \<and>
     (\<forall>q \<in> set ps'. resting_ok (oheap s') buy pr q) \<and> match_upd s p l (set ps) s' \<and>
     oheap s' p = Some t' \<and> filled_more t t' \<and>
     fill_queue (price_of s l) (unat (RemainingQty t)) (qabs (oheap s) ps)
       = (unat (RemainingQty t'), qabs (oheap s') ps', map abs_fill ts) \<and>
     (\<forall>z \<in> set ts. TakerOrderID z = oID t) \<and>
     orders s' = orders s |` (- id_at (oheap s) ` (set ps - set ps'))"

lemma level_matchedD:
  assumes "level_matched buy pr p l ps t s ps' t' ts s'"
  shows "is_level s' l ps'" "suffix ps' ps" "\<forall>q \<in> set ps'. resting_ok (oheap s') buy pr q" "match_upd s p l (set ps) s'"
    "oheap s' p = Some t'" "filled_more t t'"
    "fill_queue (price_of s l) (unat (RemainingQty t)) (qabs (oheap s) ps) = (unat (RemainingQty t'), qabs (oheap s') ps', map abs_fill ts)"
    "\<forall>z \<in> set ts. TakerOrderID z = oID t" "orders s' = orders s |` (- id_at (oheap s) ` (set ps - set ps'))"
  using assms unfolding level_matched_def by blast+

lemma level_matched_refl:
  assumes "is_level s l ps" "\<forall>q \<in> set ps. resting_ok (oheap s) buy pr q" "oheap s p = Some t" "oFilledQty t \<le> oQuantity t"
    and "ps = [] \<or> RemainingQty t = 0"
  shows "level_matched buy pr p l ps t s ps t [] s"
proof -
  obtain lim where "lheap s l = Some lim" using assms(1) by (rule is_levelE)
  moreover have "fill_queue (price_of s l) (unat (RemainingQty t)) (qabs (oheap s) ps) = (unat (RemainingQty t), qabs (oheap s) ps, [])"
    using assms(5) by (cases ps) auto
  ultimately show ?thesis using assms by (simp add: level_matched_def match_upd_refl filled_more_def)
qed

lemma level_trade_abs:
  "abs_fill (level_trade s t l m) = (id_at (oheap s) m, price_of s l, min (unat (RemainingQty t)) (rem_at (oheap s) m))"
  by (simp add: abs_fill_def level_trade_def fits64_mono [OF fits64_unat [of "RemainingQty t"]])

text \<open>What a fill leaves untouched of the rest of the queue.\<close>

lemma maker_filled_rest:
  assumes "maker_filled buy pr p l m ms t s t' s'" "\<forall>q \<in> set (m # ms). resting_ok (oheap s) buy pr q"
  shows "\<forall>q \<in> set ms. resting_ok (oheap s') buy pr q" "qabs (oheap s') ms = qabs (oheap s) ms"
    "S \<subseteq> set ms \<Longrightarrow> id_at (oheap s') ` S = id_at (oheap s) ` S"
proof -
  have d: "\<forall>q \<in> set ms. map_option odata (oheap s' q) = map_option odata (oheap s q)"
    using assms(1) by (simp add: maker_filled_def)
  show "\<forall>q \<in> set ms. resting_ok (oheap s') buy pr q"
  proof
    fix q assume "q \<in> set ms"
    then show "resting_ok (oheap s') buy pr q" using resting_ok_odata [of "oheap s'" q "oheap s" buy pr] d assms(2) by simp
  qed
  show "qabs (oheap s') ms = qabs (oheap s) ms" using d by (rule qabs_odata)
  show "id_at (oheap s') ` S = id_at (oheap s) ` S" if "S \<subseteq> set ms" using d that by (intro image_cong refl id_at_odata) blast
qed

lemma level_matched_full:
  assumes f: "maker_filled buy pr p l m ms t s t1 s1" "\<forall>q \<in> set (m # ms). resting_ok (oheap s) buy pr q"
    and q: "rem_at (oheap s) m \<le> unat (RemainingQty t)" "0 < RemainingQty t" "m \<notin> set ms"
    and ih: "level_matched buy pr p l ms t1 s1 ps' t' ts s'"
  shows "level_matched buy pr p l (m # ms) t s ps' t' (level_trade s t l m # ts) s'"
proof -
  note i = level_matchedD [OF ih] and r = maker_filled_rest [OF f]
  have m1: "match_upd s p l (set (m # ms)) s1" "filled_more t t1" "unat (RemainingQty t1) = unat (RemainingQty t) - rem_at (oheap s) m"
    "orders s1 = (orders s)(id_at (oheap s) m := None)"
    using f(1) q(1) by (auto simp: maker_filled_def)
  have "m \<notin> set ps'" using q(3) set_mono_suffix [OF i(2)] by auto
  then have "orders s' = orders s |` (- id_at (oheap s) ` (set (m # ms) - set ps'))"
    using i(9) m1(4) r(3) [of "set ms - set ps'"] by (auto simp: restrict_map_def fun_eq_iff insert_Diff_if)
  moreover have "fill_queue (price_of s l) (unat (RemainingQty t)) (qabs (oheap s) (m # ms))
       = (unat (RemainingQty t'), qabs (oheap s') ps', map abs_fill (level_trade s t l m # ts))"
    using i(7) match_upd_price [OF m1(1)] m1(3) r(2) q by (simp add: unat_pos level_trade_abs)
  moreover have "oID t1 = oID t" using filled_more_fields [OF m1(2)] by simp
  ultimately show ?thesis
    using i match_upd_trans [OF m1(1) i(4)] filled_more_trans [OF m1(2) i(6)]
    by (auto simp: level_matched_def level_trade_def intro: suffix_ConsI)
qed

lemma level_matched_part:
  assumes f: "maker_filled buy pr p l m ms t s t1 s1" "\<forall>q \<in> set (m # ms). resting_ok (oheap s) buy pr q"
    and q: "\<not> rem_at (oheap s) m \<le> unat (RemainingQty t)" "0 < RemainingQty t"
  shows "level_matched buy pr p l (m # ms) t s (m # ms) t1 [level_trade s t l m] s1" "RemainingQty t1 = 0"
proof -
  note r = maker_filled_rest [OF f]
  have m1: "match_upd s p l (set (m # ms)) s1" "oheap s1 p = Some t1" "filled_more t t1"
    "unat (RemainingQty t1) = unat (RemainingQty t) - rem_at (oheap s) m" "is_level s1 l (m # ms)" "orders s1 = orders s"
    "resting_ok (oheap s1) buy pr m" "id_at (oheap s1) m = id_at (oheap s) m" "rem_at (oheap s1) m = rem_at (oheap s) m - unat (RemainingQty t)"
    using f(1) q(1) by (auto simp: maker_filled_def)
  show r0: "RemainingQty t1 = 0" using m1(4) q(1) by (simp add: word_unat_eq_iff)
  have "fill_queue (price_of s l) (unat (RemainingQty t)) (qabs (oheap s) (m # ms))
       = (unat (RemainingQty t1), qabs (oheap s1) (m # ms), map abs_fill [level_trade s t l m])"
    using r0 m1(8,9) r(2) q by (simp add: unat_pos level_trade_abs)
  then show "level_matched buy pr p l (m # ms) t s (m # ms) t1 [level_trade s t l m] s1"
    using m1 r(1) by (simp add: level_matched_def level_trade_def)
qed

lemma match_level_ok:
  assumes "is_level s l ps" "\<forall>q \<in> set ps. resting_ok (oheap s) buy pr q"
    and "oheap s p = Some t" "p \<notin> set ps" "oFilledQty t \<le> oQuantity t"
  shows "\<exists>s' ps' t' ts. match_level p l s trades = Some (s', trades @ ts) \<and> level_matched buy pr p l ps t s ps' t' ts s'"
  using assms
proof (induction ps arbitrary: s t trades)
  case Nil
  then have "match_level p l s trades = Some (s, trades)" by (auto simp: match_level.simps [of p l s] is_level_def)
  then show ?case using level_matched_refl [OF Nil(1,2,3,5)] by fastforce
next
  case (Cons m ms)
  from Cons.prems(1) obtain lim where lim: "lheap s l = Some lim" "lHead lim = Some m" by (auto simp: is_level_def)
  show ?case
  proof (cases "0 < RemainingQty t")
    case False
    then have r: "RemainingQty t = 0" by (simp add: word_gt_0)
    then have "match_level p l s trades = Some (s, trades)" using lim Cons.prems(3) by (simp add: match_level.simps [of p l s])
    then show ?thesis using level_matched_refl [OF Cons.prems(1,2,3,5)] r by fastforce
  next
    case True
    then have lt: "oFilledQty t < oQuantity t" using Cons.prems(5) by (simp add: RemainingQty_pos)
    have rm: "resting_ok (oheap s) buy pr m" using Cons.prems(2) by simp
    let ?z = "level_trade s t l m"
    obtain s1 t1 where m1: "match_maker p l m s = Some (s1, ?z)" "maker_filled buy pr p l m ms t s t1 s1"
      using match_maker_ok [OF Cons.prems(1) rm Cons.prems(3,4) lt] by blast
    have step: "match_level p l s trades = match_level p l s1 (trades @ [?z])"
      using lim Cons.prems(3) True m1(1) by (simp add: match_level.simps [of p l s])
    have t1: "oheap s1 p = Some t1" "oFilledQty t1 \<le> oQuantity t1"
      using m1(2) filled_more_fields [of t t1] by (auto simp: maker_filled_def)
    show ?thesis
    proof (cases "rem_at (oheap s) m \<le> unat (RemainingQty t)")
      case full: True
      then have lv: "is_level s1 l ms" using m1(2) by (simp add: maker_filled_def)
      have p: "p \<notin> set ms" "m \<notin> set ms" using Cons.prems(1,4) by (auto simp: is_level_def)
      obtain s' ps' t' ts where "match_level p l s1 (trades @ [?z]) = Some (s', (trades @ [?z]) @ ts)"
        "level_matched buy pr p l ms t1 s1 ps' t' ts s'"
        using Cons.IH [OF lv maker_filled_rest(1) [OF m1(2) Cons.prems(2)] t1(1) p(1) t1(2), of "trades @ [?z]"] by blast
      then show ?thesis using step level_matched_full [OF m1(2) Cons.prems(2) full True p(2)] by fastforce
    next
      case part: False
      note l = level_matched_part [OF m1(2) Cons.prems(2) part True]
      obtain lim1 where "lheap s1 l = Some lim1" "lHead lim1 = Some m"
        using level_matchedD(1) [OF l(1)] by (auto simp: is_level_def)
      then have "match_level p l s1 (trades @ [?z]) = Some (s1, trades @ [?z])"
        using t1(1) l(2) by (simp add: match_level.simps [of p l s1])
      then show ?thesis using step l(1) by fastforce
    qed
  qed
qed

end
