(* ===== verification/OrderBook_Sweep.thy ===== *)
theory OrderBook_Sweep
  imports OrderBook_Match
begin

text \<open>
  One side of the book and the outer loop of \<open>matchOrder\<close>: the invariant of a side, what it
  depends on, and the proof that the loop returns, trades best price first exactly as the
  specification's \<open>sweep\<close> and keeps the side's invariant.
\<close>

section \<open>A side of the book\<close>

text \<open>
  A side is a list of levels with the queues they hold.  The invariant of a level: a well-formed
  non-empty queue of resting orders whose total does not overflow \<open>TotalVolume\<close>.
\<close>

type_synonym level = "lref \<times> oref list"

definition level_ok :: "'a heap_scheme \<Rightarrow> bool \<Rightarrow> level \<Rightarrow> bool" where
  "level_ok h buy x \<longleftrightarrow> is_level h (fst x) (snd x) \<and> snd x \<noteq> [] \<and> fits64 (vol (oheap h) (snd x)) \<and>
     (\<forall>p \<in> set (snd x). resting_ok (oheap h) buy (price_of h (fst x)) p)"

definition prio :: "bool \<Rightarrow> u64 \<Rightarrow> u64 \<Rightarrow> bool" where
  "prio buy = (if buy then better_bid else better_ask)"

definition side_ok :: "'a heap_scheme \<Rightarrow> bool \<Rightarrow> level list \<Rightarrow> bool" where
  "side_ok h buy Q \<longleftrightarrow> (\<forall>x \<in> set Q. level_ok h buy x) \<and> sorted_wrt (prio buy) (map (\<lambda>x. price_of h (fst x)) Q)"

definition oset :: "level list \<Rightarrow> oref set" where
  "oset Q = (\<Union>x \<in> set Q. set (snd x))"

definition labs :: "'a heap_scheme \<Rightarrow> level \<Rightarrow> slevel" where
  "labs h x = (price_of h (fst x), qabs (oheap h) (snd x))"

definition sabs :: "'a heap_scheme \<Rightarrow> level list \<Rightarrow> slevel list" where
  "sabs h Q = map (labs h) Q"

lemma oset_simps [simp]: "oset [] = {}" "oset (x # Q) = set (snd x) \<union> oset Q" "oset (P @ Q) = oset P \<union> oset Q"
  by (auto simp: oset_def)

lemma sabs_simps [simp]: "sabs h [] = []" "sabs h (x # Q) = labs h x # sabs h Q" "sabs h (P @ Q) = sabs h P @ sabs h Q"
  "sabs h Q = [] \<longleftrightarrow> Q = []"
  by (simp_all add: sabs_def)

lemma fst_labs [simp]: "fst (labs h x) = price_of h (fst x)" "snd (labs h x) = qabs (oheap h) (snd x)"
  by (simp_all add: labs_def)

lemma map_fst_sabs [simp]: "map fst (sabs h Q) = map (\<lambda>x. price_of h (fst x)) Q"
  by (simp add: sabs_def)

lemma svol_qabs [simp]: "svol (qabs oh ps) = vol oh ps"
  by (induction ps) auto

text \<open>A level depends only on its struct and on its own orders.\<close>

lemma price_frame: "lheap h' l = lheap h l \<Longrightarrow> price_of h' l = price_of h l"
  by (simp add: price_of_def)

lemma qabs_frame: "(\<And>q. q \<in> set ps \<Longrightarrow> oh' q = oh q) \<Longrightarrow> qabs oh' ps = qabs oh ps"
  by (simp add: qabs_def id_at_def rem_at_def)

lemma is_level_frame:
  assumes "lheap h' l = lheap h l" "\<And>q. q \<in> set ps \<Longrightarrow> oheap h' q = oheap h q"
  shows "is_level h' l ps = is_level h l ps"
proof -
  have "chain (oheap h') l None ps None = chain (oheap h) l None ps None"
    using assms(2) by (rule chain_frame)
  moreover have "vol (oheap h') ps = vol (oheap h) ps"
    using qabs_frame [of ps "oheap h'" "oheap h"] assms(2) by (metis svol_qabs)
  ultimately show ?thesis
    using assms(1) by (simp add: is_level_def)
qed

lemma level_ok_frame:
  assumes "lheap h' (fst x) = lheap h (fst x)" "\<And>q. q \<in> set (snd x) \<Longrightarrow> oheap h' q = oheap h q"
  shows "level_ok h' buy x = level_ok h buy x" "labs h' x = labs h x"
proof -
  have q: "qabs (oheap h') (snd x) = qabs (oheap h) (snd x)"
    using assms(2) by (rule qabs_frame)
  then show "labs h' x = labs h x"
    by (simp add: labs_def price_frame [of h' "fst x" h] assms(1))
  have "resting_ok (oheap h') buy pr q = resting_ok (oheap h) buy pr q" if "q \<in> set (snd x)" for pr q
    using assms(2) [OF that] by (simp add: resting_ok_def)
  moreover have "vol (oheap h') (snd x) = vol (oheap h) (snd x)"
    using q by (metis svol_qabs)
  ultimately show "level_ok h' buy x = level_ok h buy x"
    using is_level_frame [OF assms] price_frame [OF assms(1)] by (simp add: level_ok_def)
qed

lemma side_ok_frame:
  assumes "\<And>x. x \<in> set Q \<Longrightarrow> lheap h' (fst x) = lheap h (fst x)" "\<And>q. q \<in> oset Q \<Longrightarrow> oheap h' q = oheap h q"
  shows "side_ok h' buy Q = side_ok h buy Q" "sabs h' Q = sabs h Q"
proof -
  have o: "oheap h' q = oheap h q" if "x \<in> set Q" "q \<in> set (snd x)" for x q
    using assms(2) that by (auto simp: oset_def)
  have f: "level_ok h' buy x = level_ok h buy x" "labs h' x = labs h x" if "x \<in> set Q" for x
    using level_ok_frame [OF assms(1) [OF that] o [OF that]] by simp_all
  then show "sabs h' Q = sabs h Q"
    by (simp add: sabs_def)
  have pm: "map (\<lambda>x. price_of h' (fst x)) Q = map (\<lambda>x. price_of h (fst x)) Q"
    using assms(1) by (auto intro: price_frame)
  show "side_ok h' buy Q = side_ok h buy Q"
    unfolding side_ok_def pm using f(1) by blast
qed

text \<open>An order belongs to one level only: it points back to it.\<close>

lemma level_ok_limit: "level_ok h buy x \<Longrightarrow> q \<in> set (snd x) \<Longrightarrow> \<exists>y. oheap h q = Some y \<and> oLimit y = Some (fst x)"
  unfolding level_ok_def is_level_def by (blast dest: chain_dom)

lemma prio_priority: "price_priority (prio buy)"
  by (simp add: prio_def bid.price_priority_axioms ask.price_priority_axioms)

lemma side_ok_distinct: "side_ok h buy Q \<Longrightarrow> distinct (map fst Q)"
  using price_priority.sorted_distinct [OF prio_priority, of buy "map (\<lambda>x. price_of h (fst x)) Q"]
  by (auto simp: side_ok_def distinct_map inj_on_def)

lemma side_ok_disjoint: "side_ok h buy (x # Q) \<Longrightarrow> set (snd x) \<inter> oset Q = {}"
proof -
  assume a: "side_ok h buy (x # Q)"
  have "q \<notin> set (snd y)" if "q \<in> set (snd x)" "y \<in> set Q" for q y
  proof
    assume "q \<in> set (snd y)"
    with a that have "fst x = fst y"
      using level_ok_limit [of h buy x q] level_ok_limit [of h buy y q] by (auto simp: side_ok_def)
    with that side_ok_distinct [OF a] show False by auto
  qed
  then show ?thesis by (auto simp: oset_def)
qed

lemma side_ok_tl: "side_ok h buy (x # Q) \<Longrightarrow> side_ok h buy Q"
  by (simp add: side_ok_def)

lemma side_ok_live: "side_ok h buy Q \<Longrightarrow> live_qs (sabs h Q)"
proof -
  assume a: "side_ok h buy Q"
  have "0 < rem_at (oheap h) p" if "y \<in> set Q" "p \<in> set (snd y)" for y p
    using a that resting_okD [of "oheap h" buy _ p] by (auto simp: side_ok_def level_ok_def)
  then show ?thesis
    using a by (auto simp: live_qs_def sabs_def qabs_def side_ok_def level_ok_def)
qed


section \<open>The outer loop\<close>

lemma limits_simps [simp]:
  "limits_of w (set_limits w ls s) = ls"
  "w \<noteq> v \<Longrightarrow> limits_of w (set_limits v ls s) = limits_of w s"
  "limits_of w (s\<lparr>oheap := oh\<rparr>) = limits_of w s" "limits_of w (s\<lparr>lheap := lh\<rparr>) = limits_of w s"
  "limits_of w (s\<lparr>orders := om\<rparr>) = limits_of w s"
  "oheap (set_limits w ls s) = oheap s" "lheap (set_limits w ls s) = lheap s"
  "onext (set_limits w ls s) = onext s" "lnext (set_limits w ls s) = lnext s"
  "orders (set_limits w ls s) = orders s" "set_limits w ls' (set_limits w ls s) = set_limits w ls' s"
  by (cases w; cases v; simp add: limits_of_def set_limits_def)+

lemma set_limits_self [simp]: "set_limits w (limits_of w s) s = s"
  by (cases w) (simp_all add: limits_of_def set_limits_def)

lemma set_limits_order [simp]:
  "(set_limits w ls s)\<lparr>oheap := oh, lheap := lh, orders := om\<rparr> = set_limits w ls (s\<lparr>oheap := oh, lheap := lh, orders := om\<rparr>)"
  by (cases w) (simp_all add: set_limits_def)

text \<open>The effect of matching taker \<open>p\<close> against the levels \<open>Q\<close> of slice \<open>w\<close>.\<close>

definition sweep_upd :: "orderbook \<Rightarrow> oref \<Rightarrow> slice \<Rightarrow> level list \<Rightarrow> orderbook \<Rightarrow> bool" where
  "sweep_upd s p w Q s' \<longleftrightarrow> (\<exists>oh lh om.
     s' = set_limits w (limits_of w s') (s\<lparr>oheap := oh, lheap := lh, orders := om\<rparr>) \<and>
     dom oh = dom (oheap s) \<and> dom lh = dom (lheap s) \<and> (\<forall>z. id_at oh z = id_at (oheap s) z) \<and>
     (\<forall>z. z \<notin> insert p (oset Q) \<longrightarrow> oh z = oheap s z) \<and> (\<forall>l. l \<notin> fst ` set Q \<longrightarrow> lh l = lheap s l) \<and>
     (\<forall>l. price_of s' l = price_of s l))"

lemma sweep_updI:
  "s' = set_limits w ls (s\<lparr>oheap := oh, lheap := lh, orders := om\<rparr>) \<Longrightarrow> dom oh = dom (oheap s) \<Longrightarrow>
   dom lh = dom (lheap s) \<Longrightarrow> (\<And>z. id_at oh z = id_at (oheap s) z) \<Longrightarrow>
   (\<And>z. z \<notin> insert p (oset Q) \<Longrightarrow> oh z = oheap s z) \<Longrightarrow> (\<And>l. l \<notin> fst ` set Q \<Longrightarrow> lh l = lheap s l) \<Longrightarrow>
   (\<And>l. price_of s' l = price_of s l) \<Longrightarrow> sweep_upd s p w Q s'"
  unfolding sweep_upd_def by (intro exI [of _ oh] exI [of _ lh] exI [of _ om]) simp

lemma sweep_upd_refl: "sweep_upd s p w Q s"
  by (rule sweep_updI [where oh = "oheap s" and lh = "lheap s" and om = "orders s" and ls = "limits_of w s"]) simp_all

lemma sweep_upd_trans:
  assumes "sweep_upd s p w Q s'" "sweep_upd s' p w Q' s''" "oset Q' \<subseteq> oset Q" "set Q' \<subseteq> set Q"
  shows "sweep_upd s p w Q s''"
proof -
  from assms(1) obtain oh lh om where 1: "s' = set_limits w (limits_of w s') (s\<lparr>oheap := oh, lheap := lh, orders := om\<rparr>)"
     "dom oh = dom (oheap s)" "dom lh = dom (lheap s)" "\<And>z. id_at oh z = id_at (oheap s) z"
     "\<And>z. z \<notin> insert p (oset Q) \<Longrightarrow> oh z = oheap s z" "\<And>l. l \<notin> fst ` set Q \<Longrightarrow> lh l = lheap s l"
     "\<And>l. price_of s' l = price_of s l" unfolding sweep_upd_def by blast
  from assms(2) obtain oh' lh' om' where 2: "s'' = set_limits w (limits_of w s'') (s'\<lparr>oheap := oh', lheap := lh', orders := om'\<rparr>)"
     "dom oh' = dom (oheap s')" "dom lh' = dom (lheap s')" "\<And>z. id_at oh' z = id_at (oheap s') z"
     "\<And>z. z \<notin> insert p (oset Q') \<Longrightarrow> oh' z = oheap s' z" "\<And>l. l \<notin> fst ` set Q' \<Longrightarrow> lh' l = lheap s' l"
     "\<And>l. price_of s'' l = price_of s' l" unfolding sweep_upd_def by blast
  have h: "oheap s' = oh" "lheap s' = lh" by (subst 1(1); simp)+
  have "s'\<lparr>oheap := oh', lheap := lh', orders := om'\<rparr> = set_limits w (limits_of w s') (s\<lparr>oheap := oh', lheap := lh', orders := om'\<rparr>)"
    by (subst 1(1)) simp
  with 2(1) have e: "s'' = set_limits w (limits_of w s'') (s\<lparr>oheap := oh', lheap := lh', orders := om'\<rparr>)"
    by (metis limits_simps(11))
  have "oh' z = oheap s z" if "z \<notin> insert p (oset Q)" for z
    using 1(5) [OF that] 2(5) [of z] that assms(3) h by auto
  moreover have "lh' l = lheap s l" if "l \<notin> fst ` set Q" for l
    using 1(6) [OF that] 2(6) [of l] that assms(4) h by auto
  ultimately show ?thesis
    using 1 2 h by (intro sweep_updI [OF e]) simp_all
qed

lemma match_upd_sweep:
  assumes "match_upd s p l (set ps) s'" "(l, ps) \<in> set Q"
  shows "sweep_upd s p w Q (set_limits w ls s')"
proof -
  from assms(1) obtain oh lim0 lim om where 1: "s' = s\<lparr>oheap := oh, lheap := (lheap s)(l \<mapsto> lim), orders := om\<rparr>"
    "lheap s l = Some lim0" "lPrice lim = lPrice lim0" "dom oh = dom (oheap s)"
    "\<And>z. id_at oh z = id_at (oheap s) z" "\<And>z. z \<notin> insert p (set ps) \<Longrightarrow> oh z = oheap s z"
    unfolding match_upd_def by blast
  have sub: "set ps \<subseteq> oset Q" "l \<in> fst ` set Q"
    using assms(2) by (force simp: oset_def)+
  have "oh z = oheap s z" if "z \<notin> insert p (oset Q)" for z
    using 1(6) [of z] sub that by auto
  with 1(1-5) sub(2) show ?thesis
    by (intro sweep_updI [where oh = oh and lh = "(lheap s)(l \<mapsto> lim)" and om = om and ls = ls])
      (auto simp: price_of_def)
qed


lemma no_cross_filled: "filled_more t t' \<Longrightarrow> no_cross t' = no_cross t"
  by (simp add: fun_eq_iff no_cross_def filled_more_fields)

lemma is_level_vol0:
  assumes "is_level s l ps" "\<forall>q \<in> set ps. resting_ok (oheap s) buy pr q" "fits64 (vol (oheap s) ps)" "lheap s l = Some lim"
  shows "lTotalVolume lim = 0 \<longleftrightarrow> ps = []"
proof -
  have "lTotalVolume lim = of_nat (vol (oheap s) ps)"
    using assms(1,4) by (auto simp: is_level_def)
  moreover have "vol (oheap s) ps = 0 \<longleftrightarrow> ps = []"
    using assms(2) by (induction ps) (auto dest: resting_okD)
  ultimately show ?thesis
    using assms(3) of_nat_u64_eq_0 by simp
qed

lemma match_upd_frame:
  assumes ok: "side_ok s buy ((l, ps) # Q)" and u: "match_upd s p l (set ps) s1" and p: "p \<notin> oset Q"
  shows "side_ok s1 buy Q" "sabs s1 Q = sabs s Q" "limits_of w s1 = limits_of w s"
    "id_at (oheap s1) z = id_at (oheap s) z"
proof -
  from u obtain oh lim0 lim om where 1: "s1 = s\<lparr>oheap := oh, lheap := (lheap s)(l \<mapsto> lim), orders := om\<rparr>"
    "\<And>z. id_at oh z = id_at (oheap s) z" "\<And>z. z \<notin> insert p (set ps) \<Longrightarrow> oh z = oheap s z"
    unfolding match_upd_def by blast
  have "lheap s1 (fst y) = lheap s (fst y)" if "y \<in> set Q" for y
    using side_ok_distinct [OF ok] that 1(1) by auto
  moreover have "oheap s1 q = oheap s q" if "q \<in> oset Q" for q
    using side_ok_disjoint [OF ok] that p 1(1) 1(3) [of q] by auto
  ultimately show "side_ok s1 buy Q" "sabs s1 Q = sabs s Q"
    using side_ok_frame [of Q s1 s] side_ok_tl [OF ok] by blast+
  show "limits_of w s1 = limits_of w s" "id_at (oheap s1) z = id_at (oheap s) z"
    using 1(1,2) by simp_all
qed

text \<open>What matching taker \<open>p\<close> against the levels \<open>Q\<close> of slice \<open>w\<close> does: \<open>Q'\<close> is what is left of them.\<close>

definition side_matched ::
  "bool \<Rightarrow> oref \<Rightarrow> slice \<Rightarrow> level list \<Rightarrow> order \<Rightarrow> orderbook \<Rightarrow> level list \<Rightarrow> order \<Rightarrow> trade list \<Rightarrow> orderbook \<Rightarrow> bool" where
  "side_matched buy p w Q t s Q' t' ts s' \<longleftrightarrow> limits_of w s' = map fst Q' \<and>
     side_ok s' buy Q' \<and> sweep_upd s p w Q s' \<and> oset Q' \<subseteq> oset Q \<and> fst ` set Q' \<subseteq> fst ` set Q \<and>
     oheap s' p = Some t' \<and> filled_more t t' \<and>
     sweep (\<lambda>pr. \<not> no_cross t pr) (unat (RemainingQty t)) (sabs s Q) = (unat (RemainingQty t'), sabs s' Q', map abs_fill ts) \<and>
     (\<forall>z \<in> set ts. TakerOrderID z = oID t) \<and>
     orders s' = orders s |` (- id_at (oheap s) ` (oset Q - oset Q'))"

lemma side_matchedD:
  assumes "side_matched buy p w Q t s Q' t' ts s'"
  shows "limits_of w s' = map fst Q'" "side_ok s' buy Q'" "sweep_upd s p w Q s'" "oset Q' \<subseteq> oset Q" "fst ` set Q' \<subseteq> fst ` set Q"
    "oheap s' p = Some t'" "filled_more t t'"
    "sweep (\<lambda>pr. \<not> no_cross t pr) (unat (RemainingQty t)) (sabs s Q) = (unat (RemainingQty t'), sabs s' Q', map abs_fill ts)"
    "\<forall>z \<in> set ts. TakerOrderID z = oID t" "orders s' = orders s |` (- id_at (oheap s) ` (oset Q - oset Q'))"
  using assms unfolding side_matched_def by blast+

lemma side_matched_refl:
  assumes "limits_of w s = map fst Q" "side_ok s buy Q" "oheap s p = Some t" "oFilledQty t \<le> oQuantity t"
    and "Q = [] \<or> \<not> (0 < RemainingQty t \<and> \<not> no_cross t (price_of s (fst (hd Q))))"
  shows "side_matched buy p w Q t s Q t [] s"
proof -
  have "sweep (\<lambda>pr. \<not> no_cross t pr) (unat (RemainingQty t)) (sabs s Q) = (unat (RemainingQty t), sabs s Q, [])"
    using assms(5) by (cases Q) (auto simp: labs_def word_gt_0)
  then show ?thesis using assms by (simp add: side_matched_def sweep_upd_refl filled_more_def)
qed

text \<open>The first level is used up, and matching goes on with the others.\<close>

lemma side_matched_next:
  assumes ok: "side_ok s buy ((l, ps) # Q)" and p: "p \<notin> oset Q"
    and c: "0 < RemainingQty t" "\<not> no_cross t (price_of s l)"
    and m: "level_matched buy (price_of s l) p l ps t s [] t1 ts1 s1"
    and ih: "side_matched buy p w Q t1 (set_limits w (map fst Q) s1) Q' t' ts s'"
  shows "side_matched buy p w ((l, ps) # Q) t s Q' t' (ts1 @ ts) s'"
proof -
  let ?s2 = "set_limits w (map fst Q) s1"
  note l = level_matchedD [OF m] and i = side_matchedD [OF ih]
  note fr = match_upd_frame [OF ok l(4) p]
  have "sabs ?s2 Q = sabs s Q" using side_ok_frame(2) [of Q ?s2 s1] fr(2) by simp
  then have "sweep (\<lambda>pr. \<not> no_cross t pr) (unat (RemainingQty t)) (sabs s ((l, ps) # Q))
      = (unat (RemainingQty t'), sabs s' Q', map abs_fill (ts1 @ ts))"
    using i(8) l(7) c by (simp add: labs_def no_cross_filled [OF l(6)] word_gt_0 unat_eq_zero)
  moreover have "orders s' = orders s |` (- id_at (oheap s) ` (oset ((l, ps) # Q) - oset Q'))"
  proof -
    have "oset ((l, ps) # Q) - oset Q' = set ps \<union> (oset Q - oset Q')" using side_ok_disjoint [OF ok] i(4) by auto
    then show ?thesis using i(10) l(9) fr(4) by (simp add: image_Un)
  qed
  moreover have "sweep_upd s p w ((l, ps) # Q) s'"
    using sweep_upd_trans [OF match_upd_sweep [OF l(4), of "(l, ps) # Q"] i(3)] by auto
  ultimately show ?thesis
    using i l(8) filled_more_trans [OF l(6) i(7)] filled_more_fields [OF l(6)] by (auto simp: side_matched_def)
qed

text \<open>The taker is filled within the first level.\<close>

lemma side_matched_stop:
  assumes ok: "side_ok s buy ((l, ps) # Q)" and p: "p \<notin> oset Q" and w: "limits_of w s = l # map fst Q"
    and c: "0 < RemainingQty t" "\<not> no_cross t (price_of s l)"
    and m: "level_matched buy (price_of s l) p l ps t s ps1 t1 ts1 s1" "ps1 \<noteq> []"
  shows "side_matched buy p w ((l, ps) # Q) t s ((l, ps1) # Q) t1 ts1 s1"
proof -
  note l = level_matchedD [OF m(1)]
  note fr = match_upd_frame [OF ok l(4) p]
  have pr1: "price_of s1 k = price_of s k" for k using match_upd_price [OF l(4)] by simp
  have "fits64 (vol (oheap s1) ps1)"
    using fill_queue_conserves [OF l(7)] ok by (auto simp: side_ok_def level_ok_def intro: fits64_mono)
  then have "level_ok s1 buy (l, ps1)" using l(1,3) m(2) pr1 by (simp add: level_ok_def)
  then have "side_ok s1 buy ((l, ps1) # Q)" using fr(1) ok pr1 by (simp add: side_ok_def)
  moreover have "sweep (\<lambda>pr. \<not> no_cross t pr) (unat (RemainingQty t)) (sabs s ((l, ps) # Q))
      = (unat (RemainingQty t1), sabs s1 ((l, ps1) # Q), map abs_fill ts1)"
    using l(7) m(2) c fr(2) pr1 by (simp add: labs_def word_gt_0 unat_eq_zero)
  moreover have "set ps - set ps1 = oset ((l, ps) # Q) - oset ((l, ps1) # Q)" using side_ok_disjoint [OF ok] by auto
  then have "orders s1 = orders s |` (- id_at (oheap s) ` (oset ((l, ps) # Q) - oset ((l, ps1) # Q)))" using l(9) by simp
  moreover have "sweep_upd s p w ((l, ps) # Q) s1"
    using match_upd_sweep [OF l(4), of "(l, ps) # Q" w "limits_of w s1"] by simp
  ultimately show ?thesis using l(5,6,8) set_mono_suffix [OF l(2)] w fr(3) [of w] by (auto simp: side_matched_def)
qed

text \<open>One round of the loop: the first level is matched and dropped if nothing is left of it.\<close>

lemma match_loop_round:
  assumes ok: "side_ok s buy ((l, ps) # Q)" and p: "p \<notin> oset Q" "oheap s p = Some t" and w: "limits_of w s = l # map fst Q"
    and c: "0 < RemainingQty t" "\<not> no_cross t (price_of s l)"
    and m: "match_level p l s trades = Some (s1, trades @ ts1)" "level_matched buy (price_of s l) p l ps t s ps1 t1 ts1 s1"
  shows "match_loop p w s trades = match_loop p w (if ps1 = [] then set_limits w (map fst Q) s1 else s1) (trades @ ts1)"
    "limits_of w s1 = l # map fst Q"
proof -
  note l = level_matchedD [OF m(2)]
  have lok: "is_level s l ps" "fits64 (vol (oheap s) ps)" using ok by (auto simp: side_ok_def level_ok_def)
  from lok(1) obtain lim where lim: "lheap s l = Some lim" by (rule is_levelE)
  from l(1) obtain lim1 where lim1: "lheap s1 l = Some lim1" by (rule is_levelE)
  have "fits64 (vol (oheap s1) ps1)" using fill_queue_conserves [OF l(7)] lok(2) by (auto intro: fits64_mono)
  then have v0: "lTotalVolume lim1 = 0 \<longleftrightarrow> ps1 = []" using is_level_vol0 [OF l(1,3) _ lim1] by simp
  show lims: "limits_of w s1 = l # map fst Q" using match_upd_frame(3) [OF ok l(4) p(1)] w by simp
  show "match_loop p w s trades = match_loop p w (if ps1 = [] then set_limits w (map fst Q) s1 else s1) (trades @ ts1)"
    using w p(2) lim c m(1) lim1 v0 lims by (simp add: match_loop.simps [of p w s] price_of_def)
qed

lemma match_loop_ok:
  assumes "limits_of w s = map fst Q" "side_ok s buy Q"
    and "oheap s p = Some t" "p \<notin> oset Q" "oFilledQty t \<le> oQuantity t"
  shows "\<exists>s' Q' t' ts. match_loop p w s trades = Some (s', trades @ ts) \<and> side_matched buy p w Q t s Q' t' ts s'"
  using assms
proof (induction Q arbitrary: s t trades)
  case Nil
  then have "match_loop p w s trades = Some (s, trades)" by (simp add: match_loop.simps [of p w s])
  then show ?case using side_matched_refl [OF Nil(1,2,3,5)] by fastforce
next
  case (Cons x Q)
  obtain l ps where x: "x = (l, ps)" by fastforce
  have lok: "is_level s l ps" "\<forall>q \<in> set ps. resting_ok (oheap s) buy (price_of s l) q" "p \<notin> set ps" "p \<notin> oset Q"
    "limits_of w s = l # map fst Q"
    using Cons.prems x by (auto simp: side_ok_def level_ok_def)
  show ?case
  proof (cases "0 < RemainingQty t \<and> \<not> no_cross t (price_of s l)")
    case False
    obtain lim where "lheap s l = Some lim" using lok(1) by (rule is_levelE)
    then have "match_loop p w s trades = Some (s, trades)"
      using False Cons.prems(3) lok(5) by (auto simp: match_loop.simps [of p w s] price_of_def)
    then show ?thesis using side_matched_refl [OF Cons.prems(1,2,3,5)] False x by fastforce
  next
    case True
    then have c: "0 < RemainingQty t" "\<not> no_cross t (price_of s l)" by simp_all
    obtain s1 ps1 t1 ts1 where m: "match_level p l s trades = Some (s1, trades @ ts1)"
      "level_matched buy (price_of s l) p l ps t s ps1 t1 ts1 s1"
      using match_level_ok [OF lok(1,2) Cons.prems(3) lok(3) Cons.prems(5), of trades] by blast
    note l = level_matchedD [OF m(2)] and ok = Cons.prems(2) [unfolded x]
    note step = match_loop_round [OF ok lok(4) Cons.prems(3) lok(5) c m]
    show ?thesis
    proof (cases "ps1 = []")
      case empty: True
      let ?s2 = "set_limits w (map fst Q) s1"
      have ok2: "side_ok ?s2 buy Q" "oheap ?s2 p = Some t1" "oFilledQty t1 \<le> oQuantity t1"
        using side_ok_frame(1) [of Q ?s2 s1] match_upd_frame(1) [OF ok l(4) lok(4)] l(5) filled_more_fields [OF l(6)] by simp_all
      obtain s' Q' t' ts where "match_loop p w ?s2 (trades @ ts1) = Some (s', (trades @ ts1) @ ts)"
        "side_matched buy p w Q t1 ?s2 Q' t' ts s'"
        using Cons.IH [OF limits_simps(1) ok2(1,2) lok(4) ok2(3), of "trades @ ts1"] by blast
      then show ?thesis using step(1) empty side_matched_next [OF ok lok(4) c m(2) [unfolded empty]] x by fastforce
    next
      case nonempty: False
      then have "RemainingQty t1 = 0" using fill_queue_exhausts [OF l(7)] by (simp add: word_unat_eq_iff)
      then have "match_loop p w s1 (trades @ ts1) = Some (s1, trades @ ts1)"
        using step(2) l(5) by (simp add: match_loop.simps [of p w s1])
      then show ?thesis using step(1) nonempty side_matched_stop [OF ok lok(4,5) c m(2) nonempty] x by fastforce
    qed
  qed
qed

end
