(* ===== verification/OrderBook_Levels.thy ===== *)
theory OrderBook_Levels
  imports OrderBook_Sweep
begin

text \<open>
  The sorted slices of levels: the binary search finds the place of a price, \<open>addLimitOrder\<close>
  rests an order exactly as the specification's \<open>join_level\<close>, and
  \<open>removeLimitLevel\<close> takes out the level of a price.
\<close>

section \<open>Finding a level\<close>

text \<open>What the search relies on: the levels exist and their prices are in order.\<close>

definition sorted_levels :: "'a heap_scheme \<Rightarrow> bool \<Rightarrow> level list \<Rightarrow> bool" where
  "sorted_levels h buy Q \<longleftrightarrow> (\<forall>x \<in> set Q. \<exists>lim. lheap h (fst x) = Some lim) \<and>
     sorted_wrt (prio buy) (map (\<lambda>x. price_of h (fst x)) Q)"

lemma side_ok_dom: "side_ok s buy Q \<Longrightarrow> x \<in> set Q \<Longrightarrow> \<exists>lim. lheap s (fst x) = Some lim"
  unfolding side_ok_def level_ok_def is_level_def by blast

lemma side_ok_sorted_levels: "side_ok s buy Q \<Longrightarrow> sorted_levels s buy Q"
  using side_ok_dom [of s buy Q] by (auto simp: sorted_levels_def side_ok_def)

lemma price_at_ok:
  assumes "limits_of w s = map fst Q" "sorted_levels s buy Q" "i < length Q"
  shows "price_at w s i = Some (price_of s (fst (Q ! i)))"
proof -
  have "\<exists>lim. lheap s (fst (Q ! i)) = Some lim" using assms by (simp add: sorted_levels_def)
  then show ?thesis using assms by (auto simp: price_at_def price_of_def)
qed

lemma prio_search: "(if buy then q \<le> pr else pr \<le> q) \<longleftrightarrow> \<not> prio buy q pr"
  by (auto simp: prio_def better_bid_def better_ask_def)

text \<open>\<open>sort.Search\<close> stops after the levels that are better than the given price.\<close>

lemma find_level_ok:
  assumes lims: "limits_of w s = map fst (P @ R)" and ok: "sorted_levels s buy (P @ R)"
    and P: "\<forall>x \<in> set P. prio buy (price_of s (fst x)) pr"
    and R: "R \<noteq> [] \<Longrightarrow> \<not> prio buy (price_of s (fst (hd R))) pr"
  shows "find_level w pr buy s = Some (length P)"
proof -
  have "(price_at w s m \<bind> (\<lambda>q. Some (if buy then q \<le> pr else pr \<le> q))) = Some (length P \<le> m)"
    if m: "m < length (P @ R)" for m
  proof (cases "m < length P")
    case True
    then show ?thesis
      using price_at_ok [OF lims ok m] P by (simp add: prio_search nth_append)
  next
    case False
    then obtain r R' where r: "R = r # R'" and k: "m - length P < length R"
      using m by (cases R) auto
    have "\<not> prio buy (price_of s (fst (R ! (m - length P)))) pr"
    proof (cases "m - length P")
      case 0
      then show ?thesis using R r by simp
    next
      case (Suc k')
      then have "R ! (m - length P) \<in> set R'" using r k by simp
      then have "prio buy (price_of s (fst r)) (price_of s (fst (R ! (m - length P))))"
        using ok r by (auto simp: sorted_levels_def sorted_wrt_append)
      then show ?thesis
        using R r price_priority.lt_trans [OF prio_priority] by (metis list.sel(1) list.simps(3))
    qed
    then show ?thesis
      using False price_at_ok [OF lims ok m] by (simp add: prio_search nth_append)
  qed
  then have "Search (length (limits_of w s)) (\<lambda>i. price_at w s i \<bind> (\<lambda>q. Some (if buy then q \<le> pr else q \<ge> pr)))
      = Some (length P)"
    using lims by (intro Search_threshold) simp_all
  then show ?thesis by (simp add: find_level_def)
qed

lemma level_exists_ok:
  assumes "limits_of w s = map fst (P @ R)" "sorted_levels s buy (P @ R)"
  shows "level_exists w pr (length P) s = Some (R \<noteq> [] \<and> price_of s (fst (hd R)) = pr)"
  using price_at_ok [OF assms, of "length P"] assms(1) by (cases R) (auto simp: level_exists_def)

text \<open>Every side splits at a price into the better levels and the rest.\<close>

lemma side_split:
  obtains P R where "Q = P @ R" "\<forall>x \<in> set P. prio buy (price_of s (fst x)) pr"
    "R \<noteq> [] \<longrightarrow> \<not> prio buy (price_of s (fst (hd R))) pr"
proof -
  let ?f = "\<lambda>x. prio buy (price_of s (fst x)) pr"
  have "Q = takeWhile ?f Q @ dropWhile ?f Q" by simp
  moreover have "\<forall>x \<in> set (takeWhile ?f Q). ?f x" by (auto dest: set_takeWhileD)
  moreover have "dropWhile ?f Q \<noteq> [] \<longrightarrow> \<not> ?f (hd (dropWhile ?f Q))" using hd_dropWhile [of ?f Q] by blast
  ultimately show thesis by (rule that)
qed


section \<open>What an operation leaves alone\<close>

text \<open>Outside the orders \<open>S\<close> and the levels \<open>L\<close>, and in every identifier, the heaps agree.\<close>

definition book_frame :: "oref set \<Rightarrow> lref set \<Rightarrow> orderbook \<Rightarrow> orderbook \<Rightarrow> bool" where
  "book_frame S L s s' \<longleftrightarrow> (\<forall>z. z \<notin> S \<longrightarrow> oheap s' z = oheap s z) \<and> (\<forall>l. l \<notin> L \<longrightarrow> lheap s' l = lheap s l) \<and>
     dom (oheap s') = dom (oheap s) \<and> (\<forall>z. id_at (oheap s') z = id_at (oheap s) z) \<and> onext s' = onext s"

lemma book_frame_trans:
  "book_frame S L s s' \<Longrightarrow> book_frame S' L' s' s'' \<Longrightarrow> S \<union> S' \<subseteq> T \<Longrightarrow> L \<union> L' \<subseteq> M \<Longrightarrow> book_frame T M s s''"
proof -
  assume a: "book_frame S L s s'" "book_frame S' L' s' s''" "S \<union> S' \<subseteq> T" "L \<union> L' \<subseteq> M"
  have "z \<notin> S \<and> z \<notin> S'" if "z \<notin> T" for z using a(3) that by auto
  moreover have "l \<notin> L \<and> l \<notin> L'" if "l \<notin> M" for l using a(4) that by auto
  ultimately show ?thesis using a(1,2) by (simp add: book_frame_def)
qed

lemma book_frame_refl: "book_frame S L s s"
  by (simp add: book_frame_def)

lemma book_frame_mono: "book_frame S L s s' \<Longrightarrow> S \<subseteq> T \<Longrightarrow> L \<subseteq> M \<Longrightarrow> book_frame T M s s'"
  by (rule book_frame_trans [OF _ book_frame_refl [of "{}" "{}"]]) auto

lemma book_frame_simps [simp]: "book_frame S L s (s'\<lparr>orders := om\<rparr>) = book_frame S L s s'"
  "book_frame S L s (set_limits w ls s') = book_frame S L s s'"
  by (simp_all add: book_frame_def)

lemma side_ok_book_frame:
  assumes "book_frame S L s s'" "side_ok s buy Q" "S \<inter> oset Q = {}" "L \<inter> fst ` set Q = {}"
  shows "side_ok s' buy Q" "sabs s' Q = sabs s Q"
proof -
  have "lheap s' (fst x) = lheap s (fst x)" if "x \<in> set Q" for x
    using assms(1,4) that by (auto simp: book_frame_def)
  moreover have "oheap s' q = oheap s q" if "q \<in> oset Q" for q
    using assms(1,3) that by (auto simp: book_frame_def)
  ultimately show "side_ok s' buy Q" "sabs s' Q = sabs s Q"
    using side_ok_frame [of Q s' s] assms(2) by blast+
qed

lemma level_upd_book:
  assumes "level_upd s l S s'"
  shows "book_frame S {l} s s'" "limits_of v s' = limits_of v s" "orders s' = orders s" "lnext s' = lnext s"
    "price_of s' k = price_of s k" "dom (lheap s') = dom (lheap s)"
    "map_option odata (oheap s' z) = map_option odata (oheap s z)"
proof -
  from assms obtain oh lim0 lim where u: "s' = s\<lparr>oheap := oh, lheap := (lheap s)(l \<mapsto> lim)\<rparr>"
     "lheap s l = Some lim0" "lPrice lim = lPrice lim0" "same_data (oheap s) oh" "\<And>q. q \<notin> S \<Longrightarrow> oh q = oheap s q"
    unfolding level_upd_def by blast
  have "id_at oh z = id_at (oheap s) z" for z
    by (rule id_at_odata) (rule same_data_at [OF u(4)])
  then show "book_frame S {l} s s'"
    using u same_data_dom [OF u(4)] by (simp add: book_frame_def)
  show "limits_of v s' = limits_of v s" "orders s' = orders s" "lnext s' = lnext s"
    "price_of s' k = price_of s k" "dom (lheap s') = dom (lheap s)"
    "map_option odata (oheap s' z) = map_option odata (oheap s z)"
    using u same_data_at [OF u(4)] by (auto simp: price_of_def)
qed

lemma sweep_upd_book:
  assumes "sweep_upd s p w Q s'"
  shows "book_frame (insert p (oset Q)) (fst ` set Q) s s'" "v \<noteq> w \<Longrightarrow> limits_of v s' = limits_of v s"
    "lnext s' = lnext s" "dom (lheap s') = dom (lheap s)"
proof -
  from assms obtain oh lh om where 1: "s' = set_limits w (limits_of w s') (s\<lparr>oheap := oh, lheap := lh, orders := om\<rparr>)"
     "dom oh = dom (oheap s)" "dom lh = dom (lheap s)" "\<And>z. id_at oh z = id_at (oheap s) z"
     "\<And>z. z \<notin> insert p (oset Q) \<Longrightarrow> oh z = oheap s z" "\<And>l. l \<notin> fst ` set Q \<Longrightarrow> lh l = lheap s l"
    unfolding sweep_upd_def by blast
  have h: "oheap s' = oh" "lheap s' = lh" "onext s' = onext s" "lnext s' = lnext s" by (subst 1(1); simp)+
  show "book_frame (insert p (oset Q)) (fst ` set Q) s s'"
    unfolding book_frame_def using 1(2-6) h by simp
  show "lnext s' = lnext s" "dom (lheap s') = dom (lheap s)"
    using h 1 by simp_all
  show "limits_of v s' = limits_of v s" if "v \<noteq> w"
    using that by (subst 1(1)) simp
qed

section \<open>Resting an order\<close>

lemma add_to_level:
  fixes s :: orderbook
  assumes lv: "is_level s l ps" and sp: "\<forall>q \<in> set ps. resting_ok (oheap s) buy (price_of s l) q"
    and rest: "\<forall>x \<in> set (P @ R). level_ok s buy x"
    and srt: "sorted_wrt (prio buy) (map (\<lambda>x. price_of s (fst x)) (P @ (l, ps) # R))"
    and p: "oheap s p = Some x" "oNext x = None" "oPrev x = None" "oLimit x = None"
    and px: "resting_ok (oheap s) buy (price_of s l) p"
    and fits: "fits64 (vol (oheap s) ps + unat (RemainingQty x))"
  shows "\<exists>s'. AddOrder l p s = Some s' \<and> side_ok s' buy (P @ (l, ps @ [p]) # R) \<and>
     sabs s' (P @ (l, ps @ [p]) # R) =
       sabs s P @ (price_of s l, qabs (oheap s) ps @ [(oID x, unat (RemainingQty x))]) # sabs s R \<and>
     level_upd s l (insert p (set ps)) s'"
proof -
  have pn: "p \<notin> set ps" "p \<notin> oset (P @ R)"
  proof -
    show "p \<notin> set ps" using lv p(1,4) by (auto simp: is_level_def dest: chain_dom)
    show "p \<notin> oset (P @ R)" using rest p(1,4) level_ok_limit [of s buy _ p] by (fastforce simp: oset_def)
  qed
  obtain s' where s': "AddOrder l p s = Some s'" "is_level s' l (ps @ [p])" "level_upd s l (insert p (set ps)) s'"
    using AddOrder_ok [OF lv pn(1) p(1-3)] by blast
  note u = level_upd_book [OF s'(3)]
  have ldist: "l \<notin> fst ` set (P @ R)"
    using price_priority.sorted_distinct [OF prio_priority srt] by auto
  have other: "level_ok s' buy y \<and> labs s' y = labs s y" if y: "y \<in> set (P @ R)" for y
  proof -
    have ly: "level_ok s buy y" and ne: "fst y \<noteq> l" using rest y ldist by auto
    have "q \<notin> insert p (set ps)" if q: "q \<in> set (snd y)" for q
      using level_ok_limit [OF ly q] p(1,4) ne chain_dom [of "oheap s" l None ps None q] lv by (auto simp: is_level_def)
    then show ?thesis
      using level_ok_frame [of s' y s] u(1) ly ne by (simp add: book_frame_def)
  qed
  have d: "vol (oheap s') (ps @ [p]) = vol (oheap s) (ps @ [p])" "qabs (oheap s') (ps @ [p]) = qabs (oheap s) (ps @ [p])"
  proof -
    show q: "qabs (oheap s') (ps @ [p]) = qabs (oheap s) (ps @ [p])"
      by (rule qabs_odata) (use u(7) in blast)
    show "vol (oheap s') (ps @ [p]) = vol (oheap s) (ps @ [p])"
      using q by (metis svol_qabs)
  qed
  have "resting_ok (oheap s') buy (price_of s' l) q" if "q \<in> set (ps @ [p])" for q
    using that sp px resting_ok_odata [of "oheap s'" q "oheap s" buy] u(5,7) by auto
  then have "level_ok s' buy (l, ps @ [p])"
    using s'(2) d(1) fits p(1) by (simp add: level_ok_def rem_at_def)
  then have ok: "side_ok s' buy (P @ (l, ps @ [p]) # R)"
    using other srt u(5) by (auto simp: side_ok_def sorted_wrt_append)
  have "sabs s' P = sabs s P" "sabs s' R = sabs s R"
    using other by (auto simp: sabs_def)
  then have "sabs s' (P @ (l, ps @ [p]) # R) =
       sabs s P @ (price_of s l, qabs (oheap s) ps @ [(oID x, unat (RemainingQty x))]) # sabs s R"
    using d(2) u(5) p(1) by (simp add: labs_def id_at_def rem_at_def)
  with s' ok show ?thesis by blast
qed

lemma vol_at_mem: "(pr, qs) \<in> set ls \<Longrightarrow> svol qs \<le> vol_at pr ls"
  unfolding vol_at_def by (induction ls) (auto intro: trans_le_add2)

lemma side_ok_orders [simp]:
  "side_ok (s\<lparr>orders := om\<rparr>) buy Q = side_ok s buy Q" "sabs (s\<lparr>orders := om\<rparr>) Q = sabs s Q"
  "side_ok (set_limits w ls s) buy Q = side_ok s buy Q" "sabs (set_limits w ls s) Q = sabs s Q"
  by (rule side_ok_frame; simp)+

lemma level_limits [simp]: "is_level (set_limits w ls s) l ps = is_level s l ps"
  "price_of (set_limits w ls s) l = price_of s l" "level_ok (set_limits w ls s) buy x = level_ok s buy x"
  by (simp_all add: is_level_def price_of_def level_ok_def)

text \<open>The level that \<open>addLimitOrder\<close> uses: the one found, or a new empty one at the same place.\<close>

lemma new_level_ok:
  assumes lims: "limits_of w s = map fst (P @ R)" and ok: "side_ok s buy (P @ R)"
    and P: "\<forall>y \<in> set P. prio buy (price_of s (fst y)) pr"
    and R: "R \<noteq> [] \<longrightarrow> \<not> prio buy (price_of s (fst (hd R))) pr \<and> price_of s (fst (hd R)) \<noteq> pr"
    and fresh: "dom (lheap s) \<subseteq> {..<lnext s}" and s1: "NewLimit pr s = (l, s1)"
  shows "l = lnext s" "is_level s1 l []" "price_of s1 l = pr" "\<forall>x \<in> set (P @ R). level_ok s1 buy x"
    "sabs s1 P = sabs s P" "sabs s1 R = sabs s R"
    "sorted_wrt (prio buy) (map (\<lambda>x. price_of s1 (fst x)) (P @ (l, []) # R))"
    "limits_of v s1 = limits_of v s" "orders s1 = orders s" "oheap s1 = oheap s" "book_frame {} {l} s s1"
    "dom (lheap s1) \<subseteq> {..<lnext s1}" "slice_insert 0 (length P) l (limits_of w s1) = map fst (P @ (l, []) # R)"
proof -
  show l: "l = lnext s" "is_level s1 l []" "price_of s1 l = pr" "orders s1 = orders s" "oheap s1 = oheap s"
    using s1 by (auto simp: NewLimit_def is_level_def price_of_def)
  have "dom (lheap s1) = insert (lnext s) (dom (lheap s))" "lnext s1 = Suc (lnext s)"
    using s1 by (auto simp: NewLimit_def)
  with fresh show "dom (lheap s1) \<subseteq> {..<lnext s1}" by (auto simp del: domIff)
  show f: "book_frame {} {l} s s1"
    using s1 by (auto simp: NewLimit_def book_frame_def)
  show lv: "limits_of v s1 = limits_of v s" for v
    using s1 by (cases v) (auto simp: NewLimit_def limits_of_def)
  have "lheap s (lnext s) = None" using fresh by (auto simp: dom_def)
  then have nl: "l \<notin> fst ` set (P @ R)"
    using side_ok_dom [OF ok] l(1) by force
  have ok1: "side_ok s1 buy (P @ R)" "sabs s1 (P @ R) = sabs s (P @ R)"
    using side_ok_book_frame [OF f ok] nl by auto
  then show "\<forall>x \<in> set (P @ R). level_ok s1 buy x" by (simp add: side_ok_def)
  have ps: "price_of s1 (fst y) = price_of s (fst y)" if "y \<in> set (P @ R)" for y
    using f nl that by (intro price_frame) (auto simp: book_frame_def)
  show "sabs s1 P = sabs s P" "sabs s1 R = sabs s R"
    using ok1(2) by (auto simp: append_eq_append_conv sabs_def)
  have "prio buy pr (price_of s (fst y))" if y: "y \<in> set R" for y
  proof -
    obtain r R' where r: "R = r # R'" using y by (cases R) auto
    have "prio buy pr (price_of s (fst r))"
      using R r price_priority.lt_total [OF prio_priority, of pr "price_of s (fst r)" buy] by auto
    moreover have "y = r \<or> prio buy (price_of s (fst r)) (price_of s (fst y))"
      using y r ok by (auto simp: side_ok_def sorted_wrt_append)
    ultimately show ?thesis using price_priority.lt_trans [OF prio_priority] by blast
  qed
  then show "sorted_wrt (prio buy) (map (\<lambda>x. price_of s1 (fst x)) (P @ (l, []) # R))"
    using ok1(1) P ps l(3) by (auto simp: side_ok_def sorted_wrt_append)
  show "slice_insert 0 (length P) l (limits_of w s1) = map fst (P @ (l, []) # R)"
    using slice_insert_split [of 0 "map fst P" l "map fst R"] lv lims by simp
qed

text \<open>What resting order \<open>p\<close>, now \<open>x\<close>, on the levels \<open>Q\<close> of slice \<open>w\<close> does.\<close>

definition order_rested ::
  "bool \<Rightarrow> oref \<Rightarrow> order \<Rightarrow> slice \<Rightarrow> level list \<Rightarrow> orderbook \<Rightarrow> level list \<Rightarrow> orderbook \<Rightarrow> bool" where
  "order_rested buy p x w Q s Q' s' \<longleftrightarrow> limits_of w s' = map fst Q' \<and> side_ok s' buy Q' \<and>
     sabs s' Q' = join_level (prio buy) (oPrice x) (oID x, unat (RemainingQty x)) (sabs s Q) \<and>
     oset Q' = insert p (oset Q) \<and> fst ` set Q' \<subseteq> insert (lnext s) (fst ` set Q) \<and>
     orders s' = (orders s)(oID x \<mapsto> p) \<and> book_frame (insert p (oset Q)) (insert (lnext s) (fst ` set Q)) s s' \<and>
     (\<forall>v. v \<noteq> w \<longrightarrow> limits_of v s' = limits_of v s) \<and> dom (lheap s') \<subseteq> {..<lnext s'}"

text \<open>The order joins a level of its price, the \<open>if\<close> branch of \<open>addLimitOrder\<close>.\<close>

lemma addLimitOrder_joins:
  assumes lims: "limits_of w s = map fst (P @ (l, ps) # R)" and ok: "side_ok s buy (P @ (l, ps) # R)"
    and p: "oheap s p = Some x" "oNext x = None" "oPrev x = None" "oLimit x = None"
    and px: "resting_ok (oheap s) buy (oPrice x) p"
    and fits: "fits64 (vol_at (oPrice x) (sabs s (P @ (l, ps) # R)) + unat (RemainingQty x))"
    and fresh: "dom (lheap s) \<subseteq> {..<lnext s}"
    and P: "\<forall>y \<in> set P. prio buy (price_of s (fst y)) (oPrice x)" and l: "price_of s l = oPrice x"
  shows "\<exists>s' Q'. addLimitOrder p w buy s = Some s' \<and> order_rested buy p x w (P @ (l, ps) # R) s Q' s'"
proof -
  let ?Q = "P @ (l, ps) # R" and ?o = "(oID x, unat (RemainingQty x))"
  note irr = price_priority.lt_irrefl [OF prio_priority, of buy "oPrice x"]
  have fl: "find_level w (oPrice x) buy s = Some (length P)"
    using find_level_ok [OF lims side_ok_sorted_levels [OF ok] P] l irr by simp
  note le = level_exists_ok [OF lims side_ok_sorted_levels [OF ok], of "oPrice x"]
  have lv: "is_level s l ps" "\<forall>q \<in> set ps. resting_ok (oheap s) buy (price_of s l) q"
    and rest: "\<forall>x \<in> set (P @ R). level_ok s buy x"
    and srt: "sorted_wrt (prio buy) (map (\<lambda>x. price_of s (fst x)) ?Q)"
    using ok by (auto simp: side_ok_def level_ok_def)
  have "vol (oheap s) ps \<le> vol_at (oPrice x) (sabs s ?Q)"
    using vol_at_mem [of "oPrice x" "qabs (oheap s) ps" "sabs s ?Q"] l by (simp add: labs_def)
  then have ft: "fits64 (vol (oheap s) ps + unat (RemainingQty x))"
    using fits by (auto intro: fits64_mono)
  obtain s' where s': "AddOrder l p s = Some s'" "side_ok s' buy (P @ (l, ps @ [p]) # R)"
    "sabs s' (P @ (l, ps @ [p]) # R) = sabs s P @ (price_of s l, qabs (oheap s) ps @ [?o]) # sabs s R"
    "level_upd s l (insert p (set ps)) s'"
    using add_to_level [OF lv rest srt p _ ft] px l by auto
  note u = level_upd_book [OF s'(4)]
  obtain x' where x': "oheap s' p = Some x'" "oID x' = oID x" using u(7) [of p] p(1) by (auto simp: odata_eq)
  let ?s = "s'\<lparr>orders := (orders s)(oID x \<mapsto> p)\<rparr>"
  have "addLimitOrder p w buy s = Some ?s"
    using p(1) fl le lims l s'(1) x' u(3) by (simp add: addLimitOrder_def nth_append)
  moreover have "join_level (prio buy) (oPrice x) ?o (sabs s ?Q) =
      sabs s P @ (price_of s l, qabs (oheap s) ps @ [?o]) # sabs s R"
    using price_priority.join_level_split [OF prio_priority, of "sabs s P" buy "oPrice x" "sabs s ((l, ps) # R)"] P l irr
    by (simp add: labs_def sabs_def)
  then have "sabs ?s (P @ (l, ps @ [p]) # R) = join_level (prio buy) (oPrice x) ?o (sabs s ?Q)"
    unfolding side_ok_orders s'(3) by simp
  moreover have "book_frame (insert p (oset ?Q)) (insert (lnext s) (fst ` set ?Q)) s ?s"
    by (auto intro!: book_frame_mono [OF u(1)])
  ultimately show ?thesis
    using s'(2) lims u fresh by (intro exI [of _ ?s] exI [of _ "P @ (l, ps @ [p]) # R"]) (auto simp: order_rested_def)
qed

text \<open>The order opens a level of its price between \<open>P\<close> and \<open>R\<close>, the \<open>else\<close> branch.\<close>

lemma addLimitOrder_opens:
  assumes lims: "limits_of w s = map fst (P @ R)" and ok: "side_ok s buy (P @ R)"
    and p: "oheap s p = Some x" "oNext x = None" "oPrev x = None" "oLimit x = None"
    and px: "resting_ok (oheap s) buy (oPrice x) p" and fresh: "dom (lheap s) \<subseteq> {..<lnext s}"
    and P: "\<forall>y \<in> set P. prio buy (price_of s (fst y)) (oPrice x)"
    and R: "R \<noteq> [] \<longrightarrow> \<not> prio buy (price_of s (fst (hd R))) (oPrice x) \<and> price_of s (fst (hd R)) \<noteq> oPrice x"
  shows "\<exists>s' Q'. addLimitOrder p w buy s = Some s' \<and> order_rested buy p x w (P @ R) s Q' s'"
proof -
  let ?o = "(oID x, unat (RemainingQty x))"
  have fl: "find_level w (oPrice x) buy s = Some (length P)"
    using find_level_ok [OF lims side_ok_sorted_levels [OF ok] P] R by blast
  have le: "level_exists w (oPrice x) (length P) s = Some False"
    using level_exists_ok [OF lims side_ok_sorted_levels [OF ok], of "oPrice x"] R by auto
  obtain l s1 where n: "NewLimit (oPrice x) s = (l, s1)" by fastforce
  note nl = new_level_ok [OF lims ok P R fresh n]
  let ?s1 = "set_limits w (map fst (P @ (l, []) # R)) s1"
  have lv: "is_level ?s1 l []" "\<forall>q \<in> set []. resting_ok (oheap ?s1) buy (price_of ?s1 l) q"
    "\<forall>x \<in> set (P @ R). level_ok ?s1 buy x"
    "sorted_wrt (prio buy) (map (\<lambda>x. price_of ?s1 (fst x)) (P @ (l, []) # R))"
    using nl(2,4,7) by simp_all
  have pp: "oheap ?s1 p = Some x" "resting_ok (oheap ?s1) buy (price_of ?s1 l) p"
     "fits64 (vol (oheap ?s1) [] + unat (RemainingQty x))"
    using p(1) px nl(3,10) by simp_all
  obtain s' where s': "AddOrder l p ?s1 = Some s'" "side_ok s' buy (P @ (l, [p]) # R)"
    "sabs s' (P @ (l, [p]) # R) = sabs s P @ (oPrice x, [?o]) # sabs s R" "level_upd ?s1 l (insert p (set [])) s'"
    using add_to_level [OF lv pp(1) p(2-4) pp(2,3)] nl(3,5,6) by auto
  note u = level_upd_book [OF s'(4)]
  obtain x' where x': "oheap s' p = Some x'" "oID x' = oID x" using u(7) [of p] pp(1) by (auto simp: odata_eq)
  let ?s = "s'\<lparr>orders := (orders s)(oID x \<mapsto> p)\<rparr>"
  have "addLimitOrder p w buy s = Some ?s"
    using p(1) fl le n nl(9,13) s'(1) x' u(3) by (simp add: addLimitOrder_def)
  moreover have "book_frame {} {l} s ?s1" using nl(11) by simp
  then have "book_frame (insert p (oset (P @ R))) (insert (lnext s) (fst ` set (P @ R))) s ?s"
    using nl(1) unfolding book_frame_simps by (intro book_frame_trans [OF _ u(1)]) auto
  moreover have "join_level (prio buy) (oPrice x) ?o (sabs s (P @ R)) = sabs s P @ (oPrice x, [?o]) # sabs s R"
    using price_priority.join_level_split [OF prio_priority, of "sabs s P" buy "oPrice x" "sabs s R"] P R
    by (auto simp: sabs_def hd_map)
  then have "sabs ?s (P @ (l, [p]) # R) = join_level (prio buy) (oPrice x) ?o (sabs s (P @ R))"
    unfolding side_ok_orders s'(3) by simp
  moreover have "limits_of v s' = limits_of v s" if "v \<noteq> w" for v
    using u(2) [of v] nl(8) that by simp
  ultimately show ?thesis
    using s'(2) u nl(1,12) by (intro exI [of _ ?s] exI [of _ "P @ (l, [p]) # R"]) (auto simp: order_rested_def)
qed

lemma addLimitOrder_ok:
  assumes lims: "limits_of w s = map fst Q" and ok: "side_ok s buy Q"
    and p: "oheap s p = Some x" "oNext x = None" "oPrev x = None" "oLimit x = None"
    and px: "resting_ok (oheap s) buy (oPrice x) p"
    and fits: "fits64 (vol_at (oPrice x) (sabs s Q) + unat (RemainingQty x))"
    and fresh: "dom (lheap s) \<subseteq> {..<lnext s}"
  shows "\<exists>s' Q'. addLimitOrder p w buy s = Some s' \<and> order_rested buy p x w Q s Q' s'"
proof -
  obtain P R where Q: "Q = P @ R" and P: "\<forall>y \<in> set P. prio buy (price_of s (fst y)) (oPrice x)"
    and R: "R \<noteq> [] \<longrightarrow> \<not> prio buy (price_of s (fst (hd R))) (oPrice x)"
    by (rule side_split [of Q buy s "oPrice x"])
  show ?thesis
  proof (cases "R \<noteq> [] \<and> price_of s (fst (hd R)) = oPrice x")
    case True
    then obtain l ps R' where r: "R = (l, ps) # R'" "price_of s l = oPrice x" by (cases R) auto
    show ?thesis
      using addLimitOrder_joins [of w s P l ps R', OF _ _ p px _ fresh P r(2)] lims ok fits Q r(1) by simp
  next
    case False
    then show ?thesis using addLimitOrder_opens [of w s P R, OF _ _ p px fresh P] lims ok Q R by blast
  qed
qed


section \<open>Removing a level\<close>

lemma removeLimitLevel_ok:
  assumes lims: "limits_of w s = map fst (P @ (l, ps) # R)" and ok: "sorted_levels s buy (P @ (l, ps) # R)"
  shows "removeLimitLevel w (price_of s l) buy s = Some (set_limits w (map fst (P @ R)) s)"
proof -
  have P: "\<forall>x \<in> set P. prio buy (price_of s (fst x)) (price_of s l)"
    using ok by (auto simp: sorted_levels_def sorted_wrt_append)
  have "\<not> prio buy (price_of s l) (price_of s l)"
    using price_priority.lt_irrefl [OF prio_priority] .
  then have "find_level w (price_of s l) buy s = Some (length P)"
    using find_level_ok [OF lims ok P] by simp
  then show ?thesis
    using level_exists_ok [OF lims ok, of "price_of s l"] lims slice_delete_split [of "map fst P" l "map fst R"]
    by (simp add: removeLimitLevel_def)
qed

end
