(* ===== verification/OrderBook_Correct.thy ===== *)
theory OrderBook_Correct
  imports OrderBook_Levels
begin

text \<open>
  The invariant of the whole book and the three operations that the API calls.  \<open>Process\<close>
  and \<open>Cancel\<close> return from every book that satisfies the invariant, keep it, and change
  the abstract sides as \<open>Price_Time_Spec\<close> says; \<open>GetDepth\<close> reads the sides back.
\<close>

section \<open>The book's invariant\<close>

text \<open>
  \<open>book_ok s f\<close>: the levels of slice \<open>w\<close> are \<open>f w\<close>.  Both sides are well formed and
  share no level, every entry of the index is a resting order under its own identifier, and the
  allocator is ahead of every address in use.
\<close>

definition live :: "(slice \<Rightarrow> level list) \<Rightarrow> oref set" where
  "live f = oset (f Bids) \<union> oset (f Asks)"

definition book_ok :: "orderbook \<Rightarrow> (slice \<Rightarrow> level list) \<Rightarrow> bool" where
  "book_ok s f \<longleftrightarrow> (\<forall>w. limits_of w s = map fst (f w) \<and> side_ok s (w = Bids) (f w)) \<and>
     fst ` set (f Bids) \<inter> fst ` set (f Asks) = {} \<and>
     (\<forall>k z. orders s k = Some z \<longrightarrow> z \<in> live f \<and> id_at (oheap s) z = k) \<and>
     dom (lheap s) \<subseteq> {..<lnext s} \<and> dom (oheap s) \<subseteq> {..<onext s}"

definition babs :: "orderbook \<Rightarrow> (slice \<Rightarrow> level list) \<Rightarrow> sbook" where
  "babs s f = \<lparr>sbids = sabs s (f Bids), sasks = sabs s (f Asks)\<rparr>"

fun opp :: "slice \<Rightarrow> slice" where
  "opp Bids = Asks"
| "opp Asks = Bids"

lemma opp_simps [simp]: "opp w \<noteq> w" "w \<noteq> opp w" "opp (opp w) = w" "(opp w = Bids) = (w \<noteq> Bids)"
  by (cases w; simp)+

lemma slice_cases: "v = w \<or> v = opp w"
  by (cases v; cases w) auto

lemma live_opp: "live f = oset (f w) \<union> oset (f (opp w))"
  by (cases w) (auto simp: live_def)

lemma book_okD:
  assumes "book_ok s f"
  shows "limits_of w s = map fst (f w)" "side_ok s (w = Bids) (f w)"
    "fst ` set (f w) \<inter> fst ` set (f (opp w)) = {}" "dom (lheap s) \<subseteq> {..<lnext s}" "dom (oheap s) \<subseteq> {..<onext s}"
    "orders s k = Some z \<Longrightarrow> z \<in> live f \<and> id_at (oheap s) z = k"
proof -
  show "limits_of w s = map fst (f w)" "side_ok s (w = Bids) (f w)" "dom (lheap s) \<subseteq> {..<lnext s}"
    "dom (oheap s) \<subseteq> {..<onext s}" "orders s k = Some z \<Longrightarrow> z \<in> live f \<and> id_at (oheap s) z = k"
    using assms unfolding book_ok_def by blast+
  have "fst ` set (f Bids) \<inter> fst ` set (f Asks) = {}"
    using assms unfolding book_ok_def by blast
  then show "fst ` set (f w) \<inter> fst ` set (f (opp w)) = {}"
    by (cases w) (simp_all add: Int_commute)
qed

lemma book_okI:
  assumes "limits_of w s = map fst (f w)" "limits_of (opp w) s = map fst (f (opp w))"
    "side_ok s (w = Bids) (f w)" "side_ok s (opp w = Bids) (f (opp w))"
    "fst ` set (f w) \<inter> fst ` set (f (opp w)) = {}" "\<And>k z. orders s k = Some z \<Longrightarrow> z \<in> live f \<and> id_at (oheap s) z = k"
    "dom (lheap s) \<subseteq> {..<lnext s}" "dom (oheap s) \<subseteq> {..<onext s}"
  shows "book_ok s f"
proof -
  have "limits_of v s = map fst (f v) \<and> side_ok s (v = Bids) (f v)" for v
    using slice_cases [of v w] assms(1-4) by auto
  moreover have "fst ` set (f Bids) \<inter> fst ` set (f Asks) = {}"
    using assms(5) by (cases w) (simp_all add: Int_commute)
  ultimately show ?thesis
    using assms(6-8) unfolding book_ok_def by blast
qed

lemma book_ok_NewOrderBook: "book_ok NewOrderBook (\<lambda>_. [])"
  by (rule book_okI [of Bids]) (simp_all add: NewOrderBook_def limits_of_def side_ok_def)

lemma sides_disjoint: "book_ok s f \<Longrightarrow> oset (f w) \<inter> oset (f (opp w)) = {}"
proof -
  assume b: "book_ok s f"
  have "q \<notin> oset (f (opp w))" if "q \<in> oset (f w)" for q
  proof
    assume "q \<in> oset (f (opp w))"
    with that obtain x y where xy: "x \<in> set (f w)" "q \<in> set (snd x)" "y \<in> set (f (opp w))" "q \<in> set (snd y)"
      by (auto simp: oset_def)
    then have "fst x = fst y"
      using level_ok_limit [of s "w = Bids" x q] level_ok_limit [of s "opp w = Bids" y q]
        book_okD(2) [OF b, of w] book_okD(2) [OF b, of "opp w"] by (auto simp: side_ok_def)
    with xy book_okD(3) [OF b, of w] show False by blast
  qed
  then show ?thesis by blast
qed

lemma live_limit:
  assumes "book_ok s f" "q \<in> live f"
  shows "\<exists>y l. oheap s q = Some y \<and> oLimit y = Some l"
proof -
  obtain w x where "x \<in> set (f w)" "q \<in> set (snd x)"
    using assms(2) by (auto simp: live_def oset_def)
  then show ?thesis
    using level_ok_limit [of s "w = Bids" x q] book_okD(2) [OF assms(1), of w] by (auto simp: side_ok_def)
qed


section \<open>Matching keeps the invariant\<close>

text \<open>An order as \<open>NewOrder\<close> makes it, not yet given to the book.\<close>

definition new_order :: "orderbook \<Rightarrow> oref \<Rightarrow> order \<Rightarrow> bool" where
  "new_order s p x \<longleftrightarrow> oheap s p = Some x \<and> oFilledQty x = 0 \<and> oNext x = None \<and> oPrev x = None \<and> oLimit x = None"

definition indexed :: "orderbook \<Rightarrow> (slice \<Rightarrow> level list) \<Rightarrow> bool" where
  "indexed s f \<longleftrightarrow> (\<forall>z \<in> live f. orders s (id_at (oheap s) z) = Some z)"

lemma not_live: "book_ok s f \<Longrightarrow> oheap s p = Some x \<Longrightarrow> oLimit x = None \<Longrightarrow> p \<notin> live f"
  using live_limit [of s f p] by auto

lemma live_upd: "live (f(w := Q)) = oset Q \<union> oset (f (opp w))"
  by (cases w) (auto simp: live_def)

text \<open>Dropping the orders that matching uses up from the map keeps the others in it.\<close>

lemma indexed_matched:
  assumes b: "book_ok s f" and i: "indexed s f" and Q: "oset Q \<subseteq> oset (f w)"
    and o: "orders s' = orders s |` (- id_at (oheap s) ` (oset (f w) - oset Q))"
    and h: "\<And>z. id_at (oheap s') z = id_at (oheap s) z"
  shows "indexed s' (f(w := Q))"
  unfolding indexed_def
proof
  fix z assume z: "z \<in> live (f(w := Q))"
  then have zl: "z \<in> live f" using Q live_opp [of f w] live_upd [of f w Q] by auto
  have "id_at (oheap s) z \<notin> id_at (oheap s) ` (oset (f w) - oset Q)"
  proof
    assume "id_at (oheap s) z \<in> id_at (oheap s) ` (oset (f w) - oset Q)"
    then obtain y where y: "y \<in> oset (f w)" "y \<notin> oset Q" "id_at (oheap s) z = id_at (oheap s) y" by auto
    have "y \<in> live f" using y(1) live_opp [of f w] by simp
    then have "orders s (id_at (oheap s) y) = Some y" "orders s (id_at (oheap s) z) = Some z"
      using i zl unfolding indexed_def by blast+
    with y(3) have "y = z" by simp
    with y z sides_disjoint [OF b, of w] live_upd [of f w Q] show False by auto
  qed
  then show "orders s' (id_at (oheap s') z) = Some z" using i zl h o by (simp add: indexed_def)
qed

text \<open>Putting a new order on a side adds it to the map without hiding another.\<close>

lemma indexed_rested:
  assumes i: "indexed s f" and o: "orders s k = None" "orders s' = (orders s)(k \<mapsto> p)" "id_at (oheap s) p = k"
    and Q: "oset Q = insert p (oset (f w))" and h: "\<And>z. id_at (oheap s') z = id_at (oheap s) z"
  shows "indexed s' (f(w := Q))"
proof -
  have "id_at (oheap s) z \<noteq> k" if "z \<in> live f" for z using i o(1) that by (auto simp: indexed_def)
  moreover have "live (f(w := Q)) = insert p (live f)" using Q live_upd [of f w Q] live_opp [of f w] by auto
  ultimately show ?thesis using i o h by (simp add: indexed_def)
qed

lemma match_book_ok:
  assumes b: "book_ok s f" and p: "oheap s p = Some x" "oLimit x = None" "oFilledQty x \<le> oQuantity x"
  shows "\<exists>s' Q t ts. matchOrder p w s = Some (s', ts) \<and> book_ok s' (f(w := Q)) \<and> oheap s' p = Some t \<and> filled_more x t \<and>
     sweep (\<lambda>pr. \<not> no_cross x pr) (unat (RemainingQty x)) (sabs s (f w)) = (unat (RemainingQty t), sabs s' Q, map abs_fill ts) \<and>
     (\<forall>z \<in> set ts. TakerOrderID z = oID x) \<and> sabs s' (f (opp w)) = sabs s (f (opp w)) \<and>
     (indexed s f \<longrightarrow> indexed s' (f(w := Q))) \<and> orders s' \<subseteq>\<^sub>m orders s \<and> oset Q \<subseteq> oset (f w) \<and>
     book_frame (insert p (live f)) (fst ` set (f w)) s s'"
proof -
  have pl: "p \<notin> live f" using not_live [OF b p(1,2)] .
  then have pw: "p \<notin> oset (f w)" "p \<notin> oset (f (opp w))" using live_opp [of f w] by auto
  obtain s' Q t ts where m: "match_loop p w s [] = Some (s', ts)" "limits_of w s' = map fst Q"
     "side_ok s' (w = Bids) Q" "sweep_upd s p w (f w) s'" "oset Q \<subseteq> oset (f w)" "fst ` set Q \<subseteq> fst ` set (f w)"
     "oheap s' p = Some t" "filled_more x t"
     "sweep (\<lambda>pr. \<not> no_cross x pr) (unat (RemainingQty x)) (sabs s (f w)) = (unat (RemainingQty t), sabs s' Q, map abs_fill ts)"
     "\<forall>z \<in> set ts. TakerOrderID z = oID x"
     "orders s' = orders s |` (- id_at (oheap s) ` (oset (f w) - oset Q))"
    using match_loop_ok [OF book_okD(1,2) [OF b] p(1) pw(1) p(3), of "[]"] unfolding side_matched_def by auto
  note u = sweep_upd_book [OF m(4)]
  have opp: "side_ok s' (opp w = Bids) (f (opp w))" "sabs s' (f (opp w)) = sabs s (f (opp w))"
    using side_ok_book_frame [OF u(1) book_okD(2) [OF b, of "opp w"]] pw sides_disjoint [OF b, of w] book_okD(3) [OF b, of w]
    by auto
  have idx: "z \<in> live (f(w := Q)) \<and> id_at (oheap s') z = k" if o: "orders s' k = Some z" for k z
  proof -
    have k: "orders s k = Some z" "k \<notin> id_at (oheap s) ` (oset (f w) - oset Q)"
      using o m(11) by (auto simp: restrict_map_def split: if_splits)
    then show ?thesis
      using book_okD(6) [OF b k(1)] u(1) live_opp [of f w] live_upd [of f w Q] by (auto simp: book_frame_def)
  qed
  have dj: "fst ` set Q \<inter> fst ` set (f (opp w)) = {}"
    using m(6) book_okD(3) [OF b, of w] by blast
  have "book_ok s' (f(w := Q))"
    using m(2,3) opp(1) u(2) [of "opp w"] u(3,4) book_okD [OF b] idx u(1) dj
    by (intro book_okI [of w]) (simp_all add: book_frame_def)
  moreover have "indexed s' (f(w := Q))" if "indexed s f"
    using indexed_matched [OF b that m(5,11)] u(1) by (simp add: book_frame_def)
  moreover have "orders s' \<subseteq>\<^sub>m orders s"
    using m(11) by (auto simp: map_le_def restrict_map_def)
  moreover have "book_frame (insert p (live f)) (fst ` set (f w)) s s'"
    using u(1) live_opp [of f w] by (auto intro: book_frame_mono)
  ultimately show ?thesis
    using m opp by (intro exI [of _ s'] exI [of _ Q] exI [of _ t] exI [of _ ts]) (simp add: matchOrder_def)
qed


section \<open>Resting keeps the invariant\<close>

lemma rest_book_ok:
  assumes b: "book_ok s f" and p: "oheap s p = Some x" "oNext x = None" "oPrev x = None" "oLimit x = None"
    and px: "resting_ok (oheap s) (w = Bids) (oPrice x) p"
    and fits: "fits64 (vol_at (oPrice x) (sabs s (f w)) + unat (RemainingQty x))"
  shows "\<exists>s' Q. addLimitOrder p w (w = Bids) s = Some s' \<and> book_ok s' (f(w := Q)) \<and>
     sabs s' Q = join_level (prio (w = Bids)) (oPrice x) (oID x, unat (RemainingQty x)) (sabs s (f w)) \<and>
     sabs s' (f (opp w)) = sabs s (f (opp w)) \<and> orders s' = (orders s)(oID x \<mapsto> p) \<and>
     oset Q = insert p (oset (f w)) \<and> book_frame (insert p (oset (f w))) (insert (lnext s) (fst ` set (f w))) s s'"
proof -
  have pl: "p \<notin> live f" using not_live [OF b p(1,4)] .
  obtain s' Q where a: "addLimitOrder p w (w = Bids) s = Some s'" "limits_of w s' = map fst Q"
      "side_ok s' (w = Bids) Q"
      "sabs s' Q = join_level (prio (w = Bids)) (oPrice x) (oID x, unat (RemainingQty x)) (sabs s (f w))"
      "oset Q = insert p (oset (f w))" "fst ` set Q \<subseteq> insert (lnext s) (fst ` set (f w))"
      "orders s' = (orders s)(oID x \<mapsto> p)"
      "book_frame (insert p (oset (f w))) (insert (lnext s) (fst ` set (f w))) s s'"
      "\<And>v. v \<noteq> w \<Longrightarrow> limits_of v s' = limits_of v s" "dom (lheap s') \<subseteq> {..<lnext s'}"
    using addLimitOrder_ok [OF book_okD(1,2) [OF b] p px fits book_okD(4) [OF b]] unfolding order_rested_def by blast
  have "fst ` set (f (opp w)) \<subseteq> {..<lnext s}"
    using side_ok_dom [OF book_okD(2) [OF b, of "opp w"]] book_okD(4) [OF b] by fastforce
  then have fresh: "lnext s \<notin> fst ` set (f (opp w))" by blast
  have L: "insert (lnext s) (fst ` set (f w)) \<inter> fst ` set (f (opp w)) = {}"
    using fresh book_okD(3) [OF b, of w] by blast
  have opp: "side_ok s' (opp w = Bids) (f (opp w))" "sabs s' (f (opp w)) = sabs s (f (opp w))"
    using side_ok_book_frame [OF a(8) book_okD(2) [OF b, of "opp w"] _ L] pl live_opp [of f w] sides_disjoint [OF b, of w]
    by auto
  have dj: "fst ` set Q \<inter> fst ` set (f (opp w)) = {}" using L a(6) by blast
  have id: "id_at (oheap s') z = id_at (oheap s) z" for z using a(8) by (simp add: book_frame_def)
  have "id_at (oheap s) p = oID x" using p(1) by (simp add: id_at_def)
  then have idx: "z \<in> live (f(w := Q)) \<and> id_at (oheap s') z = k" if "orders s' k = Some z" for k z
    using that a(5,7) book_okD(6) [OF b, of k z] id [of z] live_opp [of f w] live_upd [of f w Q]
    by (auto split: if_splits)
  have "book_ok s' (f(w := Q))"
    using a(2,3,9,10) opp(1) book_okD [OF b] idx a(8) dj
    by (intro book_okI [of w]) (simp_all add: book_frame_def)
  then show ?thesis using a opp by blast
qed

section \<open>Process\<close>

definition maker_side :: "order \<Rightarrow> slice" where
  "maker_side x = (if oSide x = Buy then Asks else Bids)"

lemma Process_eq:
  "Process p s = do {
     x \<leftarrow> oheap s p;
     if oQuantity x = 0 then Some (s, []) else do {
       (s, trades) \<leftarrow> matchOrder p (maker_side x) s;
       y \<leftarrow> oheap s p;
       s \<leftarrow> (if 0 < RemainingQty y \<and> oType y = LimitOrder
             then addLimitOrder p (opp (maker_side x)) (opp (maker_side x) = Bids) s else Some s);
       Some (s, trades) } }"
  unfolding Process_def maker_side_def by (cases "oheap s p") (simp_all add: case_prod_beta cong: if_cong)

lemma sweep_0 [simp]: "sweep acc 0 ls = (0, ls, [])"
  by (cases ls) (auto split: prod.splits)

lemma Process_ok:
  assumes b: "book_ok s f" and n: "new_order s p x"
    and fits: "oType x = LimitOrder \<longrightarrow> fits64 (vol_at (oPrice x) (sabs s (f (opp w))) + unat (oQuantity x))"
    and w: "w = maker_side x"
  shows "\<exists>s' f' ts r. Process p s = Some (s', ts) \<and> book_ok s' f' \<and>
     sweep (\<lambda>pr. \<not> no_cross x pr) (unat (oQuantity x)) (sabs s (f w)) = (r, sabs s' (f' w), map abs_fill ts) \<and>
     sabs s' (f' (opp w)) = (if 0 < r \<and> oType x = LimitOrder
        then join_level (prio (opp w = Bids)) (oPrice x) (oID x, r) (sabs s (f (opp w))) else sabs s (f (opp w))) \<and>
     (\<forall>z \<in> set ts. TakerOrderID z = oID x) \<and>
     (indexed s f \<longrightarrow> orders s (oID x) = None \<longrightarrow> indexed s' f') \<and>
     (0 < r \<and> oType x = LimitOrder \<longrightarrow> orders s' (oID x) = Some p) \<and>
     (oType x \<noteq> LimitOrder \<longrightarrow> orders s' \<subseteq>\<^sub>m orders s) \<and>
     (\<forall>q. q \<noteq> p \<longrightarrow> q \<notin> live f \<longrightarrow> oheap s' q = oheap s q) \<and> onext s' = onext s \<and>
     dom (oheap s') = dom (oheap s)"
proof (cases "oQuantity x = 0")
  case True
  with n have "Process p s = Some (s, [])" by (simp add: Process_eq new_order_def)
  with True b show ?thesis by (intro exI [of _ s] exI [of _ f] exI [of _ "[]"] exI [of _ 0]) simp
next
  case q0: False
  have p: "oheap s p = Some x" "oNext x = None" "oPrev x = None" "oLimit x = None" "oFilledQty x \<le> oQuantity x"
    and r: "RemainingQty x = oQuantity x"
    using n by (simp_all add: new_order_def RemainingQty_def)
  obtain s1 Q1 t ts where m: "matchOrder p w s = Some (s1, ts)" "book_ok s1 (f(w := Q1))" "oheap s1 p = Some t"
     "filled_more x t"
     "sweep (\<lambda>pr. \<not> no_cross x pr) (unat (oQuantity x)) (sabs s (f w)) = (unat (RemainingQty t), sabs s1 Q1, map abs_fill ts)"
     "\<forall>z \<in> set ts. TakerOrderID z = oID x" "sabs s1 (f (opp w)) = sabs s (f (opp w))"
     "indexed s f \<longrightarrow> indexed s1 (f(w := Q1))" "orders s1 \<subseteq>\<^sub>m orders s" "oset Q1 \<subseteq> oset (f w)"
     "book_frame (insert p (live f)) (fst ` set (f w)) s s1"
    using match_book_ok [OF b p(1,4,5), of w] r by auto
  note t = filled_more_fields [OF m(4)]
  have fr: "\<forall>q. q \<noteq> p \<longrightarrow> q \<notin> live f \<longrightarrow> oheap s1 q = oheap s q" "onext s1 = onext s" "dom (oheap s1) = dom (oheap s)"
    using m(11) by (auto simp: book_frame_def)
  show ?thesis
  proof (cases "0 < RemainingQty t \<and> oType t = LimitOrder")
    case False
    then have "Process p s = Some (s1, ts)" using p q0 m(1,3) w by (auto simp: Process_eq)
    moreover have "\<not> (0 < unat (RemainingQty t) \<and> oType x = LimitOrder)"
      using False t by (auto simp: word_less_nat_alt)
    ultimately show ?thesis
      using m fr
      by (intro exI [of _ s1] exI [of _ "f(w := Q1)"] exI [of _ ts] exI [of _ "unat (RemainingQty t)"]) auto
  next
    case True
    have le: "unat (RemainingQty t) \<le> unat (oQuantity x)"
      using sweep_conserves [OF m(5)] by simp
    have px: "resting_ok (oheap s1) (opp w = Bids) (oPrice t) p"
      using True t m(3) w by (auto simp: resting_ok_def maker_side_def RemainingQty_def le_less)
    have "fits64 (vol_at (oPrice t) (sabs s1 ((f(w := Q1)) (opp w))) + unat (RemainingQty t))"
      using fits le t m(7) True by (auto intro: fits64_mono)
    then obtain s2 Q2 where a: "addLimitOrder p (opp w) (opp w = Bids) s1 = Some s2"
       "book_ok s2 (f(w := Q1, opp w := Q2))"
       "sabs s2 Q2 = join_level (prio (opp w = Bids)) (oPrice t) (oID t, unat (RemainingQty t)) (sabs s1 (f (opp w)))"
       "sabs s2 Q1 = sabs s1 Q1" "orders s2 = (orders s1)(oID t \<mapsto> p)" "oset Q2 = insert p (oset (f (opp w)))"
       "book_frame (insert p (oset (f (opp w)))) (insert (lnext s1) (fst ` set (f (opp w)))) s1 s2"
      using rest_book_ok [OF m(2,3) _ _ _ px] p t by auto
    have "Process p s = Some (s2, ts)" using p q0 m(1,3) w True a(1) by (simp add: Process_eq)
    moreover have "indexed s2 (f(w := Q1, opp w := Q2))" if "indexed s f" "orders s (oID x) = None"
    proof (rule indexed_rested)
      show "indexed s1 (f(w := Q1))" using m(8) that(1) by simp
      show "orders s1 (oID x) = None" using m(9) that(2) by (auto simp: map_le_def dom_def)
    qed (use a(5,6,7) m(3) t in \<open>simp_all add: id_at_def book_frame_def\<close>)
    moreover have "\<forall>q. q \<noteq> p \<longrightarrow> q \<notin> live f \<longrightarrow> oheap s2 q = oheap s q" "onext s2 = onext s" "dom (oheap s2) = dom (oheap s)"
      using fr a(7) live_opp [of f w] by (auto simp: book_frame_def)
    ultimately show ?thesis
      using m(5,6,7) a t True
      by (intro exI [of _ s2] exI [of _ "f(w := Q1, opp w := Q2)"] exI [of _ ts] exI [of _ "unat (RemainingQty t)"])
        (simp add: word_less_nat_alt)
  qed
qed


lemma Process_market_taker:
  assumes b: "book_ok s f" and n: "new_order s p x" and t: "oType x \<noteq> LimitOrder" and P: "Process p s = Some (s', ts)"
  shows "\<exists>y. oheap s' p = Some y \<and> oType y = oType x \<and> oSide y = oSide x"
proof (cases "oQuantity x = 0")
  case True
  then show ?thesis using n P by (simp add: Process_eq new_order_def)
next
  case False
  have p: "oheap s p = Some x" "oLimit x = None" "oFilledQty x \<le> oQuantity x" using n by (simp_all add: new_order_def)
  obtain s1 y ts1 where m: "matchOrder p (maker_side x) s = Some (s1, ts1)" "oheap s1 p = Some y" "filled_more x y"
    using match_book_ok [OF b p, of "maker_side x"] by blast
  note y = filled_more_fields [OF m(3)]
  have "Process p s = Some (s1, ts1)" using p m(1,2) False t y by (simp add: Process_eq)
  then show ?thesis using P m(2) y by auto
qed

section \<open>Cancel\<close>

text \<open>A level without its order \<open>p\<close>; a level that loses its last order disappears.\<close>

definition level_rest :: "'l \<Rightarrow> 'q list \<Rightarrow> ('l \<times> 'q list) list" where
  "level_rest l ps = (if ps = [] then [] else [(l, ps)])"

lemma side_ok_disjoint_mid:
  assumes "side_ok h buy (P @ x # R)"
  shows "set (snd x) \<inter> oset (P @ R) = {}"
proof -
  have "q \<notin> set (snd y)" if "q \<in> set (snd x)" "y \<in> set (P @ R)" for q y
  proof
    assume "q \<in> set (snd y)"
    with assms that have "fst x = fst y"
      using level_ok_limit [of h buy x q] level_ok_limit [of h buy y q] by (auto simp: side_ok_def)
    with that side_ok_distinct [OF assms] show False by auto
  qed
  then show ?thesis unfolding oset_def by blast
qed

lemma remove_from_level:
  fixes s :: orderbook
  assumes ok: "side_ok s buy (P @ (l, as @ p # bs) # R)" and p: "oheap s p = Some x"
  shows "\<exists>s' lim. RemoveOrder l p s = Some s' \<and> side_ok s' buy (P @ level_rest l (as @ bs) @ R) \<and>
     sabs s' (P @ level_rest l (as @ bs) @ R) =
       sabs s P @ level_rest (price_of s l) (qabs (oheap s) (as @ bs)) @ sabs s R \<and>
     level_upd s l (set (as @ p # bs)) s' \<and> oheap s' p = Some (odata x) \<and> sorted_levels s' buy (P @ (l, as @ bs) # R) \<and>
     lheap s' l = Some lim \<and> lPrice lim = price_of s l \<and> (lTotalVolume lim = 0 \<longleftrightarrow> as @ bs = [])"
proof -
  have lok: "level_ok s buy (l, as @ p # bs)" using ok by (simp add: side_ok_def)
  then have lv: "is_level s l (as @ p # bs)" by (simp add: level_ok_def)
  obtain s' where s': "RemoveOrder l p s = Some s'" "is_level s' l (as @ bs)" "level_upd s l (set (as @ p # bs)) s'"
     "oheap s' p = Some (odata x)"
    using RemoveOrder_ok [OF lv p] by blast
  note u = level_upd_book [OF s'(3)]
  have ldist: "l \<notin> fst ` set (P @ R)"
    using side_ok_distinct [OF ok] by auto
  have other: "level_ok s' buy y \<and> labs s' y = labs s y" if y: "y \<in> set (P @ R)" for y
  proof -
    have ly: "level_ok s buy y" and ne: "fst y \<noteq> l" using ok y ldist by (auto simp: side_ok_def)
    have "q \<notin> set (as @ p # bs)" if q: "q \<in> set (snd y)" for q
      using level_ok_limit [OF ly q] level_ok_limit [OF lok, of q] ne by auto
    then show ?thesis
      using level_ok_frame [of s' y s] u(1) ly ne by (simp add: book_frame_def)
  qed
  have q: "qabs (oheap s') (as @ bs) = qabs (oheap s) (as @ bs)"
    by (rule qabs_odata) (use u(7) in blast)
  then have v: "vol (oheap s') (as @ bs) = vol (oheap s) (as @ bs)"
    by (metis svol_qabs)
  have "vol (oheap s) (as @ bs) \<le> vol (oheap s) (as @ p # bs)" by (simp add: vol_def)
  then have fits: "fits64 (vol (oheap s') (as @ bs))"
    using lok v by (auto simp: level_ok_def intro: fits64_mono)
  have rest: "\<forall>q \<in> set (as @ bs). resting_ok (oheap s') buy (price_of s' l) q"
    using lok resting_ok_odata [of "oheap s'" _ "oheap s" buy] u(5,7) by (auto simp: level_ok_def)
  obtain lim where lim: "lheap s' l = Some lim" using s'(2) by (auto simp: is_level_def)
  then have pr: "lPrice lim = price_of s l" using u(5) [of l] by (simp add: price_of_def)
  have lev: "\<forall>y \<in> set (level_rest l (as @ bs)). level_ok s' buy y"
    using s'(2) fits rest by (auto simp: level_ok_def level_rest_def)
  have srt: "sorted_wrt (prio buy) (map (\<lambda>x. price_of s' (fst x)) (P @ (l, as @ bs) # R))"
    using ok u(5) by (simp add: side_ok_def)
  then have ok': "side_ok s' buy (P @ level_rest l (as @ bs) @ R)"
    using other lev by (auto simp: side_ok_def level_rest_def sorted_wrt_append)
  have sl: "sorted_levels s' buy (P @ (l, as @ bs) # R)"
    using srt lim side_ok_dom [OF ok'] unfolding sorted_levels_def by (auto simp: Ball_def)
  have "sabs s' P = sabs s P" "sabs s' R = sabs s R" using other by (auto simp: sabs_def)
  then have "sabs s' (P @ level_rest l (as @ bs) @ R) =
       sabs s P @ level_rest (price_of s l) (qabs (oheap s) (as @ bs)) @ sabs s R"
    using q u(5) by (auto simp: labs_def level_rest_def)
  with s' ok' sl lim pr is_level_vol0 [OF s'(2) rest fits lim] show ?thesis by blast
qed

lemma Cancel_eq:
  assumes "orders s i = Some p" "oheap s p = Some x" "oLimit x = Some l" "RemoveOrder l p s = Some s1"
    "oheap s1 p = Some y" "lheap s1 l = Some lim" "oSide y = Buy \<longleftrightarrow> w = Bids"
  shows "Cancel i s = (if lTotalVolume lim = 0
      then (case removeLimitLevel w (lPrice lim) (w = Bids) (s1\<lparr>orders := (orders s1)(oID y := None)\<rparr>) of
              None \<Rightarrow> None | Some s2 \<Rightarrow> Some (s2, True))
      else Some (s1\<lparr>orders := (orders s1)(oID y := None)\<rparr>, True))"
  using assms by (cases w) (simp_all add: Cancel_def Option.bind_def split: option.split)

lemma unlink_book_ok:
  assumes b: "book_ok s f" and fw: "f w = P @ (l, as @ p # bs) # R" and Q: "Q = P @ level_rest l (as @ bs) @ R"
    and lu: "level_upd s l (set (as @ p # bs)) s1" and ok1: "side_ok s1 (w = Bids) Q"
    and s': "s' = set_limits w (map fst Q) (s1\<lparr>orders := (orders s1)(id_at (oheap s) p := None)\<rparr>)"
  shows "book_ok s' (f(w := Q))" "sabs s' (f (opp w)) = sabs s (f (opp w))" "live (f(w := Q)) = live f - {p}"
    "orders s' = (orders s)(id_at (oheap s) p := None)" "book_frame (live f) {l} s s'"
proof -
  note u = level_upd_book [OF lu]
  have ok: "side_ok s (w = Bids) (P @ (l, as @ p # bs) # R)" using book_okD(2) [OF b, of w] fw by simp
  then have lok: "level_ok s (w = Bids) (l, as @ p # bs)" by (simp add: side_ok_def)
  have h: "oheap s' = oheap s1" "lheap s' = lheap s1" "lnext s' = lnext s" "onext s' = onext s1"
    using u(3,4) by (simp_all add: s')
  show o: "orders s' = (orders s)(id_at (oheap s) p := None)" using u(3) by (simp add: s')
  have fr: "book_frame (set (as @ p # bs)) {l} s s'"
    using u(1) h by (simp add: book_frame_def)
  then show "book_frame (live f) {l} s s'"
    by (rule book_frame_mono) (use fw live_opp [of f w] in auto)
  have dj: "fst ` set Q \<inter> fst ` set (f (opp w)) = {}" "l \<notin> fst ` set (f (opp w))"
    using book_okD(3) [OF b, of w] fw by (auto simp: Q level_rest_def)
  have opp: "side_ok s' (opp w = Bids) (f (opp w))" "sabs s' (f (opp w)) = sabs s (f (opp w))"
    using side_ok_book_frame [OF fr book_okD(2) [OF b, of "opp w"]] sides_disjoint [OF b, of w] dj(2) fw by auto
  then show "sabs s' (f (opp w)) = sabs s (f (opp w))" by simp
  have "oset Q = oset (f w) - {p}"
    using lok side_ok_disjoint_mid [OF ok] fw by (auto simp: Q level_rest_def level_ok_def is_level_def)
  then show lv: "live (f(w := Q)) = live f - {p}"
    using live_upd [of f w Q] live_opp [of f w] sides_disjoint [OF b, of w] fw by auto
  have idx: "z \<in> live (f(w := Q)) \<and> id_at (oheap s') z = k" if "orders s' k = Some z" for k z
    using that o book_okD(6) [OF b, of k z] lv fr by (auto simp: book_frame_def split: if_splits)
  have lims: "limits_of w s' = map fst Q" "limits_of (opp w) s' = map fst (f (opp w))"
    using u(2) [of "opp w"] book_okD(1) [OF b, of "opp w"] by (simp_all add: s')
  have okQ: "side_ok s' (w = Bids) Q" using ok1 by (simp add: s')
  have dm: "dom (lheap s') \<subseteq> {..<lnext s'}" "dom (oheap s') \<subseteq> {..<onext s'}"
    using u(6) h book_okD(4,5) [OF b] fr by (simp_all add: book_frame_def)
  show "book_ok s' (f(w := Q))"
    by (rule book_okI [of w]) (use lims okQ opp(1) dj(1) dm idx in simp_all)
qed

lemma live_split:
  assumes "p \<in> live f"
  obtains w P l as bs R where "f w = P @ (l, as @ p # bs) # R"
proof -
  obtain w where "p \<in> oset (f w)" using assms by (auto simp: live_def)
  then obtain P l ps R where "f w = P @ (l, ps) # R" "p \<in> set ps"
    by (auto simp: oset_def dest: split_list)
  then show ?thesis using that by (auto dest: split_list)
qed

lemma Cancel_ok:
  assumes b: "book_ok s f" and i: "orders s i = Some p"
  shows "\<exists>s' f' w A pr us r vs B. Cancel i s = Some (s', True) \<and> book_ok s' f' \<and>
     sabs s (f w) = A @ (pr, us @ (i, r) # vs) # B \<and> sabs s' (f' w) = A @ level_rest pr (us @ vs) @ B \<and>
     sabs s' (f' (opp w)) = sabs s (f (opp w)) \<and> live f' = live f - {p} \<and> orders s' = (orders s)(i := None) \<and>
     (\<exists>l. book_frame (live f) {l} s s')"
proof -
  have pl: "p \<in> live f" "id_at (oheap s) p = i" using book_okD(6) [OF b i] by auto
  obtain w P l as bs R where fw: "f w = P @ (l, as @ p # bs) # R" using pl(1) by (rule live_split)
  have ok: "side_ok s (w = Bids) (P @ (l, as @ p # bs) # R)" using book_okD(2) [OF b, of w] fw by simp
  then have lok: "level_ok s (w = Bids) (l, as @ p # bs)" by (simp add: side_ok_def)
  obtain x where x: "oheap s p = Some x" "oLimit x = Some l" using level_ok_limit [OF lok, of p] by auto
  have ix: "oID x = i" using pl(2) x(1) by (simp add: id_at_def)
  have sx: "oSide x = Buy \<longleftrightarrow> w = Bids" using lok x(1) by (auto simp: level_ok_def resting_ok_def)
  define Q where "Q = P @ level_rest l (as @ bs) @ R"
  obtain s1 lim where r: "RemoveOrder l p s = Some s1" "side_ok s1 (w = Bids) Q"
     "sabs s1 Q = sabs s P @ level_rest (price_of s l) (qabs (oheap s) (as @ bs)) @ sabs s R"
     "level_upd s l (set (as @ p # bs)) s1" "oheap s1 p = Some (odata x)"
     "sorted_levels s1 (w = Bids) (P @ (l, as @ bs) # R)"
     "lheap s1 l = Some lim" "lPrice lim = price_of s l" "lTotalVolume lim = 0 \<longleftrightarrow> as @ bs = []"
    using remove_from_level [OF ok x(1)] unfolding Q_def by blast
  note u = level_upd_book [OF r(4)]
  define s2 where "s2 = s1\<lparr>orders := (orders s1)(i := None)\<rparr>"
  define s' where "s' = set_limits w (map fst Q) s2"
  have od: "oID (odata x) = i" "oSide (odata x) = oSide x" using ix by (simp_all add: odata_def)
  have lim1: "limits_of w s2 = map fst (P @ (l, as @ bs) # R)"
    using u(2) [of w] book_okD(1) [OF b, of w] fw by (simp add: s2_def)
  have c: "Cancel i s = Some (s', True)"
  proof (cases "as @ bs = []")
    case True
    have "sorted_levels s2 (w = Bids) (P @ (l, as @ bs) # R)"
      using r(6) by (simp add: s2_def sorted_levels_def price_of_def)
    from removeLimitLevel_ok [OF lim1 this] have "removeLimitLevel w (lPrice lim) (w = Bids) s2 = Some s'"
      using True r(8) u(5) [of l] by (simp add: s'_def s2_def Q_def level_rest_def price_of_def)
    then show ?thesis
      using Cancel_eq [OF i x r(1,5,7), of w] sx od True r(9) by (simp add: s2_def)
  next
    case False
    then have "map fst Q = limits_of w s2" using lim1 by (simp add: Q_def level_rest_def)
    then have "s' = s2" by (cases w) (simp_all add: s'_def set_limits_def limits_of_def)
    then show ?thesis
      using Cancel_eq [OF i x r(1,5,7), of w] sx od False r(9) by (auto simp: s2_def)
  qed
  note bk = unlink_book_ok [OF b fw Q_def r(4,2) s'_def [unfolded s2_def pl(2) [symmetric]]]
  have "sabs s (f w) = sabs s P @ (price_of s l, qabs (oheap s) as @ (i, rem_at (oheap s) p) # qabs (oheap s) bs) # sabs s R"
    using fw pl(2) by (simp add: labs_def)
  moreover have "sabs s' ((f(w := Q)) w) = sabs s P @ level_rest (price_of s l) (qabs (oheap s) as @ qabs (oheap s) bs) @ sabs s R"
    using r(3) by (simp add: s'_def s2_def)
  moreover have "sabs s' ((f(w := Q)) (opp w)) = sabs s (f (opp w))" using bk(2) by simp
  ultimately show ?thesis using c bk(1,3,4,5) unfolding pl(2) by blast
qed

section \<open>GetDepth\<close>

definition abs_depth :: "price_level \<Rightarrow> u64 \<times> nat" where
  "abs_depth pl = (plPrice pl, unat (plVolume pl))"

lemma abs_depth_simp [simp]: "abs_depth \<lparr>plPrice = a, plVolume = v\<rparr> = (a, unat v)"
  by (simp add: abs_depth_def)

lemma depth_loop_ok:
  assumes "\<forall>x \<in> set Q. level_ok s buy x"
  shows "\<exists>d. depth_loop s n (map fst Q) = Some d \<and> map abs_depth d = depth_levels n (sabs s Q)"
  using assms
proof (induction Q arbitrary: n)
  case Nil
  then show ?case by (cases n) (simp_all add: depth_levels_def)
next
  case (Cons x Q)
  then obtain lim where lim: "lheap s (fst x) = Some lim" "lTotalVolume lim = of_nat (vol (oheap s) (snd x))"
      "fits64 (vol (oheap s) (snd x))"
    by (auto simp: level_ok_def is_level_def)
  show ?case
  proof (cases n)
    case (Suc k)
    obtain d where "depth_loop s k (map fst Q) = Some d" "map abs_depth d = depth_levels k (sabs s Q)"
      using Cons by auto
    with Suc lim show ?thesis
      by (simp add: depth_levels_def labs_def price_of_def)
  qed (simp add: depth_levels_def)
qed

lemma GetDepth_ok:
  assumes b: "book_ok s f" and n: "0 \<le> n"
  shows "\<exists>bs as. GetDepth n s = Some (bs, as) \<and> map abs_depth bs = depth_levels (nat n) (sabs s (f Bids)) \<and>
     map abs_depth as = depth_levels (nat n) (sabs s (f Asks))"
proof -
  have "bids s = map fst (f Bids)" "asks s = map fst (f Asks)"
    using book_okD(1) [OF b, of Bids] book_okD(1) [OF b, of Asks] by (simp_all add: limits_of_def)
  then show ?thesis
    using depth_loop_ok [of "f Bids" s True "nat n"] depth_loop_ok [of "f Asks" s False "nat n"]
      book_okD(2) [OF b, of Bids] book_okD(2) [OF b, of Asks] n
    by (auto simp: GetDepth_def side_ok_def)
qed

end
