(* ===== verification/OrderBook_Reach.thy ===== *)
theory OrderBook_Reach
  imports OrderBook_Correct
begin

text \<open>
  The book as its users see it.  \<open>sprocess\<close> specifies an incoming order on the abstract
  book, \<open>book_view\<close> reads the abstract book off the heap by following the pointers, and
  \<open>reachable\<close> are the books that calls to \<open>NewOrder\<close>, \<open>Process\<close> and
  \<open>Cancel\<close> produce.  Every reachable book satisfies the invariant and is uncrossed.
\<close>

section \<open>The specification of an incoming order\<close>

definition maker_levels :: "bool \<Rightarrow> sbook \<Rightarrow> slevel list" where
  "maker_levels buy b = (if buy then sasks b else sbids b)"

definition own_levels :: "bool \<Rightarrow> sbook \<Rightarrow> slevel list" where
  "own_levels buy b = (if buy then sbids b else sasks b)"

definition mk_book :: "bool \<Rightarrow> slevel list \<Rightarrow> slevel list \<Rightarrow> sbook" where
  "mk_book buy own maker = (if buy then \<lparr>sbids = own, sasks = maker\<rparr> else \<lparr>sbids = maker, sasks = own\<rparr>)"

text \<open>
  An order for \<open>q\<close> units is matched against the prices \<open>acc\<close> accepts; what is left
  of an order that may rest joins its own side at \<open>limit\<close>.
\<close>

definition sprocess ::
  "(u64 \<Rightarrow> bool) \<Rightarrow> bool \<Rightarrow> bool \<Rightarrow> string \<Rightarrow> u64 \<Rightarrow> nat \<Rightarrow> sbook \<Rightarrow> sbook \<times> fill list" where
  "sprocess acc buy rests i limit q b = (case sweep acc q (maker_levels buy b) of (r, ms, fs) \<Rightarrow>
     (mk_book buy (if 0 < r \<and> rests then join_level (prio buy) limit (i, r) (own_levels buy b)
                   else own_levels buy b) ms, fs))"

text \<open>What a trader expects of the limit price.\<close>

definition accepts :: "bool \<Rightarrow> bool \<Rightarrow> u64 \<Rightarrow> u64 \<Rightarrow> bool" where
  "accepts buy rests limit pr \<longleftrightarrow> (rests \<longrightarrow> (if buy then pr \<le> limit else limit \<le> pr))"

lemma book_levels [simp]:
  "maker_levels buy (mk_book buy own maker) = maker" "own_levels buy (mk_book buy own maker) = own"
  "mk_book buy (own_levels buy b) (maker_levels buy b) = b"
  by (simp_all add: maker_levels_def own_levels_def mk_book_def)

definition sorted_book :: "sbook \<Rightarrow> bool" where
  "sorted_book b \<longleftrightarrow> sorted_wrt better_bid (map fst (sbids b)) \<and> sorted_wrt better_ask (map fst (sasks b))"

lemma sorted_book_levels:
  "sorted_book b \<longleftrightarrow> sorted_wrt (prio buy) (map fst (own_levels buy b)) \<and>
     sorted_wrt (prio (\<not> buy)) (map fst (maker_levels buy b))"
  by (auto simp: sorted_book_def prio_def own_levels_def maker_levels_def)

lemma uncrossed_levels:
  "uncrossed b \<longleftrightarrow> (\<forall>p \<in> fst ` set (own_levels buy b). \<forall>q \<in> fst ` set (maker_levels buy b). prio (\<not> buy) p q)"
  by (auto simp: uncrossed_def prio_def own_levels_def maker_levels_def better_bid_def better_ask_def)

lemma sprocess_uncrossed:
  assumes u: "uncrossed b" and s: "sorted_book b"
    and acc: "\<And>pr. rests \<Longrightarrow> \<not> acc pr \<Longrightarrow> prio (\<not> buy) limit pr"
    and p: "sprocess acc buy rests i limit q b = (b', fs)"
  shows "uncrossed b'"
proof -
  obtain r ms where sw: "sweep acc q (maker_levels buy b) = (r, ms, fs)"
    and b': "b' = mk_book buy (if 0 < r \<and> rests then join_level (prio buy) limit (i, r) (own_levels buy b) else own_levels buy b) ms"
    using p by (auto simp: sprocess_def split: prod.splits)
  have sub: "fst ` set ms \<subseteq> fst ` set (maker_levels buy b)"
    using set_mono_suffix [OF sweep_suffix [OF sw]] by simp
  have srt: "sorted_wrt (prio (\<not> buy)) (map fst ms)"
    using price_priority.sweep_sorted [OF prio_priority sw] s sorted_book_levels [of b buy] by blast
  have lim: "\<forall>pr \<in> fst ` set ms. prio (\<not> buy) limit pr" if "0 < r" "rests"
  proof (cases ms)
    case (Cons m ms')
    with sweep_exhausts [OF sw] that have "prio (\<not> buy) limit (fst m)" using acc by auto
    then show ?thesis using srt Cons price_priority.lt_trans [OF prio_priority] by fastforce
  qed simp
  have own: "fst ` set (own_levels buy b') \<subseteq> insert limit (fst ` set (own_levels buy b))"
    using price_priority.join_level_prices [OF prio_priority, of buy limit "(i, r)" "own_levels buy b"] by (auto simp: b')
  show ?thesis
    unfolding uncrossed_levels [of b' buy]
  proof (intro ballI)
    fix p q assume p: "p \<in> fst ` set (own_levels buy b')" and "q \<in> fst ` set (maker_levels buy b')"
    then have q: "q \<in> fst ` set ms" by (simp add: b')
    show "prio (\<not> buy) p q"
    proof (cases "p \<in> fst ` set (own_levels buy b)")
      case True
      then show ?thesis using u sub q uncrossed_levels [of b buy] by blast
    next
      case False
      with own p have "p = limit" by blast
      moreover have "0 < r \<and> rests" using False p by (auto simp: b' split: if_splits)
      ultimately show ?thesis using lim q by blast
    qed
  qed
qed

lemma sprocess_sorted:
  assumes "sorted_book b" and p: "sprocess acc buy rests i limit q b = (b', fs)"
  shows "sorted_book b'"
proof -
  obtain r ms where sw: "sweep acc q (maker_levels buy b) = (r, ms, fs)"
    and b': "b' = mk_book buy (if 0 < r \<and> rests then join_level (prio buy) limit (i, r) (own_levels buy b) else own_levels buy b) ms"
    using p by (auto simp: sprocess_def split: prod.splits)
  then show ?thesis
    using assms(1) price_priority.sweep_sorted [OF prio_priority sw, of "\<not> buy"]
      price_priority.join_level_sorted [OF prio_priority, of buy "own_levels buy b" limit "(i, r)"]
    by (simp add: sorted_book_levels [of _ buy])
qed

section \<open>Reading the book off the heap\<close>

text \<open>
  \<open>book_view\<close> follows the pointers: the slices, each level's \<open>Head\<close>, and
  \<open>Next\<close> from order to order.  A queue has no more orders than were ever allocated,
  so \<open>onext\<close> steps reach its end.
\<close>

fun walk :: "nat \<Rightarrow> (oref \<rightharpoonup> order) \<Rightarrow> oref option \<Rightarrow> oref list" where
  "walk 0 oh p = []"
| "walk (Suc n) oh None = []"
| "walk (Suc n) oh (Some p) = (case oh p of None \<Rightarrow> [] | Some x \<Rightarrow> p # walk n oh (oNext x))"

definition level_view :: "orderbook \<Rightarrow> lref \<Rightarrow> slevel" where
  "level_view s l = (case lheap s l of None \<Rightarrow> (0, [])
     | Some lim \<Rightarrow> (lPrice lim, qabs (oheap s) (walk (onext s) (oheap s) (lHead lim))))"

definition book_view :: "orderbook \<Rightarrow> sbook" where
  "book_view s = \<lparr>sbids = map (level_view s) (bids s), sasks = map (level_view s) (asks s)\<rparr>"

lemma walk_chain:
  "chain oh l pv ps None \<Longrightarrow> length ps \<le> n \<Longrightarrow> walk n oh (hd_opt ps) = ps"
proof (induction ps arbitrary: n pv)
  case Nil
  then show ?case by (cases n) simp_all
next
  case (Cons p ps)
  then show ?case by (cases n) (auto)
qed

lemma level_view_ok:
  assumes "level_ok s buy x" "dom (oheap s) \<subseteq> {..<onext s}"
  shows "level_view s (fst x) = labs s x"
proof -
  from assms(1) obtain lim where l: "distinct (snd x)" "chain (oheap s) (fst x) None (snd x) None"
      "lheap s (fst x) = Some lim" "lHead lim = hd_opt (snd x)"
    by (auto simp: level_ok_def is_level_def)
  have "set (snd x) \<subseteq> {..<onext s}"
    using chain_dom [OF l(2)] assms(2) by blast
  then have "length (snd x) \<le> onext s"
    using card_mono [of "{..<onext s}" "set (snd x)"] distinct_card [OF l(1)] by simp
  then show ?thesis
    using walk_chain [OF l(2)] l by (simp add: level_view_def labs_def price_of_def)
qed

lemma book_view_ok: "book_ok s f \<Longrightarrow> book_view s = babs s f"
proof -
  assume b: "book_ok s f"
  have "map (level_view s) (limits_of w s) = sabs s (f w)" for w
    using book_okD(1,2) [OF b, of w] level_view_ok [OF _ book_okD(5) [OF b], of "w = Bids"]
    by (auto simp: sabs_def side_ok_def)
  from this [of Bids] this [of Asks] show ?thesis
    by (simp add: book_view_def babs_def limits_of_def)
qed


section \<open>Reachable books\<close>

text \<open>
  The volume the code keeps for a price, and the condition that resting the order does not
  overflow it.
\<close>

definition level_volume :: "slice \<Rightarrow> u64 \<Rightarrow> orderbook \<Rightarrow> nat" where
  "level_volume w pr s = sum_list (map (\<lambda>l. case lheap s l of None \<Rightarrow> 0
     | Some lim \<Rightarrow> if lPrice lim = pr then unat (lTotalVolume lim) else 0) (limits_of w s))"

definition has_room :: "order \<Rightarrow> orderbook \<Rightarrow> bool" where
  "has_room x s \<longleftrightarrow> (oType x = LimitOrder \<longrightarrow>
     fits64 (level_volume (opp (maker_side x)) (oPrice x) s + unat (oQuantity x)))"

text \<open>
  The states of the book under any interleaving of the calls the API makes: request handlers
  allocate orders at any time, the matching loop hands one of them to \<open>Process\<close> or
  cancels by identifier.  With \<open>unique\<close> no order is placed under the identifier of
  one that rests.
\<close>

inductive reachable :: "bool \<Rightarrow> orderbook \<Rightarrow> bool" for unique where
  start: "reachable unique NewOrderBook"
| alloc: "reachable unique s \<Longrightarrow> NewOrder i sd ty pr q now s = (p, s') \<Longrightarrow> reachable unique s'"
| place: "reachable unique s \<Longrightarrow> new_order s p x \<Longrightarrow> has_room x s \<Longrightarrow> (unique \<longrightarrow> orders s (oID x) = None) \<Longrightarrow>
    Process p s = Some (s', ts) \<Longrightarrow> reachable unique s'"
| cancel: "reachable unique s \<Longrightarrow> Cancel i s = Some (s', ok) \<Longrightarrow> reachable unique s'"

lemma level_volume_ok: "book_ok s f \<Longrightarrow> level_volume w pr s = vol_at pr (sabs s (f w))"
proof -
  assume b: "book_ok s f"
  have "(case lheap s (fst x) of None \<Rightarrow> 0 | Some lim \<Rightarrow> if lPrice lim = pr then unat (lTotalVolume lim) else 0) =
      (if price_of s (fst x) = pr then svol (qabs (oheap s) (snd x)) else 0)" if "x \<in> set (f w)" for x
  proof -
    have "level_ok s (w = Bids) x" using book_okD(2) [OF b, of w] that by (simp add: side_ok_def)
    then show ?thesis by (auto simp: level_ok_def is_level_def price_of_def)
  qed
  then show ?thesis
    by (simp add: level_volume_def vol_at_def book_okD(1) [OF b] sabs_def labs_def comp_def cong: map_cong)
qed

lemma NewOrder_ok:
  assumes b: "book_ok s f" and n: "NewOrder i sd ty pr q now s = (p, s')"
  shows "book_ok s' f" "babs s' f = babs s f" "p \<notin> live f"
    "new_order s' p \<lparr>oID = i, oSide = sd, oType = ty, oPrice = pr, oQuantity = q, oFilledQty = 0,
       oTimestamp = now, oNext = None, oPrev = None, oLimit = None\<rparr>"
    "orders s' = orders s" "\<And>w. level_volume w pr s' = level_volume w pr s" "\<And>z. z \<in> live f \<Longrightarrow> oheap s' z = oheap s z"
proof -
  have p: "p = onext s" "oheap s p = None" using n book_okD(5) [OF b] by (auto simp: NewOrder_def dom_def)
  have h: "lheap s' = lheap s" "lnext s' = lnext s" "onext s' = Suc (onext s)" "orders s' = orders s"
      "bids s' = bids s" "asks s' = asks s" "\<And>z. z \<noteq> p \<Longrightarrow> oheap s' z = oheap s z"
      "dom (oheap s') = insert (onext s) (dom (oheap s))"
    using n by (auto simp: NewOrder_def)
  show pl: "p \<notin> live f" using live_limit [OF b, of p] p(2) by auto
  show "new_order s' p \<lparr>oID = i, oSide = sd, oType = ty, oPrice = pr, oQuantity = q, oFilledQty = 0,
       oTimestamp = now, oNext = None, oPrev = None, oLimit = None\<rparr>"
    using n by (auto simp: NewOrder_def new_order_def)
  show "orders s' = orders s" by (rule h)
  have l: "limits_of w s' = limits_of w s" for w using h by (cases w) (simp_all add: limits_of_def)
  then show "\<And>w. level_volume w pr s' = level_volume w pr s" using h by (simp add: level_volume_def)
  show eqz: "oheap s' z = oheap s z" if "z \<in> live f" for z
    by (rule h(7)) (use that pl in blast)
  have w: "side_ok s' (w = Bids) (f w) = side_ok s (w = Bids) (f w) \<and> sabs s' (f w) = sabs s (f w)" for w
    using side_ok_frame [of "f w" s' s] eqz h(1) live_opp [of f w] by auto
  then show "babs s' f = babs s f" by (simp add: babs_def)
  have "id_at (oheap s') z = id_at (oheap s) z" if "z \<in> live f" for z using eqz [OF that] by (simp add: id_at_def)
  moreover have "dom (oheap s') \<subseteq> {..<onext s'}" using book_okD(5) [OF b] h(3,8) by auto
  ultimately show "book_ok s' f"
    using w [of Bids] w [of Asks] l h book_okD [OF b] book_okD(2) [OF b, of Bids] book_okD(2) [OF b, of Asks]
      book_okD(3) [OF b, of Bids]
    by (intro book_okI [of Bids]) simp_all
qed

lemma book_ok_sorted: "book_ok s f \<Longrightarrow> sorted_book (book_view s)"
  using book_okD(2) [of s f Bids] book_okD(2) [of s f Asks]
  by (simp add: book_view_ok sorted_book_def babs_def side_ok_def prio_def)

lemma maker_babs:
  "maker_levels (oSide x = Buy) (babs s f) = sabs s (f (maker_side x))"
  "own_levels (oSide x = Buy) (babs s f) = sabs s (f (opp (maker_side x)))"
  "mk_book (oSide x = Buy) (sabs s (f (opp (maker_side x)))) (sabs s (f (maker_side x))) = babs s f"
  by (auto simp: maker_side_def babs_def maker_levels_def own_levels_def mk_book_def)

abbreviation order_acc :: "order \<Rightarrow> u64 \<Rightarrow> bool" where
  "order_acc x pr \<equiv> \<not> no_cross x pr"

abbreviation sprocess_order :: "order \<Rightarrow> sbook \<Rightarrow> sbook \<times> fill list" where
  "sprocess_order x b \<equiv> sprocess (order_acc x) (oSide x = Buy) (oType x = LimitOrder) (oID x) (oPrice x) (unat (oQuantity x)) b"

lemma Process_view:
  assumes b: "book_ok s f" and n: "new_order s p x" and r: "has_room x s"
  shows "\<exists>s' f' ts. Process p s = Some (s', ts) \<and> book_ok s' f' \<and>
     sprocess_order x (book_view s) = (book_view s', map abs_fill ts) \<and> (\<forall>z \<in> set ts. TakerOrderID z = oID x) \<and>
     (indexed s f \<longrightarrow> orders s (oID x) = None \<longrightarrow> indexed s' f') \<and>
     (oType x = LimitOrder \<and> fill_vol (map abs_fill ts) < unat (oQuantity x) \<longrightarrow> orders s' (oID x) = Some p) \<and>
     (oType x \<noteq> LimitOrder \<longrightarrow> orders s' \<subseteq>\<^sub>m orders s) \<and>
     (\<forall>q. q \<noteq> p \<longrightarrow> q \<notin> live f \<longrightarrow> oheap s' q = oheap s q) \<and> onext s' = onext s \<and>
     dom (oheap s') = dom (oheap s)"
proof -
  have "oType x = LimitOrder \<longrightarrow> fits64 (vol_at (oPrice x) (sabs s (f (opp (maker_side x)))) + unat (oQuantity x))"
    using r level_volume_ok [OF b] by (simp add: has_room_def)
  from Process_ok [OF b n this refl] obtain s' f' ts r where P: "Process p s = Some (s', ts)" "book_ok s' f'"
     "sweep (order_acc x) (unat (oQuantity x)) (sabs s (f (maker_side x))) = (r, sabs s' (f' (maker_side x)), map abs_fill ts)"
     "sabs s' (f' (opp (maker_side x))) = (if 0 < r \<and> oType x = LimitOrder
        then join_level (prio (opp (maker_side x) = Bids)) (oPrice x) (oID x, r) (sabs s (f (opp (maker_side x))))
        else sabs s (f (opp (maker_side x))))"
     "\<forall>z \<in> set ts. TakerOrderID z = oID x" "indexed s f \<longrightarrow> orders s (oID x) = None \<longrightarrow> indexed s' f'"
     "0 < r \<and> oType x = LimitOrder \<longrightarrow> orders s' (oID x) = Some p" "oType x \<noteq> LimitOrder \<longrightarrow> orders s' \<subseteq>\<^sub>m orders s"
     "\<forall>q. q \<noteq> p \<longrightarrow> q \<notin> live f \<longrightarrow> oheap s' q = oheap s q" "onext s' = onext s"
     "dom (oheap s') = dom (oheap s)"
    by (elim exE conjE) (rule that; assumption)
  have buy: "(opp (maker_side x) = Bids) = (oSide x = Buy)" by (simp add: maker_side_def)
  have "sprocess_order x (book_view s) = (book_view s', map abs_fill ts)"
    unfolding sprocess_def book_view_ok [OF b] book_view_ok [OF P(2)] maker_babs P(3) prod.case
      P(4) [unfolded buy, symmetric] ..
  moreover have "0 < r \<longleftrightarrow> fill_vol (map abs_fill ts) < unat (oQuantity x)"
    using sweep_conserves [OF P(3)] by linarith
  ultimately show ?thesis using P by auto
qed

lemma order_acc_prio: "oType x = LimitOrder \<Longrightarrow> \<not> order_acc x pr \<Longrightarrow> prio (oSide x \<noteq> Buy) (oPrice x) pr"
  by (auto simp: no_cross_def prio_def better_bid_def better_ask_def)


text \<open>What a cancellation does to a side: one entry with the identifier goes, and its level with the last one.\<close>

definition removes_one :: "string \<Rightarrow> slevel list \<Rightarrow> slevel list \<Rightarrow> bool" where
  "removes_one i ls ls' \<longleftrightarrow> (\<exists>A pr us r vs B. ls = A @ (pr, us @ (i, r) # vs) # B \<and> ls' = A @ level_rest pr (us @ vs) @ B)"

lemma removes_one_prices: "removes_one i ls ls' \<Longrightarrow> fst ` set ls' \<subseteq> fst ` set ls"
  unfolding removes_one_def level_rest_def by (elim exE conjE) (simp add: image_Un le_supI1 le_supI2 subset_insertI2)

lemma Cancel_view:
  assumes b: "book_ok s f" and i: "orders s i = Some p"
  shows "\<exists>s' f' buy ls. Cancel i s = Some (s', True) \<and> book_ok s' f' \<and>
     removes_one i (own_levels buy (book_view s)) ls \<and> book_view s' = mk_book buy ls (maker_levels buy (book_view s)) \<and>
     live f' = live f - {p} \<and> orders s' = (orders s)(i := None) \<and> (\<exists>l. book_frame (live f) {l} s s')"
proof -
  obtain s' f' w A pr us r vs B where c: "Cancel i s = Some (s', True)" "book_ok s' f'"
     "sabs s (f w) = A @ (pr, us @ (i, r) # vs) # B" "sabs s' (f' w) = A @ level_rest pr (us @ vs) @ B"
     "sabs s' (f' (opp w)) = sabs s (f (opp w))" "live f' = live f - {p}" "orders s' = (orders s)(i := None)"
     "\<exists>l. book_frame (live f) {l} s s'"
    using Cancel_ok [OF b i] by (elim exE conjE) (rule that; assumption | blast)
  have "own_levels (w = Bids) (babs s f) = sabs s (f w)" "maker_levels (w = Bids) (babs s f) = sabs s (f (opp w))"
    "babs s' f' = mk_book (w = Bids) (sabs s' (f' w)) (sabs s' (f' (opp w)))"
    by (cases w; simp add: own_levels_def maker_levels_def babs_def mk_book_def)+
  then have lv: "own_levels (w = Bids) (book_view s) = sabs s (f w)"
    "book_view s' = mk_book (w = Bids) (sabs s' (f' w)) (maker_levels (w = Bids) (book_view s))"
    using c(5) book_view_ok [OF b] book_view_ok [OF c(2)] by simp_all
  have "removes_one i (sabs s (f w)) (sabs s' (f' w))" using c(3,4) unfolding removes_one_def by blast
  then show ?thesis using c(1,2,6-8) lv
    by (intro exI [of _ s'] exI [of _ f'] exI [of _ "w = Bids"] exI [of _ "sabs s' (f' w)"]) simp
qed

section \<open>The invariant of every reachable book\<close>

definition reach_inv :: "bool \<Rightarrow> orderbook \<Rightarrow> (slice \<Rightarrow> level list) \<Rightarrow> bool" where
  "reach_inv unique s f \<longleftrightarrow> book_ok s f \<and> uncrossed (book_view s) \<and> (unique \<longrightarrow> indexed s f)"

lemma reach_inv_alloc:
  assumes "reach_inv u s f" "NewOrder i sd ty pr q now s = (p, s')"
  shows "reach_inv u s' f"
proof -
  have b: "book_ok s f" using assms(1) by (simp add: reach_inv_def)
  note n = NewOrder_ok [OF b assms(2)]
  have "indexed s' f" if "indexed s f"
    using that n(5,7) by (simp add: indexed_def id_at_def)
  then show ?thesis
    using assms(1) n(1,2) book_view_ok [OF b] book_view_ok [OF n(1)] by (auto simp: reach_inv_def)
qed

lemma reach_inv_place:
  assumes r: "reach_inv u s f" and n: "new_order s p x" "has_room x s" "u \<longrightarrow> orders s (oID x) = None"
  shows "\<exists>s' f' ts. Process p s = Some (s', ts) \<and> reach_inv u s' f'"
proof -
  have b: "book_ok s f" using r by (simp add: reach_inv_def)
  obtain s' f' ts where p: "Process p s = Some (s', ts)" "book_ok s' f'"
     "sprocess_order x (book_view s) = (book_view s', map abs_fill ts)"
     "indexed s f \<longrightarrow> orders s (oID x) = None \<longrightarrow> indexed s' f'"
    using Process_view [OF b n(1,2)] by (elim exE conjE) (rule that; assumption)
  have "uncrossed (book_view s')"
    using sprocess_uncrossed [OF _ book_ok_sorted [OF b] _ p(3)] r order_acc_prio [of x] by (auto simp: reach_inv_def)
  moreover have "u \<longrightarrow> indexed s' f'" using p(4) r n(3) by (simp add: reach_inv_def)
  ultimately show ?thesis using p(1,2) unfolding reach_inv_def by blast
qed

lemma reach_inv_cancel:
  assumes r: "reach_inv u s f"
  shows "\<exists>s' f'. Cancel i s = Some (s', orders s i \<noteq> None) \<and> reach_inv u s' f'"
proof (cases "orders s i")
  case None
  then have "Cancel i s = Some (s, False)" by (simp add: Cancel_def)
  with None r show ?thesis by auto
next
  case (Some p)
  have b: "book_ok s f" using r by (simp add: reach_inv_def)
  obtain s' f' buy ls l where c: "Cancel i s = Some (s', True)" "book_ok s' f'"
     "removes_one i (own_levels buy (book_view s)) ls" "book_view s' = mk_book buy ls (maker_levels buy (book_view s))"
     "live f' = live f - {p}" "orders s' = (orders s)(i := None)" "book_frame (live f) {l} s s'"
    using Cancel_view [OF b Some] by (elim exE conjE) (rule that; assumption)
  have "uncrossed (book_view s')"
    using r removes_one_prices [OF c(3)] unfolding reach_inv_def uncrossed_levels [of _ buy] c(4) book_levels by blast
  moreover have "indexed s' f'" if "indexed s f"
    using that c(5,6,7) Some by (auto simp: indexed_def book_frame_def)
  ultimately show ?thesis using c r Some by (auto simp: reach_inv_def)
qed

lemma reachable_inv: "reachable u s \<Longrightarrow> \<exists>f. reach_inv u s f"
proof (induction rule: reachable.induct)
  case start
  have "reach_inv u NewOrderBook (\<lambda>_. [])"
    using book_ok_NewOrderBook by (simp add: reach_inv_def indexed_def live_def uncrossed_def book_view_def NewOrderBook_def)
  then show ?case by blast
next
  case (alloc s i sd ty pr q now p s')
  then show ?case using reach_inv_alloc by blast
next
  case (place s p x s' ts)
  then obtain f where "reach_inv u s f" by blast
  from reach_inv_place [OF this place(2-4)] show ?case using place(5) by auto
next
  case (cancel s i s' ok)
  then obtain f where "reach_inv u s f" by blast
  from reach_inv_cancel [OF this, of i] show ?case using cancel(2) by auto
qed


text \<open>One request to place an order, with no other request between allocation and matching.\<close>

definition submit ::
  "string \<Rightarrow> side \<Rightarrow> order_type \<Rightarrow> u64 \<Rightarrow> u64 \<Rightarrow> int \<Rightarrow> orderbook \<Rightarrow> (orderbook \<times> trade list) option" where
  "submit i sd ty pr q now s = (case NewOrder i sd ty pr q now s of (p, s1) \<Rightarrow> Process p s1)"

definition room_at :: "side \<Rightarrow> u64 \<Rightarrow> u64 \<Rightarrow> orderbook \<Rightarrow> bool" where
  "room_at sd pr q s \<longleftrightarrow> fits64 (level_volume (if sd = Buy then Bids else Asks) pr s + unat q)"

lemma submit_ok:
  assumes r: "reachable u s" and f: "ty = LimitOrder \<longrightarrow> room_at sd pr q s" and i: "u \<longrightarrow> orders s i = None"
  shows "\<exists>s' ts. submit i sd ty pr q now s = Some (s', ts) \<and> reachable u s'"
proof -
  obtain p s1 where n: "NewOrder i sd ty pr q now s = (p, s1)" by fastforce
  have r1: "reachable u s1" using r n by (rule reachable.alloc)
  obtain f where b: "reach_inv u s f" using reachable_inv [OF r] by blast
  then have "book_ok s f" by (simp add: reach_inv_def)
  note no = NewOrder_ok [OF this n]
  obtain f1 where b1: "reach_inv u s1 f1" using reachable_inv [OF r1] by blast
  have room: "has_room \<lparr>oID = i, oSide = sd, oType = ty, oPrice = pr, oQuantity = q, oFilledQty = 0,
       oTimestamp = now, oNext = None, oPrev = None, oLimit = None\<rparr> s1"
    using f no(6) by (cases "sd = Buy") (simp_all add: has_room_def room_at_def maker_side_def)
  from reach_inv_place [OF b1 no(4) room] obtain s' ts where "Process p s1 = Some (s', ts)"
    using i no(5) by auto
  moreover from reachable.place [OF r1 no(4) room _ this] have "reachable u s'" using i no(5) by simp
  ultimately show ?thesis using n by (simp add: submit_def)
qed

end
