(* ===== verification/OrderBook_Priority.thy ===== *)
theory OrderBook_Priority
  imports OrderBook_Reach
begin

text \<open>
  Two consequences of the specification that the properties of the book rest on: a sweep serves
  the resting orders strictly in price-time order, and when identifiers are unique a
  cancellation is the deletion of that identifier from both sides.
\<close>

section \<open>Price-time priority on the abstract book\<close>

text \<open>The resting orders of a side in the order in which they are served.\<close>

definition queue_order :: "slevel list \<Rightarrow> fill list" where
  "queue_order ls = concat (map (\<lambda>(pr, qs). map (\<lambda>(i, q). (i, pr, q)) qs) ls)"

text \<open>
  \<open>fs\<close> are the fills that serve \<open>Q\<close> strictly in order and leave \<open>Q'\<close>: every order
  but the last one served is filled completely, and nobody behind the last one gets anything.
\<close>

definition served :: "fill list \<Rightarrow> fill list \<Rightarrow> fill list \<Rightarrow> bool" where
  "served fs Q Q' \<longleftrightarrow> fs = [] \<and> Q' = Q \<or>
     (\<exists>A i pr q k B. Q = A @ (i, pr, q) # B \<and> 0 < k \<and> k \<le> q \<and> fs = A @ [(i, pr, k)] \<and>
        Q' = (if k < q then (i, pr, q - k) # B else B))"

lemma served_refl: "served [] Q Q"
  by (simp add: served_def)

lemma served_one: "0 < k \<Longrightarrow> k \<le> q \<Longrightarrow> served [(i, pr, k)] ((i, pr, q) # B) (if k < q then (i, pr, q - k) # B else B)"
  unfolding served_def by (intro disjI2 exI [of _ "[]"] exI [of _ i] exI [of _ pr] exI [of _ q] exI [of _ k] exI [of _ B]) simp

lemma served_append: "served fs Q Q' \<Longrightarrow> served fs (Q @ R) (Q' @ R)"
proof -
  assume "served fs Q Q'"
  then consider "fs = []" "Q' = Q"
    | A i pr q k B where "Q = A @ (i, pr, q) # B" "0 < k" "k \<le> q" "fs = A @ [(i, pr, k)]" "Q' = (if k < q then (i, pr, q - k) # B else B)"
    unfolding served_def by blast
  then show ?thesis
  proof cases
    case 2
    then show ?thesis unfolding served_def
      by (intro disjI2 exI [of _ A] exI [of _ i] exI [of _ pr] exI [of _ q] exI [of _ k] exI [of _ "B @ R"]) auto
  qed (simp add: served_refl)
qed

lemma served_all: "served fs Q [] \<Longrightarrow> fs = Q"
  unfolding served_def by (auto split: if_splits)

lemma served_prepend: "served fs Q Q' \<Longrightarrow> fs \<noteq> [] \<Longrightarrow> served (P @ fs) (P @ Q) Q'"
proof -
  assume "served fs Q Q'" "fs \<noteq> []"
  then obtain A i pr q k B where "Q = A @ (i, pr, q) # B" "0 < k" "k \<le> q" "fs = A @ [(i, pr, k)]" "Q' = (if k < q then (i, pr, q - k) # B else B)"
    unfolding served_def by blast
  then show ?thesis unfolding served_def
    by (intro disjI2 exI [of _ "P @ A"] exI [of _ i] exI [of _ pr] exI [of _ q] exI [of _ k] exI [of _ B]) simp
qed

lemma served_whole: "\<forall>x \<in> set P. 0 < snd (snd x) \<Longrightarrow> served P P []"
proof (cases P rule: rev_cases)
  case (snoc A x)
  moreover assume "\<forall>x \<in> set P. 0 < snd (snd x)"
  ultimately show ?thesis unfolding served_def
    by (cases x) (intro disjI2 exI [of _ A] exI [of _ "fst x"] exI [of _ "fst (snd x)"] exI [of _ "snd (snd x)"] exI [of _ "snd (snd x)"] exI [of _ "[]"], auto)
qed (simp add: served_def)

lemma served_trans:
  assumes "served fs Q []" "served gs R R'"
  shows "served (fs @ gs) (Q @ R) R'"
proof (cases "gs = []")
  case True
  then show ?thesis
    using served_append [OF assms(1), of R] assms(2) by (simp add: served_def)
next
  case False
  then show ?thesis using served_prepend [OF assms(2), of Q] served_all [OF assms(1)] by simp
qed

lemma queue_order_simps [simp]: "queue_order [] = []"
  "queue_order ((pr, qs) # ls) = map (\<lambda>(i, q). (i, pr, q)) qs @ queue_order ls"
  by (simp_all add: queue_order_def)

lemma fill_queue_served:
  "fill_queue pr r qs = (r', qs', fs) \<Longrightarrow> \<forall>x \<in> set qs. 0 < snd x \<Longrightarrow>
   served fs (map (\<lambda>(i, q). (i, pr, q)) qs) (map (\<lambda>(i, q). (i, pr, q)) qs')"
proof (induction pr r qs arbitrary: r' qs' fs rule: fill_queue.induct)
  case (2 pr r i q qs)
  show ?case
  proof (cases "r = 0 \<or> r < q")
    case True
    then show ?thesis using 2(2) served_one [of r q i pr "map (\<lambda>(i, q). (i, pr, q)) qs"] by (auto simp: served_refl split: if_splits)
  next
    case False
    obtain r1 fs1 where f: "fill_queue pr (r - q) qs = (r1, qs', fs1)" "fs = (i, pr, q) # fs1"
      using 2(2) False by (auto split: prod.splits if_splits)
    then have "served fs1 (map (\<lambda>(i, q). (i, pr, q)) qs) (map (\<lambda>(i, q). (i, pr, q)) qs')"
      using 2(1,3) False by auto
    then show ?thesis
      using served_trans [OF served_whole [of "[(i, pr, q)]"], of fs1] 2(3) f(2) by simp
  qed
qed (simp add: served_refl)

lemma sweep_served: "sweep acc r ls = (r', ls', fs) \<Longrightarrow> live_qs ls \<Longrightarrow> served fs (queue_order ls) (queue_order ls')"
proof (induction acc r ls arbitrary: r' ls' fs rule: sweep.induct)
  case (2 acc r pr qs ls)
  show ?case
  proof (cases "r = 0 \<or> \<not> acc pr")
    case False
    obtain r1 qs1 f1 where f: "fill_queue pr r qs = (r1, qs1, f1)" by (metis prod_cases3)
    have pos: "\<forall>x \<in> set qs. 0 < snd x" and live: "live_qs ls" using 2(3) by auto
    note s1 = fill_queue_served [OF f pos]
    show ?thesis
    proof (cases "qs1 = []")
      case True
      obtain r2 ls2 f2 where s: "sweep acc r1 ls = (r2, ls2, f2)" by (metis prod_cases3)
      have "served f2 (queue_order ls) (queue_order ls2)"
        using 2(1) [OF False f [symmetric] refl True s live] .
      then show ?thesis
        using served_trans [OF s1 [unfolded True list.map], of f2 "queue_order ls"] 2(2) False f True s by auto
    next
      case False': False
      then show ?thesis using served_append [OF s1, of "queue_order ls"] 2(2) False f by auto
    qed
  qed (use 2(2) in \<open>simp add: served_refl\<close>)
qed (simp add: served_refl)

section \<open>Identifiers\<close>

definition ids_of :: "slevel list \<Rightarrow> string list" where
  "ids_of ls = map fst (concat (map snd ls))"

definition book_ids :: "sbook \<Rightarrow> string list" where
  "book_ids b = ids_of (sbids b) @ ids_of (sasks b)"

definition scancel :: "string \<Rightarrow> sbook \<Rightarrow> sbook" where
  "scancel i b = \<lparr>sbids = drop_order i (sbids b), sasks = drop_order i (sasks b)\<rparr>"

lemma ids_of_simps [simp]: "ids_of [] = []" "ids_of (l # ls) = map fst (snd l) @ ids_of ls" "ids_of (as @ bs) = ids_of as @ ids_of bs"
  by (simp_all add: ids_of_def)

lemma drop_order_append: "drop_order i (as @ bs) = drop_order i as @ drop_order i bs"
  by (induction i as rule: drop_order.induct) (auto simp: Let_def)

lemma drop_order_join: "drop_order i (join_level lt pr (i, q) ls) = drop_order i ls"
  by (induction lt pr "(i, q)" ls rule: join_level.induct) (auto simp: Let_def)

lemma filter_fst_id: "i \<notin> fst ` set qs \<Longrightarrow> filter (\<lambda>x. fst x \<noteq> i) qs = qs"
  by (induction qs) auto

lemma drop_order_id: "live_qs ls \<Longrightarrow> i \<notin> set (ids_of ls) \<Longrightarrow> drop_order i ls = ls"
proof (induction i ls rule: drop_order.induct)
  case (2 i pr qs ls)
  then show ?case using filter_fst_id [of i qs] by (auto simp: Let_def)
qed simp

lemma removes_one_drop:
  assumes "removes_one i ls ls'" "distinct (ids_of ls)" "live_qs ls"
  shows "ls' = drop_order i ls" "i \<in> set (ids_of ls)"
proof -
  obtain A pr us r vs B where l: "ls = A @ (pr, us @ (i, r) # vs) # B" "ls' = A @ level_rest pr (us @ vs) @ B"
    using assms(1) unfolding removes_one_def by blast
  have live: "live_qs A" "live_qs B" using assms(3) l(1) by (auto simp: live_qs_def)
  have n: "i \<notin> set (ids_of A)" "i \<notin> set (ids_of B)" "i \<notin> fst ` set us" "i \<notin> fst ` set vs" using assms(2) l(1) by auto
  show "ls' = drop_order i ls"
    unfolding l drop_order_append drop_order_id [OF live(1) n(1)]
    using drop_order_id [OF live(2) n(2)] filter_fst_id [OF n(3)] filter_fst_id [OF n(4)] by (simp add: level_rest_def)
  show "i \<in> set (ids_of ls)" using l by simp
qed

lemma side_ok_concat: "side_ok h buy Q \<Longrightarrow> distinct (concat (map snd Q))"
proof (induction Q)
  case (Cons x Q)
  have "distinct (snd x)" using Cons.prems by (simp add: side_ok_def level_ok_def is_level_def)
  then show ?case
    using Cons.IH [OF side_ok_tl [OF Cons.prems]] side_ok_disjoint [OF Cons.prems] by (auto simp: oset_def)
qed simp

lemma ids_of_sabs: "ids_of (sabs s Q) = map (id_at (oheap s)) (concat (map snd Q))"
  by (induction Q) (simp_all add: labs_def qabs_def comp_def)

lemma indexed_ids:
  assumes b: "book_ok s f" and i: "indexed s f"
  shows "distinct (book_ids (book_view s))" "i \<in> set (book_ids (book_view s)) \<longleftrightarrow> orders s i \<noteq> None"
proof -
  have os: "set (concat (map snd (f w))) = oset (f w)" for w by (auto simp: oset_def)
  have ids: "book_ids (book_view s) = map (id_at (oheap s)) (concat (map snd (f Bids)) @ concat (map snd (f Asks)))"
    by (simp add: book_ids_def book_view_ok [OF b] babs_def ids_of_sabs)
  have "distinct (concat (map snd (f Bids)) @ concat (map snd (f Asks)))"
    using side_ok_concat [OF book_okD(2) [OF b, of Bids]] side_ok_concat [OF book_okD(2) [OF b, of Asks]]
      sides_disjoint [OF b, of Bids] os by (simp add: disjoint_iff)
  moreover have "inj_on (id_at (oheap s)) (live f)"
    using i unfolding indexed_def inj_on_def by (metis option.inject)
  ultimately show "distinct (book_ids (book_view s))"
    unfolding ids distinct_map using os by (simp add: live_def)
  show "i \<in> set (book_ids (book_view s)) \<longleftrightarrow> orders s i \<noteq> None"
  proof
    assume "orders s i \<noteq> None"
    then obtain z where "orders s i = Some z" by blast
    from book_okD(6) [OF b this] show "i \<in> set (book_ids (book_view s))"
      unfolding ids live_def using os by auto
  qed (use os \<open>indexed s f\<close> in \<open>auto simp: ids indexed_def live_def\<close>)
qed

lemma book_ok_live: "book_ok s f \<Longrightarrow> live_qs (sbids (book_view s)) \<and> live_qs (sasks (book_view s))"
  using side_ok_live book_okD(2) [of s f Bids] book_okD(2) [of s f Asks] by (fastforce simp: book_view_ok babs_def)

lemma mk_book_scancel:
  assumes "removes_one i (own_levels buy b) ls" "distinct (book_ids b)" "live_qs (sbids b) \<and> live_qs (sasks b)"
  shows "mk_book buy ls (maker_levels buy b) = scancel i b"
proof -
  have d: "distinct (ids_of (own_levels buy b))" "live_qs (own_levels buy b)" "live_qs (maker_levels buy b)"
     "set (ids_of (own_levels buy b)) \<inter> set (ids_of (maker_levels buy b)) = {}"
    using assms(2,3) by (auto simp: book_ids_def own_levels_def maker_levels_def)
  note r = removes_one_drop [OF assms(1) d(1,2)]
  have "drop_order i (maker_levels buy b) = maker_levels buy b"
    using drop_order_id [OF d(3)] r(2) d(4) by blast
  then show ?thesis using r(1) by (auto simp: mk_book_def scancel_def own_levels_def maker_levels_def)
qed

end
