(* ===== verification/OrderBook_Examples.thy ===== *)
theory OrderBook_Examples
  imports OrderBook_Reach
begin

text \<open>
  A small concrete book for the witnesses: three sell orders on two levels and one buy order,
  with a crossing buy order of twelve units and a market order allocated but not yet processed.
\<close>

definition ex_a :: orderbook where "ex_a = fst (the (submit ''s1'' Sell LimitOrder 100 10 0 NewOrderBook))"
definition ex_b :: orderbook where "ex_b = fst (the (submit ''s2'' Sell LimitOrder 100 5 0 ex_a))"
definition ex_c :: orderbook where "ex_c = fst (the (submit ''s3'' Sell LimitOrder 101 7 0 ex_b))"
definition ex_book :: orderbook where "ex_book = fst (the (submit ''b1'' Buy LimitOrder 99 4 0 ex_c))"
definition ex_new :: orderbook where "ex_new = snd (NewOrder ''m1'' Sell MarketOrder 0 9 0 (snd (NewOrder ''b2'' Buy LimitOrder 100 12 0 ex_book)))"

definition ex_buy :: order where
  "ex_buy = \<lparr>oID = ''b2'', oSide = Buy, oType = LimitOrder, oPrice = 100, oQuantity = 12, oFilledQty = 0,
     oTimestamp = 0, oNext = None, oPrev = None, oLimit = None\<rparr>"

definition ex_market :: order where
  "ex_market = \<lparr>oID = ''m1'', oSide = Sell, oType = MarketOrder, oPrice = 0, oQuantity = 9, oFilledQty = 0,
     oTimestamp = 0, oNext = None, oPrev = None, oLimit = None\<rparr>"

lemma submit_reach:
  assumes "reachable u s" "room_at sd pr q s" "orders s i = None"
  shows "reachable u (fst (the (submit i sd ty pr q now s)))"
  using submit_ok [OF assms(1), of ty sd pr q i now] assms(2,3) by auto

lemma alloc_reach: "reachable u s \<Longrightarrow> reachable u (snd (NewOrder i sd ty pr q now s))"
  using reachable.alloc [OF _ surjective_pairing] .

lemma ex_vol: "level_volume Asks 100 NewOrderBook = 0" "level_volume Asks 100 ex_a = 10" "level_volume Asks 101 ex_b = 0"
  "level_volume Bids 99 ex_c = 0" "level_volume Bids 100 ex_new = 0"
  by code_simp+

lemma ex_ids: "orders NewOrderBook ''s1'' = None" "orders ex_a ''s2'' = None" "orders ex_b ''s3'' = None" "orders ex_c ''b1'' = None"
  by code_simp+

lemma ex_book_reachable: "reachable u ex_book"
proof -
  have "reachable u ex_a" unfolding ex_a_def
    by (rule submit_reach) (simp_all add: reachable.start ex_ids room_at_def ex_vol fits64_def)
  then have "reachable u ex_b" unfolding ex_b_def
    by (rule submit_reach) (simp_all add: ex_ids room_at_def ex_vol fits64_def)
  then have "reachable u ex_c" unfolding ex_c_def
    by (rule submit_reach) (simp_all add: ex_ids room_at_def ex_vol fits64_def)
  then show ?thesis unfolding ex_book_def
    by (rule submit_reach) (simp_all add: ex_ids room_at_def ex_vol fits64_def)
qed

lemma ex_new_reachable: "reachable u ex_new"
  unfolding ex_new_def by (intro alloc_reach ex_book_reachable)

lemma ex_new_orders: "new_order ex_new 4 ex_buy" "new_order ex_new 5 ex_market" "has_room ex_buy ex_new" "has_room ex_market ex_new"
proof -
  have "oheap ex_new 4 = Some ex_buy" "oheap ex_new 5 = Some ex_market" by code_simp+
  then show "new_order ex_new 4 ex_buy" "new_order ex_new 5 ex_market"
    by (simp_all add: new_order_def ex_buy_def ex_market_def)
  show "has_room ex_buy ex_new" "has_room ex_market ex_new"
    by (simp_all add: has_room_def ex_buy_def ex_market_def maker_side_def ex_vol fits64_def)
qed

lemma ex_view: "book_view ex_new = \<lparr>sbids = [(99, [(''b1'', 4)])], sasks = [(100, [(''s1'', 10), (''s2'', 5)]), (101, [(''s3'', 7)])]\<rparr>"
  by code_simp

end
