(* ===== verification/OrderBook_Props.thy ===== *)
theory OrderBook_Props
  imports OrderBook_Priority OrderBook_Examples
begin

text \<open>
  The properties of the matching engine, stated for every reachable book, each with a witness on
  the concrete book of \<open>OrderBook_Examples\<close>.
\<close>

section \<open>Shared facts\<close>

lemma reachable_ok:
  assumes "reachable u s"
  obtains f where "book_ok s f" "uncrossed (book_view s)" "u \<longrightarrow> indexed s f"
  using reachable_inv [OF assms] by (auto simp: reach_inv_def)

lemma Process_spec:
  assumes "reachable u s" "new_order s p x" "has_room x s" "Process p s = Some (s', ts)"
  shows "sprocess_order x (book_view s) = (book_view s', map abs_fill ts)" "\<forall>z \<in> set ts. TakerOrderID z = oID x"
    "\<exists>f'. book_ok s' f'" "oType x \<noteq> LimitOrder \<Longrightarrow> orders s' \<subseteq>\<^sub>m orders s"
    "dom (oheap s') = dom (oheap s)"
proof -
  obtain f where b: "book_ok s f" using assms(1) by (rule reachable_ok)
  from Process_view [OF b assms(2,3)] obtain s1 f' ts1 where "Process p s = Some (s1, ts1)" "book_ok s1 f'"
     "sprocess_order x (book_view s) = (book_view s1, map abs_fill ts1)" "\<forall>z \<in> set ts1. TakerOrderID z = oID x"
     "oType x \<noteq> LimitOrder \<longrightarrow> orders s1 \<subseteq>\<^sub>m orders s" "dom (oheap s1) = dom (oheap s)"
    by (elim exE conjE) (rule that; assumption)
  then show "sprocess_order x (book_view s) = (book_view s', map abs_fill ts)" "\<forall>z \<in> set ts. TakerOrderID z = oID x"
    "\<exists>f'. book_ok s' f'" "oType x \<noteq> LimitOrder \<Longrightarrow> orders s' \<subseteq>\<^sub>m orders s"
    "dom (oheap s') = dom (oheap s)"
    using assms(4) by auto
qed

lemma sprocess_sweep:
  assumes "sprocess acc buy rests i limit q b = (b', fs)"
  obtains r where "sweep acc q (maker_levels buy b) = (r, maker_levels buy b', fs)"
    "own_levels buy b' = (if 0 < r \<and> rests then join_level (prio buy) limit (i, r) (own_levels buy b) else own_levels buy b)"
proof -
  obtain r ms fs' where sw: "sweep acc q (maker_levels buy b) = (r, ms, fs')" by (metis prod_cases3)
  with assms have "fs' = fs" "b' = mk_book buy (if 0 < r \<and> rests then join_level (prio buy) limit (i, r) (own_levels buy b) else own_levels buy b) ms"
    by (auto simp: sprocess_def)
  with sw that show ?thesis by simp
qed

lemma levels_live: "book_ok s f \<Longrightarrow> live_qs (maker_levels buy (book_view s))"
  using book_ok_live [of s f] by (simp add: maker_levels_def)

lemma order_acc_accepts:
  "oSide x = Buy \<or> oSide x = Sell \<Longrightarrow> order_acc x = accepts (oSide x = Buy) (oType x = LimitOrder) (oPrice x)"
  by (auto simp: no_cross_def accepts_def fun_eq_iff not_less)


lemma ex_run:
  "map_option (\<lambda>(s, ts). (book_view s, map abs_fill ts)) (Process 4 ex_new) =
     Some (\<lparr>sbids = [(99, [(''b1'', 4)])], sasks = [(100, [(''s2'', 3)]), (101, [(''s3'', 7)])]\<rparr>,
       [(''s1'', 100, 10), (''s2'', 100, 2)])"
  "map_option (\<lambda>(s, ts). (book_view s, map abs_fill ts)) (Process 5 ex_new) =
     Some (\<lparr>sbids = [], sasks = [(100, [(''s1'', 10), (''s2'', 5)]), (101, [(''s3'', 7)])]\<rparr>, [(''b1'', 99, 4)])"
  by code_simp+

lemma ex_runE:
  obtains s' ts where "Process 4 ex_new = Some (s', ts)" "map abs_fill ts = [(''s1'', 100, 10), (''s2'', 100, 2)]"
    "book_view s' = \<lparr>sbids = [(99, [(''b1'', 4)])], sasks = [(100, [(''s2'', 3)]), (101, [(''s3'', 7)])]\<rparr>"
  using ex_run(1) by auto

lemma ex_marketE:
  obtains s' ts where "Process 5 ex_new = Some (s', ts)" "map abs_fill ts = [(''b1'', 99, 4)]"
    "book_view s' = \<lparr>sbids = [], sasks = [(100, [(''s1'', 10), (''s2'', 5)]), (101, [(''s3'', 7)])]\<rparr>"
  using ex_run(2) by auto

lemma ex_sides: "oSide ex_buy = Buy" "oSide ex_market = Sell" "oType ex_buy = LimitOrder" "oType ex_market = MarketOrder"
  "oID ex_buy = ''b2''" "oPrice ex_buy = 100" "oQuantity ex_buy = 12" "oQuantity ex_market = 9"
  by (simp_all add: ex_buy_def ex_market_def)

section \<open>Incoming orders\<close>

text \<open>
  C1. \<open>Process\<close> implements the price-time specification: on every reachable book, for
  a buy or sell order whose remainder does not overflow its level's volume, it returns (no
  \<open>nil\<close> dereference, no index out of range, both loops end), the trades and the new book
  are those of \<open>sprocess\<close> with the trader's limit price, and every trade names the order as
  its taker.
\<close>

theorem process_refines:
  assumes "reachable u s" "new_order s p x" "has_room x s" "oSide x = Buy \<or> oSide x = Sell"
  shows "\<exists>s' ts. Process p s = Some (s', ts) \<and>
     sprocess (accepts (oSide x = Buy) (oType x = LimitOrder) (oPrice x)) (oSide x = Buy) (oType x = LimitOrder)
       (oID x) (oPrice x) (unat (oQuantity x)) (book_view s) = (book_view s', map abs_fill ts) \<and>
     (\<forall>z \<in> set ts. TakerOrderID z = oID x)"
proof -
  obtain f where b: "book_ok s f" using assms(1) by (rule reachable_ok)
  from Process_view [OF b assms(2,3)] show ?thesis
    unfolding order_acc_accepts [OF assms(4)] by (elim exE conjE) (intro exI conjI; assumption)
qed

theorem process_refines_witness:
  "\<exists>s' ts. Process 4 ex_new = Some (s', ts) \<and>
     sprocess (accepts True True 100) True True ''b2'' 100 12 (book_view ex_new) = (book_view s', map abs_fill ts) \<and>
     (\<forall>z \<in> set ts. TakerOrderID z = ''b2'')"
  using process_refines [OF ex_new_reachable ex_new_orders(1,3)] by (simp add: ex_sides [unfolded side_defs])

text \<open>
  C2. Every reachable book is well formed: the slices and the linked queues of both sides
  satisfy the pointer invariant (\<open>Head\<close>, \<open>Tail\<close>, \<open>Next\<close>, \<open>Prev\<close> and \<open>Limit\<close>
  agree, \<open>TotalVolume\<close> is the exact sum, the index names resting orders), bids are strictly
  descending, asks strictly ascending, no level is empty, no resting order is filled, and
  every bid is below every ask.
\<close>

theorem reachable_wellformed:
  assumes "reachable u s"
  shows "\<exists>f. book_ok s f \<and> sorted_book (book_view s) \<and> uncrossed (book_view s) \<and>
     live_qs (sbids (book_view s)) \<and> live_qs (sasks (book_view s))"
proof -
  obtain f where "book_ok s f" "uncrossed (book_view s)" using assms by (rule reachable_ok)
  then show ?thesis using book_ok_sorted book_ok_live by blast
qed

theorem reachable_wellformed_witness:
  "\<exists>f. book_ok ex_new f \<and> sorted_book (book_view ex_new) \<and> uncrossed (book_view ex_new) \<and>
     live_qs (sbids (book_view ex_new)) \<and> live_qs (sasks (book_view ex_new))"
  using reachable_wellformed [OF ex_new_reachable] .

text \<open>
  C4. No request can make the engine panic or loop, whatever side, type, price or identifier a
  client sends: from a reachable book \<open>Process\<close> returns for every new order that leaves its
  level's volume within 64 bits, \<open>Cancel\<close> returns for every identifier and reports exactly
  whether the index holds it, and both lead to reachable books again.
\<close>

theorem requests_total:
  assumes "reachable u s"
  shows "(new_order s p x \<and> has_room x s \<and> (u \<longrightarrow> orders s (oID x) = None) \<longrightarrow>
       (\<exists>s' ts. Process p s = Some (s', ts) \<and> reachable u s')) \<and>
     (\<exists>s'. Cancel i s = Some (s', orders s i \<noteq> None) \<and> reachable u s')"
proof -
  obtain f where r: "reach_inv u s f" using reachable_inv [OF assms] by blast
  have "\<exists>s' ts. Process p s = Some (s', ts) \<and> reachable u s'"
    if n: "new_order s p x" "has_room x s" "u \<longrightarrow> orders s (oID x) = None"
    using reach_inv_place [OF r n] reachable.place [OF assms n] by blast
  moreover have "\<exists>s'. Cancel i s = Some (s', orders s i \<noteq> None) \<and> reachable u s'"
    using reach_inv_cancel [OF r, of i] reachable.cancel [OF assms] by blast
  ultimately show ?thesis by blast
qed

theorem requests_total_witness:
  "(\<exists>s' ts. Process 4 ex_new = Some (s', ts) \<and> reachable False s') \<and>
   (\<exists>s'. Cancel ''s2'' ex_new = Some (s', orders ex_new ''s2'' \<noteq> None) \<and> reachable False s')"
  using requests_total [OF ex_new_reachable [of False], where p = 4 and x = ex_buy and i = "''s2''"] ex_new_orders(1,3) by blast

text \<open>
  C3. Price-time priority: the trades serve the opposite side strictly in order, best price
  first and oldest first within a price.  Every maker but the last is filled completely, the
  last one keeps what is left of it at its place, and nobody behind it trades.
\<close>

theorem process_price_time:
  assumes "reachable u s" "new_order s p x" "has_room x s" "Process p s = Some (s', ts)"
  shows "served (map abs_fill ts) (queue_order (maker_levels (oSide x = Buy) (book_view s)))
     (queue_order (maker_levels (oSide x = Buy) (book_view s')))"
proof -
  obtain f where "book_ok s f" using assms(1) by (rule reachable_ok)
  moreover obtain r where "sweep (order_acc x) (unat (oQuantity x)) (maker_levels (oSide x = Buy) (book_view s)) =
      (r, maker_levels (oSide x = Buy) (book_view s'), map abs_fill ts)"
    using Process_spec(1) [OF assms] by (rule sprocess_sweep)
  ultimately show ?thesis using sweep_served levels_live by blast
qed

theorem process_price_time_witness:
  "served [(''s1'', 100, 10), (''s2'', 100, 2)] [(''s1'', 100, 10), (''s2'', 100, 5), (''s3'', 101, 7)]
     [(''s2'', 100, 3), (''s3'', 101, 7)]"
proof -
  obtain s' ts where r: "Process 4 ex_new = Some (s', ts)" "map abs_fill ts = [(''s1'', 100, 10), (''s2'', 100, 2)]"
    "book_view s' = \<lparr>sbids = [(99, [(''b1'', 4)])], sasks = [(100, [(''s2'', 3)]), (101, [(''s3'', 7)])]\<rparr>"
    by (rule ex_runE)
  from process_price_time [OF ex_new_reachable ex_new_orders(1,3) r(1)] show ?thesis
    by (simp add: r(2,3) ex_view maker_levels_def ex_sides [unfolded side_defs])
qed

text \<open>
  C5. Quantity is conserved: the units traded are those the opposite side loses, never more
  than the order asks for, and the order's own side gains exactly what a limit order did not
  trade.
\<close>

theorem process_conserves:
  assumes "reachable u s" "new_order s p x" "has_room x s" "Process p s = Some (s', ts)"
  shows "side_vol (maker_levels (oSide x = Buy) (book_view s)) =
       side_vol (maker_levels (oSide x = Buy) (book_view s')) + fill_vol (map abs_fill ts) \<and>
     fill_vol (map abs_fill ts) \<le> unat (oQuantity x) \<and>
     side_vol (own_levels (oSide x = Buy) (book_view s')) = side_vol (own_levels (oSide x = Buy) (book_view s)) +
       (if oType x = LimitOrder then unat (oQuantity x) - fill_vol (map abs_fill ts) else 0)"
proof -
  obtain r where sw: "sweep (order_acc x) (unat (oQuantity x)) (maker_levels (oSide x = Buy) (book_view s)) =
      (r, maker_levels (oSide x = Buy) (book_view s'), map abs_fill ts)" and
    own: "own_levels (oSide x = Buy) (book_view s') = (if 0 < r \<and> oType x = LimitOrder
      then join_level (prio (oSide x = Buy)) (oPrice x) (oID x, r) (own_levels (oSide x = Buy) (book_view s))
      else own_levels (oSide x = Buy) (book_view s))"
    using Process_spec(1) [OF assms] by (rule sprocess_sweep)
  note c = sweep_conserves [OF sw]
  then have "r = unat (oQuantity x) - fill_vol (map abs_fill ts)" by linarith
  then show ?thesis
    unfolding own using c price_priority.join_level_vol [OF prio_priority] by simp
qed

theorem process_conserves_witness:
  "\<exists>s' ts. Process 4 ex_new = Some (s', ts) \<and> side_vol (sasks (book_view ex_new)) = 22 \<and>
     side_vol (sasks (book_view s')) + fill_vol (map abs_fill ts) = 22 \<and> fill_vol (map abs_fill ts) = 12"
proof -
  obtain s' ts where r: "Process 4 ex_new = Some (s', ts)" "map abs_fill ts = [(''s1'', 100, 10), (''s2'', 100, 2)]"
    by (rule ex_runE)
  from process_conserves [OF ex_new_reachable ex_new_orders(1,3) r(1)] show ?thesis
    using r by (simp add: ex_view maker_levels_def ex_sides [unfolded side_defs])
qed

text \<open>
  C6. A limit order never trades through its limit: every trade of a buy order is at or below
  its price, every trade of a sell order at or above it, at a price that rests in the book,
  and for a positive quantity.
\<close>

theorem process_respects_limit:
  assumes "reachable u s" "new_order s p x" "has_room x s" "Process p s = Some (s', ts)"
    and "oSide x = Buy \<or> oSide x = Sell" "oType x = LimitOrder" "z \<in> set ts"
  shows "(if oSide x = Buy then tPrice z \<le> oPrice x else oPrice x \<le> tPrice z) \<and> 0 < tQuantity z \<and>
     tPrice z \<in> fst ` set (maker_levels (oSide x = Buy) (book_view s))"
proof -
  obtain f where b: "book_ok s f" using assms(1) by (rule reachable_ok)
  obtain r where sw: "sweep (order_acc x) (unat (oQuantity x)) (maker_levels (oSide x = Buy) (book_view s)) =
      (r, maker_levels (oSide x = Buy) (book_view s'), map abs_fill ts)"
    using Process_spec(1) [OF assms(1-4)] by (rule sprocess_sweep)
  have "abs_fill z \<in> set (map abs_fill ts)" using assms(7) by simp
  with sweep_fills [OF sw levels_live [OF b]] have "order_acc x (tPrice z)" "0 < unat (tQuantity z)"
     "tPrice z \<in> fst ` set (maker_levels (oSide x = Buy) (book_view s))"
    by (auto simp: abs_fill_def)
  then show ?thesis using fun_cong [OF order_acc_accepts [OF assms(5)], of "tPrice z"] assms(6) by (simp add: accepts_def word_less_nat_alt)
qed

theorem process_respects_limit_witness:
  "\<exists>s' ts. Process 4 ex_new = Some (s', ts) \<and> length ts = 2 \<and> tPrice (ts ! 1) \<le> 100 \<and> 0 < tQuantity (ts ! 1)"
proof -
  obtain s' ts where r: "Process 4 ex_new = Some (s', ts)" "map abs_fill ts = [(''s1'', 100, 10), (''s2'', 100, 2)]"
    by (rule ex_runE)
  from r(2) have l: "length ts = 2" by (metis length_map list.size(3,4) One_nat_def Suc_1 add_Suc_right add_0_right)
  from process_respects_limit [OF ex_new_reachable ex_new_orders(1,3) r(1), of "ts ! 1"] l r(1) show ?thesis
    by (simp add: ex_sides [unfolded side_defs])
qed


text \<open>
  Matching is complete: when a limit order still has units left, no level of the opposite
  side is at a price it accepts; when a market order does, the opposite side is empty.
\<close>

theorem process_exhausts:
  assumes "reachable u s" "new_order s p x" "has_room x s" "Process p s = Some (s', ts)"
    and "oSide x = Buy \<or> oSide x = Sell" "fill_vol (map abs_fill ts) < unat (oQuantity x)"
  shows "\<forall>pr \<in> fst ` set (maker_levels (oSide x = Buy) (book_view s')).
      oType x = LimitOrder \<and> (if oSide x = Buy then oPrice x < pr else pr < oPrice x)"
proof -
  obtain f' where b: "book_ok s' f'" using Process_spec(3) [OF assms(1-4)] by blast
  obtain r where sw: "sweep (order_acc x) (unat (oQuantity x)) (maker_levels (oSide x = Buy) (book_view s)) =
      (r, maker_levels (oSide x = Buy) (book_view s'), map abs_fill ts)"
    using Process_spec(1) [OF assms(1-4)] by (rule sprocess_sweep)
  define ms where "ms = maker_levels (oSide x = Buy) (book_view s')"
  have srt: "sorted_wrt (prio (oSide x \<noteq> Buy)) (map fst ms)"
    using book_ok_sorted [OF b] sorted_book_levels [of _ "oSide x = Buy"] by (simp add: ms_def)
  have "0 < r" using sweep_conserves [OF sw] assms(6) by linarith
  then have h: "ms \<noteq> [] \<longrightarrow> no_cross x (fst (hd ms))" using sweep_exhausts [OF sw] by (auto simp: ms_def)
  have "oType x = LimitOrder \<and> prio (oSide x \<noteq> Buy) (oPrice x) pr" if pr: "pr \<in> fst ` set ms" for pr
  proof -
    obtain m ms' where ms: "ms = m # ms'" using pr by (cases ms) auto
    then have "no_cross x (fst m)" using h by simp
    then have t: "oType x = LimitOrder" "prio (oSide x \<noteq> Buy) (oPrice x) (fst m)"
      using order_acc_prio [of x "fst m"] by (auto simp: no_cross_def)
    moreover have "pr = fst m \<or> prio (oSide x \<noteq> Buy) (fst m) pr" using pr ms srt by auto
    ultimately show ?thesis using price_priority.lt_trans [OF prio_priority] by blast
  qed
  then have "\<forall>pr \<in> fst ` set ms. oType x = LimitOrder \<and> prio (oSide x \<noteq> Buy) (oPrice x) pr" by blast
  then show ?thesis unfolding ms_def [symmetric]
    by (cases "oSide x = Buy") (simp_all add: prio_def better_bid_def better_ask_def)
qed

theorem process_exhausts_witness:
  "\<exists>s' ts. Process 5 ex_new = Some (s', ts) \<and> sbids (book_view s') = []"
proof -
  obtain s' ts where r: "Process 5 ex_new = Some (s', ts)" "map abs_fill ts = [(''b1'', 99, 4)]"
    by (rule ex_marketE)
  from process_exhausts [OF ex_new_reachable ex_new_orders(2,4) r(1)] r show ?thesis
    by (auto simp: ex_sides [unfolded side_defs] maker_levels_def)
qed

text \<open>
  An order that is not a limit order never rests: its own side is unchanged and the trades
  of the new book leave no entry under its identifier in the index that was not there before.
\<close>

theorem market_never_rests:
  assumes "reachable u s" "new_order s p x" "has_room x s" "Process p s = Some (s', ts)" "oType x \<noteq> LimitOrder"
  shows "own_levels (oSide x = Buy) (book_view s') = own_levels (oSide x = Buy) (book_view s) \<and> orders s' \<subseteq>\<^sub>m orders s"
proof -
  obtain r where "own_levels (oSide x = Buy) (book_view s') = (if 0 < r \<and> oType x = LimitOrder
      then join_level (prio (oSide x = Buy)) (oPrice x) (oID x, r) (own_levels (oSide x = Buy) (book_view s))
      else own_levels (oSide x = Buy) (book_view s))"
    using Process_spec(1) [OF assms(1-4)] by (rule sprocess_sweep)
  then show ?thesis using Process_spec(4) [OF assms] assms(5) by simp
qed

theorem market_never_rests_witness:
  "\<exists>s' ts. Process 5 ex_new = Some (s', ts) \<and> sasks (book_view s') = sasks (book_view ex_new) \<and> orders s' \<subseteq>\<^sub>m orders ex_new"
proof -
  obtain s' ts where r: "Process 5 ex_new = Some (s', ts)" by (rule ex_marketE)
  from market_never_rests [OF ex_new_reachable ex_new_orders(2,4) r] r show ?thesis
    by (simp add: ex_sides [unfolded side_defs] own_levels_def)
qed

text \<open>
  A cancellation of an identifier in the index removes exactly one resting order of that
  identifier, and its level if that was the last order there; everything else keeps its place
  and quantity, and the identifier leaves the index.
\<close>

theorem cancel_removes_one:
  assumes "reachable u s" "orders s i \<noteq> None"
  shows "\<exists>s' buy ls. Cancel i s = Some (s', True) \<and> removes_one i (own_levels buy (book_view s)) ls \<and>
     book_view s' = mk_book buy ls (maker_levels buy (book_view s)) \<and> orders s' = (orders s)(i := None)"
proof -
  obtain f where b: "book_ok s f" using assms(1) by (rule reachable_ok)
  obtain p where "orders s i = Some p" using assms(2) by blast
  from Cancel_view [OF b this] show ?thesis
    by (elim exE conjE) (intro exI conjI; assumption)
qed

lemma ex_s2: "orders ex_new ''s2'' = Some 1"
  by code_simp

theorem cancel_removes_one_witness:
  "\<exists>s' buy ls. Cancel ''s2'' ex_new = Some (s', True) \<and> removes_one ''s2'' (own_levels buy (book_view ex_new)) ls \<and>
     book_view s' = mk_book buy ls (maker_levels buy (book_view ex_new)) \<and> orders s' = (orders ex_new)(''s2'' := None)"
  using cancel_removes_one [OF ex_new_reachable, of "''s2''"] ex_s2 by simp

lemma cancel_unique_view:
  assumes "reachable True s" "orders s i \<noteq> None"
  shows "\<exists>s'. Cancel i s = Some (s', True) \<and> book_view s' = scancel i (book_view s)"
proof -
  obtain f where b: "book_ok s f" "indexed s f" using assms(1) by (rule reachable_ok) simp
  obtain p where "orders s i = Some p" using assms(2) by blast
  then obtain s' buy ls where "Cancel i s = Some (s', True)" "removes_one i (own_levels buy (book_view s)) ls"
     "book_view s' = mk_book buy ls (maker_levels buy (book_view s))"
    using Cancel_view [OF b(1)] by blast
  then show ?thesis
    using mk_book_scancel [OF _ indexed_ids(1) [OF b] book_ok_live [OF b(1)]] by auto
qed

text \<open>
  C18. When no order is placed under the identifier of a resting one, the index is exactly the
  set of resting identifiers, these are distinct, and \<open>Cancel\<close> is deletion by identifier on
  the whole book: it succeeds exactly for the orders that rest.
\<close>

theorem cancel_by_identifier:
  assumes "reachable True s"
  shows "distinct (book_ids (book_view s)) \<and>
     (\<exists>s'. Cancel i s = Some (s', i \<in> set (book_ids (book_view s))) \<and> book_view s' = scancel i (book_view s))"
proof -
  obtain f where b: "book_ok s f" "indexed s f" using assms by (rule reachable_ok) simp
  note ids = indexed_ids [OF b]
  have "\<exists>s'. Cancel i s = Some (s', False) \<and> book_view s' = scancel i (book_view s)" if n: "orders s i = None"
  proof -
    have "i \<notin> set (ids_of (sbids (book_view s)))" "i \<notin> set (ids_of (sasks (book_view s)))"
      using n ids(2) [of i] by (auto simp: book_ids_def)
    then have "scancel i (book_view s) = book_view s"
      using drop_order_id book_ok_live [OF b(1)] by (simp add: scancel_def)
    then show ?thesis using n by (simp add: Cancel_def)
  qed
  then show ?thesis using ids cancel_unique_view [OF assms, of i] by (cases "orders s i") auto
qed

theorem cancel_by_identifier_witness:
  "\<exists>s'. Cancel ''s2'' ex_new = Some (s', True) \<and>
     book_view s' = \<lparr>sbids = [(99, [(''b1'', 4)])], sasks = [(100, [(''s1'', 10)]), (101, [(''s3'', 7)])]\<rparr>"
  using cancel_by_identifier [OF ex_new_reachable, of "''s2''"]
  by (simp add: ex_view book_ids_def ids_of_def scancel_def)



lemma ex_rest:
  "new_order (snd (NewOrder ''b3'' Buy LimitOrder 99 6 0 ex_book)) 4
     \<lparr>oID = ''b3'', oSide = Buy, oType = LimitOrder, oPrice = 99, oQuantity = 6, oFilledQty = 0,
      oTimestamp = 0, oNext = None, oPrev = None, oLimit = None\<rparr>"
  "level_volume Bids 99 (snd (NewOrder ''b3'' Buy LimitOrder 99 6 0 ex_book)) = 4"
  "orders (snd (NewOrder ''b3'' Buy LimitOrder 99 6 0 ex_book)) ''b3'' = None"
  "book_view (snd (NewOrder ''b3'' Buy LimitOrder 99 6 0 ex_book)) =
     \<lparr>sbids = [(99, [(''b1'', 4)])], sasks = [(100, [(''s1'', 10), (''s2'', 5)]), (101, [(''s3'', 7)])]\<rparr>"
  unfolding new_order_def by code_simp+


section \<open>Reading the book\<close>

text \<open>
  C20. \<open>GetDepth\<close> of a reachable book returns the first \<open>depth\<close> levels of each side, best
  first, with their prices and the exact sums of the quantities that rest there; a negative
  depth panics in \<open>make\<close>.
\<close>

theorem GetDepth_exact:
  assumes "reachable u s"
  shows "(depth < 0 \<longrightarrow> GetDepth depth s = None) \<and> (0 \<le> depth \<longrightarrow>
     (\<exists>bs as. GetDepth depth s = Some (bs, as) \<and>
        map abs_depth bs = depth_levels (nat depth) (sbids (book_view s)) \<and>
        map abs_depth as = depth_levels (nat depth) (sasks (book_view s))))"
proof -
  obtain f where "book_ok s f" using assms(1) by (rule reachable_ok)
  then show ?thesis using GetDepth_ok [of s f depth]
    by (simp add: book_view_ok babs_def) (simp add: GetDepth_def)
qed

theorem GetDepth_exact_witness:
  "GetDepth (-1) ex_new = None \<and>
   (\<exists>bs as. GetDepth 1 ex_new = Some (bs, as) \<and> map abs_depth bs = [(99, 4)] \<and> map abs_depth as = [(100, 15)])"
  using GetDepth_exact [OF ex_new_reachable, of "-1"] GetDepth_exact [OF ex_new_reachable, of 1]
  by (simp add: ex_view depth_levels_def)


section \<open>The data structures below\<close>

text \<open>
  The linked list of a price level is a queue with deletion: \<open>AddOrder\<close> appends at the
  tail, and afterwards \<open>RemoveOrder\<close> of any queued order, first, last or in the middle,
  unlinks exactly that order, with \<open>Head\<close>, \<open>Tail\<close>, all links and the volume in step.
\<close>

theorem level_queue:
  assumes "is_level h l ps" "p \<notin> set ps" "oheap h p = Some x" "oNext x = None" "oPrev x = None"
  shows "\<exists>h1. AddOrder l p h = Some h1 \<and> is_level h1 l (ps @ [p]) \<and>
     (\<forall>q \<in> set (ps @ [p]). \<exists>h2. RemoveOrder l q h1 = Some h2 \<and> is_level h2 l (remove1 q (ps @ [p])))"
proof -
  obtain h1 where h1: "AddOrder l p h = Some h1" "is_level h1 l (ps @ [p])" using AddOrder_ok [OF assms] by blast
  have "\<exists>h2. RemoveOrder l q h1 = Some h2 \<and> is_level h2 l (remove1 q (ps @ [p]))" if q: "q \<in> set (ps @ [p])" for q
  proof -
    obtain as bs where ab: "ps @ [p] = as @ q # bs" "q \<notin> set as" using q by (meson split_list_first)
    have "\<exists>y. oheap h1 q = Some y" using h1(2) q unfolding is_level_def by (blast dest: chain_dom)
    then obtain y where "oheap h1 q = Some y" ..
    from RemoveOrder_ok [OF h1(2) [unfolded ab(1)] this] show ?thesis
      unfolding ab(1) remove1_append using ab(2) by auto
  qed
  with h1 show ?thesis by blast
qed

definition ex_heap :: heap where
  "ex_heap = snd (NewOrder ''b'' Buy LimitOrder 5 2 0 (snd (NewOrder ''a'' Buy LimitOrder 5 1 0
     (snd (NewLimit 5 \<lparr>oheap = Map.empty, lheap = Map.empty, onext = 0, lnext = 0\<rparr>)))))"

theorem level_queue_witness:
  "\<exists>h1. AddOrder 0 1 ex_heap = Some h1 \<and> is_level h1 0 [1] \<and>
     (\<exists>h2. RemoveOrder 0 1 h1 = Some h2 \<and> is_level h2 0 [])"
  using level_queue [of ex_heap 0 "[]" 1]
  by (simp add: ex_heap_def NewOrder_def NewLimit_def is_level_def)

text \<open>
  The binary search for a price finds what a linear scan finds: the number of levels of
  that side which are strictly better than the price, the place where the level is or belongs.
\<close>

theorem find_level_linear:
  assumes "reachable u s"
  shows "find_level w pr (w = Bids) s =
     Some (length (takeWhile (\<lambda>l. prio (w = Bids) (fst l) pr) (own_levels (w = Bids) (book_view s))))"
proof -
  obtain f where b: "book_ok s f" using assms by (rule reachable_ok)
  obtain P R where Q: "f w = P @ R" and P: "\<forall>y \<in> set P. prio (w = Bids) (price_of s (fst y)) pr"
    and R: "R \<noteq> [] \<longrightarrow> \<not> prio (w = Bids) (price_of s (fst (hd R))) pr"
    by (rule side_split [of "f w" "w = Bids" s pr])
  have "find_level w pr (w = Bids) s = Some (length P)"
    using find_level_ok [OF book_okD(1) [OF b, of w, unfolded Q] side_ok_sorted_levels [OF book_okD(2) [OF b, of w, unfolded Q]] P] R
    by simp
  moreover have "own_levels (w = Bids) (book_view s) = sabs s (f w)"
    by (cases w) (simp_all add: book_view_ok [OF b] babs_def own_levels_def)
  moreover have "takeWhile (\<lambda>l. prio (w = Bids) (fst l) pr) (sabs s P @ sabs s R) = sabs s P"
  proof -
    have "takeWhile (\<lambda>l. prio (w = Bids) (fst l) pr) (sabs s R) = []" using R by (cases R) simp_all
    moreover have "\<forall>l \<in> set (sabs s P). prio (w = Bids) (fst l) pr" using P by (auto simp: sabs_def)
    ultimately show ?thesis by (simp add: takeWhile_append2)
  qed
  ultimately show ?thesis using Q by (simp add: sabs_def)
qed

theorem find_level_linear_witness: "find_level Asks 101 False ex_new = Some 1"
  using find_level_linear [OF ex_new_reachable, of Asks 101]
  by (simp add: ex_view own_levels_def prio_def better_ask_def)

section \<open>Where the code departs from its own rules\<close>

text \<open>
  A limit order whose \<open>Side\<close> is neither \<open>Buy\<close> nor \<open>Sell\<close> (the API passes any integer
  through) skips the price test: it sells into every bid whatever its limit price is.
\<close>

theorem unknown_side_ignores_limit:
  assumes "reachable u s" "new_order s p x" "has_room x s" "oSide x \<noteq> Buy" "oSide x \<noteq> Sell"
  shows "\<exists>s' ts. Process p s = Some (s', ts) \<and>
     sprocess (\<lambda>_. True) False (oType x = LimitOrder) (oID x) (oPrice x) (unat (oQuantity x)) (book_view s) =
       (book_view s', map abs_fill ts)"
proof -
  obtain f where b: "book_ok s f" using assms(1) by (rule reachable_ok)
  have "order_acc x = (\<lambda>_. True)" using assms(4,5) by (simp add: no_cross_def fun_eq_iff)
  with Process_view [OF b assms(2,3)] assms(4) show ?thesis
    by (elim exE conjE) (intro exI conjI; simp)
qed

lemma ex_odd:
  "new_order (snd (NewOrder ''o'' 2 LimitOrder 500 3 0 ex_book)) 4
     \<lparr>oID = ''o'', oSide = 2, oType = LimitOrder, oPrice = 500, oQuantity = 3, oFilledQty = 0,
      oTimestamp = 0, oNext = None, oPrev = None, oLimit = None\<rparr>"
  "level_volume Asks 500 (snd (NewOrder ''o'' 2 LimitOrder 500 3 0 ex_book)) = 0"
  "book_view (snd (NewOrder ''o'' 2 LimitOrder 500 3 0 ex_book)) =
     \<lparr>sbids = [(99, [(''b1'', 4)])], sasks = [(100, [(''s1'', 10), (''s2'', 5)]), (101, [(''s3'', 7)])]\<rparr>"
  unfolding new_order_def by code_simp+

theorem unknown_side_ignores_limit_witness:
  "\<exists>s' ts. Process 4 (snd (NewOrder ''o'' 2 LimitOrder 500 3 0 ex_book)) = Some (s', ts) \<and>
     map abs_fill ts = [(''b1'', 99, 3)]"
  using unknown_side_ignores_limit [OF alloc_reach [OF ex_book_reachable] ex_odd(1)] ex_odd(2,3)
  by (simp add: has_room_def maker_side_def fits64_def sprocess_def maker_levels_def) metis

text \<open>
  Identifiers are not checked for uniqueness: a second order under the same identifier
  takes over the index entry, so the first one can no longer be cancelled although it rests.
\<close>

theorem duplicate_identifier_orphans:
  "(do { (s, _) \<leftarrow> submit ''x'' Sell LimitOrder 100 10 0 NewOrderBook;
         (s, _) \<leftarrow> submit ''x'' Sell LimitOrder 101 7 0 s;
         (s, ok1) \<leftarrow> Cancel ''x'' s;
         (s, ok2) \<leftarrow> Cancel ''x'' s;
         Some (ok1, ok2, sasks (book_view s)) }) = Some (True, False, [(100, [(''x'', 10)])])"
  by code_simp

text \<open>
  The volume bound is needed: \<open>TotalVolume\<close> is a \<open>uint64\<close> and wraps.  With two
  resting orders of \<open>2\<^sup>6\<^sup>3\<close> units each at one price, cancelling a third one brings it to zero,
  and \<open>Cancel\<close> drops the level with both orders still in it and in the index.
\<close>

theorem volume_overflow_drops_level:
  "(do { (s, _) \<leftarrow> submit ''s1'' Sell LimitOrder 100 9223372036854775808 0 NewOrderBook;
         (s, _) \<leftarrow> submit ''s2'' Sell LimitOrder 100 9223372036854775808 0 s;
         (s, _) \<leftarrow> submit ''s3'' Sell LimitOrder 100 5 0 s;
         (s, ok) \<leftarrow> Cancel ''s3'' s;
         Some (ok, asks s, orders s ''s1'', orders s ''s2'') }) = Some (True, [], Some 0, Some 1)"
  by code_simp

end
