(* ===== verification/Go_Strconv.thy ===== *)
theory Go_Strconv
  imports Platform_Prelude
begin

text \<open>
  Decimal text as Go reads and prints it: \<open>strconv.Atoi\<close> with its range check, \<open>%d\<close> and
  \<open>%03d\<close> of \<open>fmt\<close>, \<open>bytes.IndexByte\<close>, and that reading inverts printing.
\<close>

section \<open>Digits\<close>

definition is_digit :: "char \<Rightarrow> bool" where
  "is_digit c \<longleftrightarrow> 48 \<le> (of_char c :: nat) \<and> (of_char c :: nat) \<le> 57"

definition digit_val :: "char \<Rightarrow> nat" where
  "digit_val c = of_char c - 48"

definition digit :: "nat \<Rightarrow> char" where
  "digit d = char_of (48 + d)"

fun dec :: "nat \<Rightarrow> string" where
  "dec n = (if n < 10 then [digit n] else dec (n div 10) @ [digit (n mod 10)])"

declare dec.simps [simp del]

definition dec_int :: "int \<Rightarrow> string" where
  "dec_int i = (if i < 0 then CHR ''-'' # dec (nat (- i)) else dec (nat i))"

definition dec3 :: "nat \<Rightarrow> string" where
  "dec3 n = replicate (3 - length (dec n)) CHR ''0'' @ dec n"

lemma of_char_digit: "d < 10 \<Longrightarrow> of_char (digit d) = (48 + d :: nat)"
  by (simp add: digit_def)

lemma digit_facts [simp]: "d < 10 \<Longrightarrow> is_digit (digit d)" "d < 10 \<Longrightarrow> digit_val (digit d) = d"
  by (simp_all add: is_digit_def digit_val_def of_char_digit)

lemma dec_digits: "\<forall>c \<in> set (dec n). is_digit c"
proof (induction n rule: dec.induct)
  case (1 n)
  then show ?case by (simp add: dec.simps [of n])
qed

lemma dec_ne [simp]: "dec n \<noteq> []"
  by (simp add: dec.simps [of n])

section \<open>Reading\<close>

fun atoi_digits :: "string \<Rightarrow> nat \<Rightarrow> nat option" where
  "atoi_digits [] a = Some a"
| "atoi_digits (c # cs) a = (if is_digit c then atoi_digits cs (a * 10 + digit_val c) else None)"

definition fits63 :: "nat \<Rightarrow> bool" where
  "fits63 n \<longleftrightarrow> n < 2 ^ 63"

lemma fits63_code [code]: "fits63 n \<longleftrightarrow> int n < 9223372036854775808"
  by (simp add: fits63_def)

definition Atoi :: "string \<Rightarrow> int option" where
  "Atoi s = (case s of
     [] \<Rightarrow> None
   | c # cs \<Rightarrow>
       let (neg, ds) = (if c = CHR ''-'' then (True, cs) else if c = CHR ''+'' then (False, cs) else (False, s)) in
       if ds = [] then None
       else (case atoi_digits ds 0 of
         None \<Rightarrow> None
       | Some n \<Rightarrow> if fits63 n then Some (if neg then - int n else int n)
                  else if neg \<and> n = 2 ^ 63 then Some (- int n) else None))"

lemma atoi_digits_append: "atoi_digits (xs @ ys) a = Option.bind (atoi_digits xs a) (atoi_digits ys)"
  by (induction xs arbitrary: a) auto

lemma atoi_dec: "atoi_digits (dec n) 0 = Some n"
proof (induction n rule: dec.induct)
  case (1 n)
  then show ?case by (simp add: dec.simps [of n] atoi_digits_append)
qed

lemma not_digit [simp]: "\<not> is_digit CHR ''-''" "\<not> is_digit CHR ''+''" "\<not> is_digit CHR ''=''" "\<not> is_digit (CHR 0x01)"
  by (simp_all add: is_digit_def)

lemma Atoi_dec: "fits63 n \<Longrightarrow> Atoi (dec n) = Some (int n)"
proof -
  assume n: "fits63 n"
  obtain c cs where d: "dec n = c # cs" by (cases "dec n") auto
  then have "c \<noteq> CHR ''-''" "c \<noteq> CHR ''+''" using dec_digits [of n] by auto
  with n d atoi_dec [of n] show ?thesis by (simp add: Atoi_def)
qed

lemma Atoi_dec_int: "fits63 (nat \<bar>i\<bar>) \<Longrightarrow> Atoi (dec_int i) = Some i"
proof (cases "i < 0")
  case True
  assume "fits63 (nat \<bar>i\<bar>)"
  with True show ?thesis by (simp add: dec_int_def Atoi_def atoi_dec)
qed (simp add: dec_int_def Atoi_dec)

section \<open>Searching\<close>

fun IndexByte :: "string \<Rightarrow> char \<Rightarrow> nat option" where
  "IndexByte [] c = None"
| "IndexByte (x # xs) c = (if x = c then Some 0 else map_option Suc (IndexByte xs c))"

lemma IndexByte_split: "c \<notin> set xs \<Longrightarrow> IndexByte (xs @ c # ys) c = Some (length xs)"
  by (induction xs) auto

lemma IndexByte_None: "IndexByte xs c = None \<longleftrightarrow> c \<notin> set xs"
  by (induction xs) auto

lemma IndexByte_Some: "IndexByte xs c = Some k \<Longrightarrow> k < length xs \<and> xs ! k = c \<and> c \<notin> set (take k xs)"
  by (induction xs arbitrary: k) (auto split: if_splits)

text \<open>The Go slice expression \<open>data[i:j]\<close>.\<close>

definition go_slice :: "'a list \<Rightarrow> nat \<Rightarrow> nat \<Rightarrow> 'a list" where
  "go_slice xs i j = take (j - i) (drop i xs)"

lemma go_slice_append: "go_slice (xs @ ys @ zs) (length xs) (length xs + length ys) = ys"
  by (simp add: go_slice_def)

end
