(* ===== verification/Fix_Parser.thy ===== *)
theory Fix_Parser
  imports Go_Strconv
begin

text \<open>
  The FIX parser of \<open>pkg/fix/parser.go\<close>.  \<open>Parse\<close> records the boundaries of each
  \<open>tag=value\<close> field in the raw buffer, and the getters slice the buffer; a slice expression
  out of range would be a panic (\<open>None\<close>).
\<close>

section \<open>Messages\<close>

definition SOH :: char where "SOH = CHR 0x01"

record tag_value =
  tvTag :: int
  tvStart :: nat
  tvEnd :: nat

record message =
  raw :: string
  tags :: "tag_value list"

definition NewMessage :: message where
  "NewMessage = \<lparr>raw = [], tags = []\<rparr>"

text \<open>
  The loop of \<open>Parse\<close>: the tags recorded so far, with \<open>True\<close> when it stopped at a tag that is
  not an integer.
\<close>

function parse_loop :: "string \<Rightarrow> nat \<Rightarrow> tag_value list \<Rightarrow> tag_value list \<times> bool" where
  "parse_loop data idx tvs =
     (if idx < length data then
        (case IndexByte (drop idx data) CHR ''='' of
           None \<Rightarrow> (tvs, False)
         | Some e \<Rightarrow>
             let eqIdx = e + idx in
             (case Atoi (go_slice data idx eqIdx) of
                None \<Rightarrow> (tvs, True)
              | Some tagVal \<Rightarrow>
                  let sohIdx = (case IndexByte (drop eqIdx data) SOH of
                                  None \<Rightarrow> length data - eqIdx | Some k \<Rightarrow> k) + eqIdx in
                  parse_loop data (sohIdx + 1) (tvs @ [\<lparr>tvTag = tagVal, tvStart = eqIdx + 1, tvEnd = sohIdx\<rparr>])))
      else (tvs, False))"
  by pat_completeness auto
termination
  by (relation "measure (\<lambda>(data, idx, tvs). length data - idx)") (auto split: option.splits)

declare parse_loop.simps [simp del]

text \<open>\<open>Parse\<close> keeps what it recorded even when it returns its error.\<close>

definition Parse :: "string \<Rightarrow> message \<Rightarrow> message \<times> string option" where
  "Parse data m = (case parse_loop data 0 [] of (tvs, bad) \<Rightarrow>
     (m\<lparr>raw := data, tags := tvs\<rparr>, if bad then Some ''invalid tag format'' else None))"

definition slice_at :: "string \<Rightarrow> nat \<Rightarrow> nat \<Rightarrow> string option" where
  "slice_at data i j = (if i \<le> j \<and> j \<le> length data then Some (go_slice data i j) else None)"

fun field_loop :: "string \<Rightarrow> int \<Rightarrow> tag_value list \<Rightarrow> (string \<times> bool) option" where
  "field_loop data t [] = Some ('''', False)"
| "field_loop data t (tv # tvs) = (if tvTag tv = t
     then do { v \<leftarrow> slice_at data (tvStart tv) (tvEnd tv); Some (v, True) }
     else field_loop data t tvs)"

definition GetField :: "int \<Rightarrow> message \<Rightarrow> (string \<times> bool) option" where
  "GetField t m = field_loop (raw m) t (tags m)"

definition GetString :: "int \<Rightarrow> message \<Rightarrow> (string \<times> bool) option" where
  "GetString t m = do { (v, found) \<leftarrow> GetField t m; Some (if found then (v, True) else ('''', False)) }"

text \<open>\<open>GetInt\<close> accumulates in an \<open>int\<close> of 64 bits, which wraps.\<close>

fun int_loop :: "string \<Rightarrow> 64 word \<Rightarrow> 64 word option" where
  "int_loop [] res = Some res"
| "int_loop (b # bs) res = (if is_digit b then int_loop bs (res * 10 + of_nat (digit_val b)) else None)"

definition GetInt :: "int \<Rightarrow> message \<Rightarrow> (string + int) option" where
  "GetInt t m = do {
     (v, found) \<leftarrow> GetField t m;
     Some (if \<not> found then Inl ''tag not found''
           else (case int_loop v 0 of None \<Rightarrow> Inl ''invalid integer value'' | Some res \<Rightarrow> Inr (sint res))) }"

section \<open>Every boundary is in range\<close>

definition tv_ok :: "string \<Rightarrow> tag_value \<Rightarrow> bool" where
  "tv_ok data tv \<longleftrightarrow> tvStart tv \<le> tvEnd tv \<and> tvEnd tv \<le> length data \<and> SOH \<notin> set (go_slice data (tvStart tv) (tvEnd tv))"

lemma soh_bounds:
  assumes "eqIdx < length data" "data ! eqIdx = CHR ''=''"
    and k: "k = (case IndexByte (drop eqIdx data) SOH of None \<Rightarrow> length data - eqIdx | Some k \<Rightarrow> k) + eqIdx"
  shows "tv_ok data \<lparr>tvTag = t, tvStart = eqIdx + 1, tvEnd = k\<rparr>"
proof (cases "IndexByte (drop eqIdx data) SOH")
  case None
  have "set (drop (Suc eqIdx) data) \<subseteq> set (drop eqIdx data)" by (simp add: set_drop_subset_set_drop)
  then have "SOH \<notin> set (drop (Suc eqIdx) data)" using None by (auto simp: IndexByte_None)
  then show ?thesis using assms None by (simp add: tv_ok_def go_slice_def)
next
  case (Some j)
  note i = IndexByte_Some [OF Some]
  have "drop eqIdx data ! 0 \<noteq> SOH" using assms(1,2) by (simp add: SOH_def)
  then have j: "0 < j" using i by (cases j) auto
  have "set (take (j - 1) (drop (Suc eqIdx) data)) \<subseteq> set (take j (drop eqIdx data))"
  proof -
    have "drop eqIdx data = data ! eqIdx # drop (Suc eqIdx) data" using assms(1) by (simp add: Cons_nth_drop_Suc)
    then show ?thesis using j by (cases j) auto
  qed
  then have "SOH \<notin> set (take (j - 1) (drop (Suc eqIdx) data))" using i by blast
  moreover have "j + eqIdx \<le> length data" using i assms(1) by auto
  ultimately show ?thesis using assms(3) Some j by (simp add: tv_ok_def go_slice_def)
qed

lemma parse_loop_ok:
  "\<forall>tv \<in> set tvs. tv_ok data tv \<Longrightarrow> \<forall>tv \<in> set (fst (parse_loop data idx tvs)). tv_ok data tv"
proof (induction data idx tvs rule: parse_loop.induct)
  case (1 data idx tvs)
  show ?case
  proof (cases "idx < length data \<and> IndexByte (drop idx data) CHR ''='' \<noteq> None")
    case False
    then show ?thesis using 1(2) by (auto simp: parse_loop.simps [of data idx tvs])
  next
    case True
    then obtain e where e: "IndexByte (drop idx data) CHR ''='' = Some e" by blast
    note i = IndexByte_Some [OF e]
    show ?thesis
    proof (cases "Atoi (go_slice data idx (e + idx))")
      case None
      then show ?thesis using 1(2) True e by (simp add: parse_loop.simps [of data idx tvs])
    next
      case (Some t)
      define k where "k = (case IndexByte (drop (e + idx) data) SOH of None \<Rightarrow> length data - (e + idx) | Some k \<Rightarrow> k) + (e + idx)"
      have "tv_ok data \<lparr>tvTag = t, tvStart = (e + idx) + 1, tvEnd = k\<rparr>"
        by (rule soh_bounds) (use i True in \<open>auto simp: k_def add.commute\<close>)
      then have "\<forall>tv \<in> set (tvs @ [\<lparr>tvTag = t, tvStart = (e + idx) + 1, tvEnd = k\<rparr>]). tv_ok data tv" using 1(2) by simp
      from 1(1) [OF conjunct1 [OF True] e refl Some k_def this] show ?thesis
        using True by (subst parse_loop.simps) (simp add: e Some k_def Let_def)
    qed
  qed
qed

lemma field_loop_total:
  "\<forall>tv \<in> set tvs. tv_ok data tv \<Longrightarrow> \<exists>v b. field_loop data t tvs = Some (v, b) \<and> SOH \<notin> set v"
  by (induction tvs) (auto simp: tv_ok_def slice_at_def)

lemma Parse_tags_ok: "\<forall>tv \<in> set (tags (fst (Parse data m))). tv_ok data tv" "raw (fst (Parse data m)) = data"
  using parse_loop_ok [of "[]" data 0] by (simp_all add: Parse_def split: prod.splits)

lemma GetField_total: "\<exists>v b. GetField t (fst (Parse data m)) = Some (v, b) \<and> SOH \<notin> set v"
  using field_loop_total [OF Parse_tags_ok(1) [of data m]] by (simp add: GetField_def Parse_tags_ok(2))

lemma GetString_total: "\<exists>v b. GetString t (fst (Parse data m)) = Some (v, b) \<and> SOH \<notin> set v"
  using GetField_total [of t data m] by (auto simp: GetString_def)

section \<open>Reading back what was written\<close>

text \<open>A field as the protocol writes it; the value may contain \<open>=\<close> but no separator.\<close>

definition fix_field :: "int \<times> string \<Rightarrow> string" where
  "fix_field f = dec_int (fst f) @ ''='' @ snd f @ [SOH]"

definition fix_fields :: "(int \<times> string) list \<Rightarrow> string" where
  "fix_fields fs = concat (map fix_field fs)"

definition field_ok :: "int \<times> string \<Rightarrow> bool" where
  "field_ok f \<longleftrightarrow> fits63 (nat \<bar>fst f\<bar>) \<and> SOH \<notin> set (snd f)"

definition field_of :: "string \<Rightarrow> tag_value \<Rightarrow> int \<times> string" where
  "field_of data tv = (tvTag tv, go_slice data (tvStart tv) (tvEnd tv))"

lemma dec_int_no_eq: "CHR ''='' \<notin> set (dec_int i)"
  using dec_digits [of "nat i"] dec_digits [of "nat (- i)"] by (auto simp: dec_int_def)

lemma parse_field:
  assumes f: "field_ok f" and d: "data = pre @ fix_field f @ rest"
  shows "\<exists>tv. parse_loop data (length pre) tvs = parse_loop data (length (pre @ fix_field f)) (tvs @ [tv]) \<and>
     field_of data tv = f \<and> tv_ok data tv"
proof -
  obtain t v where tv: "f = (t, v)" by fastforce
  let ?e = "length (dec_int t)"
  have d1: "data = (pre @ dec_int t) @ CHR ''='' # v @ SOH # rest" using d tv by (simp add: fix_field_def)
  then have d2: "drop (length pre) data = dec_int t @ CHR ''='' # v @ SOH # rest" by simp
  have i1: "IndexByte (drop (length pre) data) CHR ''='' = Some ?e"
    unfolding d2 by (rule IndexByte_split) (rule dec_int_no_eq)
  have s1: "go_slice data (length pre) (?e + length pre) = dec_int t" by (simp add: go_slice_def d2)
  have d3: "drop (?e + length pre) data = (CHR ''='' # v) @ SOH # rest" by (simp add: d1)
  have i2: "IndexByte (drop (?e + length pre) data) SOH = Some (length (CHR ''='' # v))"
    unfolding d3 by (rule IndexByte_split) (use f tv in \<open>simp add: field_ok_def SOH_def\<close>)
  define w where "w = \<lparr>tvTag = t, tvStart = ?e + length pre + 1, tvEnd = length (CHR ''='' # v) + (?e + length pre)\<rparr>"
  have l: "length pre < length data" by (simp add: d1)
  have "fits63 (nat \<bar>t\<bar>)" using f tv by (simp add: field_ok_def)
  then have "parse_loop data (length pre) tvs = parse_loop data (length (pre @ fix_field f)) (tvs @ [w])"
    using l i1 s1 i2 Atoi_dec_int [of t]
    by (simp add: parse_loop.simps [of data "length pre"] w_def tv fix_field_def Let_def add.assoc add.left_commute add.commute)
  moreover have "field_of data w = f"
    by (simp add: field_of_def w_def go_slice_def d1 tv)
  moreover have "tv_ok data w"
    using f tv by (simp add: tv_ok_def w_def go_slice_def d1 field_ok_def)
  ultimately show ?thesis by blast
qed

lemma parse_fields:
  "\<forall>f \<in> set fs. field_ok f \<Longrightarrow> data = pre @ fix_fields fs @ rest \<Longrightarrow> CHR ''='' \<notin> set rest \<Longrightarrow>
   \<exists>ws. parse_loop data (length pre) tvs = (tvs @ ws, False) \<and> map (field_of data) ws = fs \<and> (\<forall>w \<in> set ws. tv_ok data w)"
proof (induction fs arbitrary: pre tvs)
  case Nil
  then have "IndexByte (drop (length pre) data) CHR ''='' = None" by (simp add: IndexByte_None fix_fields_def)
  then show ?case by (intro exI [of _ "[]"]) (simp add: parse_loop.simps [of data "length pre"])
next
  case (Cons f fs)
  have d: "data = pre @ fix_field f @ fix_fields fs @ rest" using Cons.prems by (simp add: fix_fields_def)
  have "field_ok f" using Cons.prems by simp
  from parse_field [OF this d, of tvs] obtain w where w: "parse_loop data (length pre) tvs =
      parse_loop data (length (pre @ fix_field f)) (tvs @ [w])" "field_of data w = f" "tv_ok data w" by blast
  have "data = (pre @ fix_field f) @ fix_fields fs @ rest" using d by simp
  from Cons.IH [OF _ this Cons.prems(3)] Cons.prems(1) obtain ws where
      "parse_loop data (length (pre @ fix_field f)) (tvs @ [w]) = ((tvs @ [w]) @ ws, False)" "map (field_of data) ws = fs"
      "\<forall>w \<in> set ws. tv_ok data w"
    by (metis list.set_intros(2))
  with w show ?case by (intro exI [of _ "w # ws"]) simp
qed

lemma field_loop_fields:
  "\<forall>w \<in> set ws. tv_ok data w \<Longrightarrow>
   field_loop data t ws = Some (case map_of (map (field_of data) ws) t of None \<Rightarrow> ('''', False) | Some v \<Rightarrow> (v, True))"
  by (induction ws) (auto simp: field_of_def slice_at_def tv_ok_def)

lemma Parse_fields:
  assumes "\<forall>f \<in> set fs. field_ok f" "CHR ''='' \<notin> set rest"
  shows "snd (Parse (fix_fields fs @ rest) m) = None"
    "GetString t (fst (Parse (fix_fields fs @ rest) m)) = Some (case map_of fs t of None \<Rightarrow> ('''', False) | Some v \<Rightarrow> (v, True))"
proof -
  from parse_fields [OF assms(1) _ assms(2), of "fix_fields fs @ rest" "[]" "[]"] obtain ws where
      w: "parse_loop (fix_fields fs @ rest) 0 [] = (ws, False)" "map (field_of (fix_fields fs @ rest)) ws = fs"
      "\<forall>w \<in> set ws. tv_ok (fix_fields fs @ rest) w" by auto
  show "snd (Parse (fix_fields fs @ rest) m) = None" using w(1) by (simp add: Parse_def)
  show "GetString t (fst (Parse (fix_fields fs @ rest) m)) = Some (case map_of fs t of None \<Rightarrow> ('''', False) | Some v \<Rightarrow> (v, True))"
    using w field_loop_fields [OF w(3), of t] by (simp add: Parse_def GetString_def GetField_def split: option.splits)
qed

section \<open>Integers\<close>

lemma int_loop_digits: "int_loop v (of_nat a) = map_option of_nat (atoi_digits v a)"
proof (induction v arbitrary: a)
  case (Cons b v)
  have "of_nat a * 10 + of_nat (digit_val b) = (of_nat (a * 10 + digit_val b) :: 64 word)" by simp
  then show ?case using Cons [of "a * 10 + digit_val b"] by (simp del: of_nat_add of_nat_mult)
qed simp

lemma sint_of_nat63: "fits63 n \<Longrightarrow> sint (of_nat n :: 64 word) = int n"
  by (simp add: fits63_def sint_uint take_bit_nat_eq_self signed_take_bit_int_eq_self_iff unsigned_of_nat)

section \<open>Properties\<close>

text \<open>
  C24. \<open>Parse\<close> is safe on arbitrary bytes: it always ends, every boundary it records lies in
  the buffer with start before end, so no getter can panic afterwards, and no value a getter
  returns contains a separator, even when \<open>Parse\<close> reported an error.
\<close>

theorem parse_safe:
  "(\<forall>tv \<in> set (tags (fst (Parse data m))). tvStart tv \<le> tvEnd tv \<and> tvEnd tv \<le> length data) \<and>
   (\<exists>v found. GetString t (fst (Parse data m)) = Some (v, found) \<and> SOH \<notin> set v) \<and>
   (\<exists>r. GetInt t (fst (Parse data m)) = Some r)"
proof -
  obtain v b where "GetField t (fst (Parse data m)) = Some (v, b)" using GetField_total by blast
  then show ?thesis using Parse_tags_ok(1) [of data m] GetString_total [of t data m] by (auto simp: tv_ok_def GetInt_def)
qed

theorem parse_safe_witness:
  "(\<exists>v found. GetString 35 (fst (Parse ''35=A'' NewMessage)) = Some (v, found) \<and> SOH \<notin> set v)"
  using parse_safe [of "''35=A''" NewMessage 35] by blast

text \<open>
  C23. Round trip: a buffer that consists of well-formed \<open>tag=value\<close> fields, each closed by the
  separator, possibly followed by bytes without \<open>=\<close>, parses without error, and \<open>GetString\<close>
  returns for every tag the value of its first field, or reports that there is none.
\<close>

theorem parse_roundtrip:
  assumes "\<forall>f \<in> set fs. field_ok f" "CHR ''='' \<notin> set rest"
  shows "snd (Parse (fix_fields fs @ rest) m) = None \<and>
     GetString t (fst (Parse (fix_fields fs @ rest) m)) = Some (case map_of fs t of None \<Rightarrow> ('''', False) | Some v \<Rightarrow> (v, True))"
  using Parse_fields [OF assms] by blast

theorem parse_roundtrip_witness:
  "GetString 49 (fst (Parse (fix_fields [(35, ''D''), (49, ''a=b''), (49, ''c'')] @ ''xy'') NewMessage)) = Some (''a=b'', True)"
  using parse_roundtrip [of "[(35, ''D''), (49, ''a=b''), (49, ''c'')]" "''xy''" NewMessage 49]
  by (simp add: field_ok_def fits63_def SOH_def)

text \<open>
  \<open>GetInt\<close> reads a decimal number below \<open>2\<^sup>6\<^sup>3\<close> exactly, wraps beyond that, and reports
  a value with any other character and an absent tag as errors.
\<close>

theorem GetInt_exact:
  assumes "\<forall>f \<in> set fs. field_ok f"
  shows "GetInt t (fst (Parse (fix_fields fs) m)) = Some (case map_of fs t of
      None \<Rightarrow> Inl ''tag not found''
    | Some v \<Rightarrow> (case atoi_digits v 0 of None \<Rightarrow> Inl ''invalid integer value''
        | Some n \<Rightarrow> Inr (if fits63 n then int n else sint (of_nat n :: 64 word))))"
proof -
  from parse_fields [OF assms, of "fix_fields fs" "[]" "[]" "[]"] obtain ws where
      w: "parse_loop (fix_fields fs) 0 [] = (ws, False)" "map (field_of (fix_fields fs)) ws = fs"
      "\<forall>w \<in> set ws. tv_ok (fix_fields fs) w" by auto
  then show ?thesis using field_loop_fields [OF w(3), of t] int_loop_digits [of _ 0] sint_of_nat63
    by (auto simp: Parse_def GetInt_def GetField_def split: option.splits)
qed

theorem GetInt_exact_witness: "GetInt 38 (fst (Parse (fix_fields [(38, dec 250)]) NewMessage)) = Some (Inr 250)"
proof -
  have "SOH \<notin> set (dec 250)" using dec_digits [of 250] not_digit(4) unfolding SOH_def by blast
  then show ?thesis using GetInt_exact [of "[(38, dec 250)]" 38 NewMessage] by (simp add: field_ok_def fits63_def atoi_dec)
qed

text \<open>
  \<open>GetInt\<close> has no overflow check: it returns a negative number for \<open>2\<^sup>6\<^sup>3\<close>, and zero,
  without an error, for an empty value.
\<close>

theorem GetInt_wraps:
  "GetInt 38 (fst (Parse (fix_fields [(38, ''9223372036854775808''), (44, '''')]) NewMessage)) = Some (Inr (- 9223372036854775808)) \<and>
   GetInt 44 (fst (Parse (fix_fields [(38, ''9223372036854775808''), (44, '''')]) NewMessage)) = Some (Inr 0)"
  by code_simp

end
