(* ===== verification/Fix_Session.thy ===== *)
theory Fix_Session
  imports Fix_Parser
begin

text \<open>
  The FIX session of \<open>pkg/fix/session.go\<close>: the messages it formats, with body length and
  checksum, and what \<open>handleConnection\<close> answers to each read.  Clock readings (\<open>ts\<close> as
  formatted text, \<open>nano\<close>) are arguments.
\<close>

section \<open>Formatting\<close>

definition byte_sum :: "string \<Rightarrow> nat" where
  "byte_sum s = sum_list (map of_char s)"

definition formatFIXMessage :: "string \<Rightarrow> int \<Rightarrow> string \<Rightarrow> string \<Rightarrow> string \<Rightarrow> string \<Rightarrow> string" where
  "formatFIXMessage msgType seqNum sender target body ts = (
     let rw = (if body \<noteq> '''' then
           ''35='' @ msgType @ [SOH] @ ''49='' @ sender @ [SOH] @ ''56='' @ target @ [SOH] @
           ''34='' @ dec_int seqNum @ [SOH] @ ''52='' @ ts @ [SOH] @ body @ [SOH]
         else
           ''35='' @ msgType @ [SOH] @ ''49='' @ sender @ [SOH] @ ''56='' @ target @ [SOH] @
           ''34='' @ dec_int seqNum @ [SOH] @ ''52='' @ ts @ [SOH]);
         len = length rw;
         header = ''8=FIX.4.2'' @ [SOH] @ ''9='' @ dec len @ [SOH];
         fullMsg = header @ rw;
         checksum = ''10='' @ dec3 (byte_sum fullMsg mod 256) @ [SOH]
     in fullMsg @ checksum)"

section \<open>A connection\<close>

record session =
  msg :: message
  seqNum :: int
  written :: "string list"

definition new_session :: session where
  "new_session = \<lparr>msg = NewMessage, seqNum = 1, written = []\<rparr>"

definition reply_with :: "string \<Rightarrow> session \<Rightarrow> session" where
  "reply_with out s = s\<lparr>written := written s @ [out], seqNum := seqNum s + 1\<rparr>"

definition logon_body :: string where
  "logon_body = ''98=0'' @ [SOH] @ ''108=30''"

definition exec_body :: "string \<Rightarrow> string \<Rightarrow> string \<Rightarrow> string \<Rightarrow> string \<Rightarrow> int \<Rightarrow> string" where
  "exec_body orderID symbol side qty price nano =
     ''37=exec-'' @ orderID @ [SOH] @ ''11='' @ orderID @ [SOH] @ ''17=trade-'' @ dec_int nano @ [SOH] @ ''150=2'' @ [SOH] @
     ''39=2'' @ [SOH] @ ''55='' @ symbol @ [SOH] @ ''54='' @ side @ [SOH] @ ''38='' @ qty @ [SOH] @ ''44='' @ price"

text \<open>The loop body for one successful read of \<open>data\<close>.\<close>

definition handle_packet :: "string \<Rightarrow> string \<Rightarrow> int \<Rightarrow> session \<Rightarrow> session option" where
  "handle_packet data ts nano s = (case Parse data (msg s) of (m, err) \<Rightarrow>
     let s = s\<lparr>msg := m\<rparr> in
     if err \<noteq> None then Some s
     else do {
       (msgType, found) \<leftarrow> GetString 35 m;
       if \<not> found then Some s
       else do {
         (senderCompID, _) \<leftarrow> GetString 49 m;
         (targetCompID, _) \<leftarrow> GetString 56 m;
         if msgType = ''A'' then
           Some (reply_with (formatFIXMessage ''A'' (seqNum s) ''ENGINE'' senderCompID logon_body ts) s)
         else if msgType = ''0'' then
           Some (reply_with (formatFIXMessage ''0'' (seqNum s) ''ENGINE'' senderCompID '''' ts) s)
         else if msgType = ''D'' then do {
           (orderID, _) \<leftarrow> GetString 11 m;
           (symbol, _) \<leftarrow> GetString 55 m;
           (side, _) \<leftarrow> GetString 54 m;
           (price, _) \<leftarrow> GetString 44 m;
           (qty, _) \<leftarrow> GetString 38 m;
           Some (reply_with (formatFIXMessage ''8'' (seqNum s) ''ENGINE'' senderCompID
                  (exec_body orderID symbol side qty price nano) ts) s) }
         else Some s } })"

text \<open>A connection until a read fails; each read comes with its clock readings.\<close>

fun handleConnection :: "(string \<times> string \<times> int) list \<Rightarrow> session \<Rightarrow> session option" where
  "handleConnection [] s = Some s"
| "handleConnection ((data, ts, nano) # reads) s = do { s \<leftarrow> handle_packet data ts nano s; handleConnection reads s }"

section \<open>Formatted messages are sequences of fields\<close>

definition header_fields :: "string \<Rightarrow> int \<Rightarrow> string \<Rightarrow> string \<Rightarrow> string \<Rightarrow> (int \<times> string) list" where
  "header_fields msgType sq sender target ts = [(35, msgType), (49, sender), (56, target), (34, dec_int sq), (52, ts)]"

lemma tag_text [simp]: "dec_int 8 = ''8''" "dec_int 9 = ''9''" "dec_int 10 = ''10''" "dec_int 35 = ''35''" "dec_int 49 = ''49''"
  "dec_int 56 = ''56''" "dec_int 34 = ''34''" "dec_int 52 = ''52''" "dec_int 98 = ''98''" "dec_int 108 = ''108''"
  "dec_int 37 = ''37''" "dec_int 11 = ''11''" "dec_int 17 = ''17''" "dec_int 150 = ''150''" "dec_int 39 = ''39''"
  "dec_int 55 = ''55''" "dec_int 54 = ''54''" "dec_int 38 = ''38''" "dec_int 44 = ''44''"
  by code_simp+

lemma fix_fields_simps [simp]: "fix_fields [] = []" "fix_fields (f # fs) = fix_field f @ fix_fields fs"
  "fix_fields (fs @ gs) = fix_fields fs @ fix_fields gs"
  by (simp_all add: fix_fields_def)

definition sealed :: "(int \<times> string) list \<Rightarrow> (int \<times> string) list" where
  "sealed fs = (let hd = [(8, ''FIX.4.2''), (9, dec (length (fix_fields fs)))] in
     hd @ fs @ [(10, dec3 (byte_sum (fix_fields (hd @ fs)) mod 256))])"

lemma format_sealed:
  assumes "(body = '''' \<and> bs = []) \<or> (body \<noteq> '''' \<and> body @ [SOH] = fix_fields bs)"
  shows "formatFIXMessage t sq sender target body ts = fix_fields (sealed (header_fields t sq sender target ts @ bs))"
proof -
  have r: "(if body \<noteq> '''' then
           ''35='' @ t @ [SOH] @ ''49='' @ sender @ [SOH] @ ''56='' @ target @ [SOH] @
           ''34='' @ dec_int sq @ [SOH] @ ''52='' @ ts @ [SOH] @ body @ [SOH]
         else
           ''35='' @ t @ [SOH] @ ''49='' @ sender @ [SOH] @ ''56='' @ target @ [SOH] @
           ''34='' @ dec_int sq @ [SOH] @ ''52='' @ ts @ [SOH]) = fix_fields (header_fields t sq sender target ts @ bs)"
    using assms by (auto simp: header_fields_def fix_field_def)
  define R where "R = fix_fields (header_fields t sq sender target ts @ bs)"
  have "fix_fields [(8, ''FIX.4.2''), (9, dec (length R))] = ''8=FIX.4.2'' @ [SOH] @ ''9='' @ dec (length R) @ [SOH]"
    by (simp add: fix_field_def)
  then show ?thesis
    unfolding formatFIXMessage_def r sealed_def Let_def fix_fields_simps(3) R_def [symmetric]
    by (simp add: fix_field_def)
qed

lemma logon_fields: "logon_body @ [SOH] = fix_fields [(98, ''0''), (108, ''30'')]" "logon_body \<noteq> ''''"
  by (simp_all add: logon_body_def fix_field_def)

definition exec_fields :: "string \<Rightarrow> string \<Rightarrow> string \<Rightarrow> string \<Rightarrow> string \<Rightarrow> int \<Rightarrow> (int \<times> string) list" where
  "exec_fields orderID symbol side qty price nano = [(37, ''exec-'' @ orderID), (11, orderID), (17, ''trade-'' @ dec_int nano),
     (150, ''2''), (39, ''2''), (55, symbol), (54, side), (38, qty), (44, price)]"

lemma exec_body_fields: "exec_body orderID symbol side qty price nano @ [SOH] = fix_fields (exec_fields orderID symbol side qty price nano)"
  "exec_body orderID symbol side qty price nano \<noteq> ''''"
  by (simp_all add: exec_body_def exec_fields_def fix_field_def)

lemma no_soh [simp]: "SOH \<notin> set (dec n)" "SOH \<notin> set (dec_int i)" "SOH \<notin> set (dec3 n)"
proof -
  show d: "SOH \<notin> set (dec n)" for n using dec_digits [of n] not_digit(4) unfolding SOH_def by blast
  then show "SOH \<notin> set (dec_int i)" by (auto simp: dec_int_def SOH_def)
  show "SOH \<notin> set (dec3 n)" using d [of n] by (auto simp: dec3_def SOH_def)
qed

lemma sealed_ok: "\<forall>f \<in> set fs. field_ok f \<Longrightarrow> \<forall>f \<in> set (sealed fs). field_ok f"
  by (auto simp: sealed_def Let_def field_ok_def fits63_def SOH_def [symmetric]) (simp_all add: SOH_def)

lemma header_ok:
  "SOH \<notin> set t \<Longrightarrow> SOH \<notin> set sender \<Longrightarrow> SOH \<notin> set target \<Longrightarrow> SOH \<notin> set ts \<Longrightarrow>
   \<forall>f \<in> set (header_fields t sq sender target ts). field_ok f"
  by (simp add: header_fields_def field_ok_def fits63_def)

lemma sealed_read:
  assumes "\<forall>f \<in> set fs. field_ok f"
  shows "snd (Parse (fix_fields (sealed fs)) m) = None"
    "GetString t (fst (Parse (fix_fields (sealed fs)) m)) = Some (case map_of (sealed fs) t of None \<Rightarrow> ('''', False) | Some v \<Rightarrow> (v, True))"
  using Parse_fields(1) [OF sealed_ok [OF assms], of "[]" m] Parse_fields(2) [OF sealed_ok [OF assms], of "[]" t m] by simp_all

text \<open>What the engine has sent so far: the \<open>i\<close>-th message carries sequence number \<open>i + 1\<close>.\<close>

definition sent_ok :: "string \<Rightarrow> int \<Rightarrow> bool" where
  "sent_ok out n \<longleftrightarrow> snd (Parse out NewMessage) = None \<and>
     GetString 34 (fst (Parse out NewMessage)) = Some (dec_int n, True) \<and>
     GetString 49 (fst (Parse out NewMessage)) = Some (''ENGINE'', True)"

definition session_ok :: "session \<Rightarrow> bool" where
  "session_ok s \<longleftrightarrow> seqNum s = 1 + int (length (written s)) \<and> (\<forall>i < length (written s). sent_ok (written s ! i) (int i + 1))"

lemma sealed_sent:
  assumes "SOH \<notin> set t" "SOH \<notin> set target" "SOH \<notin> set ts" "\<forall>f \<in> set bs. field_ok f"
  shows "sent_ok (fix_fields (sealed (header_fields t sq ''ENGINE'' target ts @ bs))) sq"
proof -
  have ok: "\<forall>f \<in> set (header_fields t sq ''ENGINE'' target ts @ bs). field_ok f"
    using header_ok [of t "''ENGINE''" target ts sq] assms by (auto simp: SOH_def)
  show ?thesis
    using sealed_read [OF ok] by (simp add: sent_ok_def sealed_def header_fields_def Let_def)
qed

lemma reply_session_ok:
  assumes "session_ok s" "sent_ok out (seqNum s)"
  shows "session_ok (reply_with out s)"
  using assms by (auto simp: session_ok_def reply_with_def nth_append less_Suc_eq add.commute)

lemma handle_packet_ok:
  assumes s: "session_ok s" and ts: "SOH \<notin> set ts"
  shows "\<exists>s'. handle_packet data ts nano s = Some s' \<and> session_ok s' \<and> (written s' = written s \<or> (\<exists>out. written s' = written s @ [out]))"
proof -
  obtain m err where p: "Parse data (msg s) = (m, err)" by fastforce
  have "\<exists>v b. GetString k m = Some (v, b) \<and> SOH \<notin> set v" for k
    using GetString_total [of k data "msg s"] p by simp
  then obtain v b where g: "\<And>k. GetString k m = Some (v k, b k)" "\<And>k. SOH \<notin> set (v k)" by metis
  have s1: "session_ok (s\<lparr>msg := m\<rparr>)" "seqNum (s\<lparr>msg := m\<rparr>) = seqNum s" using s by (simp_all add: session_ok_def)
  have a: "sent_ok (formatFIXMessage ''A'' (seqNum s) ''ENGINE'' (v 49) logon_body ts) (seqNum s)"
    using sealed_sent [of "''A''" "v 49" ts "[(98, ''0''), (108, ''30'')]"] ts g(2) logon_fields
      format_sealed [of logon_body "[(98, ''0''), (108, ''30'')]"] by (simp add: field_ok_def fits63_def SOH_def)
  have h: "sent_ok (formatFIXMessage ''0'' (seqNum s) ''ENGINE'' (v 49) '''' ts) (seqNum s)"
    using sealed_sent [of "''0''" "v 49" ts "[]"] ts g(2) format_sealed [of "''''" "[]"] by (simp add: SOH_def)
  have d: "sent_ok (formatFIXMessage ''8'' (seqNum s) ''ENGINE'' (v 49) (exec_body (v 11) (v 55) (v 54) (v 38) (v 44) nano) ts) (seqNum s)"
  proof -
    have "\<forall>f \<in> set (exec_fields (v 11) (v 55) (v 54) (v 38) (v 44) nano). field_ok f"
      using g(2) by (simp add: exec_fields_def field_ok_def fits63_def) (simp add: SOH_def)
    then show ?thesis
      using sealed_sent [of "''8''" "v 49" ts "exec_fields (v 11) (v 55) (v 54) (v 38) (v 44) nano"] ts g(2)
        format_sealed [of "exec_body (v 11) (v 55) (v 54) (v 38) (v 44) nano"] exec_body_fields by (simp add: SOH_def)
  qed
  show ?thesis
    using p g s1 reply_session_ok [OF s1(1)] a h d by (simp add: handle_packet_def Let_def) (auto simp: reply_with_def)
qed

lemma handleConnection_ok:
  assumes "\<forall>(data, ts, nano) \<in> set reads. SOH \<notin> set ts" "session_ok s"
  shows "\<exists>s'. handleConnection reads s = Some s' \<and> session_ok s' \<and> length (written s') \<le> length (written s) + length reads"
  using assms
proof (induction reads arbitrary: s)
  case (Cons r reads)
  obtain data ts nano where r: "r = (data, ts, nano)" by (cases r)
  have "SOH \<notin> set ts" using Cons.prems r by simp
  then obtain s1 where s1: "handle_packet data ts nano s = Some s1" "session_ok s1" "length (written s1) \<le> length (written s) + 1"
    using handle_packet_ok [OF Cons.prems(2), of ts data nano] by auto
  from Cons.IH [OF _ s1(2)] Cons.prems(1) obtain s' where "handleConnection reads s1 = Some s'" "session_ok s'"
     "length (written s') \<le> length (written s1) + length reads" by auto
  with s1 r show ?case by auto
qed simp

section \<open>Properties\<close>

text \<open>
  C25. Every message \<open>formatFIXMessage\<close> builds is a sealed FIX message: it is a header with
  \<open>BeginString\<close> and \<open>BodyLength\<close>, the body, and a \<open>CheckSum\<close> field; \<open>BodyLength\<close> is the number
  of bytes of the body, \<open>CheckSum\<close> the sum of all bytes before it modulo 256 in three digits,
  and the parser reads the message type, sender, target and sequence number back, whatever
  well-formed fields the body holds.
\<close>

theorem format_sealed_message:
  assumes "SOH \<notin> set t" "SOH \<notin> set sender" "SOH \<notin> set target" "SOH \<notin> set ts" "\<forall>f \<in> set bs. field_ok f"
    and "(body = '''' \<and> bs = []) \<or> (body \<noteq> '''' \<and> body @ [SOH] = fix_fields bs)"
  shows "\<exists>H R. formatFIXMessage t sq sender target body ts = H @ R @ ''10='' @ dec3 (byte_sum (H @ R) mod 256) @ [SOH] \<and>
     H = ''8=FIX.4.2'' @ [SOH] @ ''9='' @ dec (length R) @ [SOH] \<and>
     (let out = fst (Parse (formatFIXMessage t sq sender target body ts) m) in
        snd (Parse (formatFIXMessage t sq sender target body ts) m) = None \<and>
        GetString 35 out = Some (t, True) \<and> GetString 49 out = Some (sender, True) \<and>
        GetString 56 out = Some (target, True) \<and> GetString 34 out = Some (dec_int sq, True) \<and>
        GetString 9 out = Some (dec (length R), True))"
proof -
  let ?fs = "header_fields t sq sender target ts @ bs"
  note f = format_sealed [OF assms(6), of t sq sender target ts]
  have ok: "\<forall>f \<in> set ?fs. field_ok f" using header_ok [OF assms(1-4), of sq] assms(5) by auto
  define R where "R = fix_fields ?fs"
  have "fix_fields (sealed ?fs) = (''8=FIX.4.2'' @ [SOH] @ ''9='' @ dec (length R) @ [SOH]) @ R @
      ''10='' @ dec3 (byte_sum ((''8=FIX.4.2'' @ [SOH] @ ''9='' @ dec (length R) @ [SOH]) @ R) mod 256) @ [SOH]"
    unfolding sealed_def Let_def fix_fields_simps(3) R_def by (simp add: fix_field_def)
  moreover have "GetString 9 (fst (Parse (fix_fields (sealed ?fs)) m)) = Some (dec (length R), True)"
    using sealed_read(2) [OF ok, of 9 m] by (simp add: sealed_def Let_def R_def)
  ultimately show ?thesis
    unfolding f using sealed_read [OF ok, where m = m]
    by (intro exI [of _ "''8=FIX.4.2'' @ [SOH] @ ''9='' @ dec (length R) @ [SOH]"] exI [of _ R])
      (simp add: Let_def, simp add: sealed_def header_fields_def Let_def)
qed

theorem format_sealed_message_witness:
  "\<exists>H R. formatFIXMessage ''A'' 1 ''ENGINE'' ''C'' logon_body ''T'' = H @ R @ ''10='' @ dec3 (byte_sum (H @ R) mod 256) @ [SOH] \<and>
     H = ''8=FIX.4.2'' @ [SOH] @ ''9='' @ dec (length R) @ [SOH]"
  using format_sealed_message [of "''A''" "''ENGINE''" "''C''" "''T''" "[(98, ''0''), (108, ''30'')]" logon_body 1 NewMessage] logon_fields
  by (auto simp: field_ok_def fits63_def SOH_def)

text \<open>
  C26. A session never panics, whatever bytes arrive, and numbers its messages correctly: after
  any reads it has sent at most one message per read, every one parses, comes from \<open>ENGINE\<close>,
  and the \<open>i\<close>-th carries \<open>MsgSeqNum\<close> \<open>i + 1\<close> with no gap and no repetition.
\<close>

theorem session_sequence:
  assumes "\<forall>(data, ts, nano) \<in> set reads. SOH \<notin> set ts"
  shows "\<exists>s. handleConnection reads new_session = Some s \<and> length (written s) \<le> length reads \<and>
     seqNum s = 1 + int (length (written s)) \<and>
     (\<forall>i < length (written s). let out = fst (Parse (written s ! i) NewMessage) in
        snd (Parse (written s ! i) NewMessage) = None \<and> GetString 34 out = Some (dec_int (int i + 1), True) \<and>
        GetString 49 out = Some (''ENGINE'', True))"
proof -
  have "session_ok new_session" by (simp add: session_ok_def new_session_def)
  from handleConnection_ok [OF assms this] show ?thesis
    by (auto simp: session_ok_def sent_ok_def new_session_def Let_def)
qed

theorem session_sequence_witness:
  "\<exists>s. handleConnection [(''35=A'', ''T'', 0), (''junk'', ''T'', 0), (''35=0'', ''T'', 0)] new_session = Some s \<and>
     length (written s) \<le> 3 \<and> seqNum s = 1 + int (length (written s))"
  using session_sequence [of "[(''35=A'', ''T'', 0), (''junk'', ''T'', 0), (''35=0'', ''T'', 0)]"] by (auto simp: SOH_def)

text \<open>
  Only the first message of a read is answered: when a second message arrives in the same
  read, which TCP may do at any time, the session replies exactly as if it had not been sent.
\<close>

theorem pipelined_message_dropped:
  assumes "\<forall>f \<in> set (fs @ gs). field_ok f" "{35, 49, 56, 11, 55, 54, 44, 38} \<subseteq> fst ` set fs"
  shows "map_option (\<lambda>s'. (written s', seqNum s')) (handle_packet (fix_fields (fs @ gs)) ts nano s) =
     map_option (\<lambda>s'. (written s', seqNum s')) (handle_packet (fix_fields fs) ts nano s)"
proof -
  obtain m m' where p: "Parse (fix_fields (fs @ gs)) (msg s) = (m, None)" "Parse (fix_fields fs) (msg s) = (m', None)"
    using Parse_fields(1) [OF assms(1), of "[]" "msg s"] Parse_fields(1) [of fs "[]" "msg s"] assms(1)
    by (cases "Parse (fix_fields (fs @ gs)) (msg s)"; cases "Parse (fix_fields fs) (msg s)") auto
  have g: "GetString k m = Some (case map_of (fs @ gs) k of None \<Rightarrow> ('''', False) | Some v \<Rightarrow> (v, True))"
    "GetString k m' = Some (case map_of fs k of None \<Rightarrow> ('''', False) | Some v \<Rightarrow> (v, True))" for k
    using Parse_fields(2) [OF assms(1), of "[]" k "msg s"] Parse_fields(2) [of fs "[]" k "msg s"] assms(1) p by auto
  define v where "v k = the (map_of fs k)" for k
  have "map_of fs k = Some (v k)" if "k \<in> {35, 49, 56, 11, 55, 54, 44, 38}" for k
    using that assms(2) map_of_eq_None_iff [of fs k] by (auto simp: v_def)
  then have e: "GetString k m = Some (v k, True) \<and> GetString k m' = Some (v k, True)"
    if "k \<in> {35, 49, 56, 11, 55, 54, 44, 38}" for k
    using that g by (simp add: map_add_def)
  show ?thesis
    unfolding handle_packet_def p using e by (simp add: Let_def reply_with_def)
qed

definition ex_order_fields :: "string \<Rightarrow> (int \<times> string) list" where
  "ex_order_fields i = [(35, ''D''), (49, ''CLIENT''), (56, ''ENGINE''), (11, i), (55, ''ACME''), (54, ''1''), (44, ''100''), (38, ''5'')]"

theorem pipelined_message_dropped_witness:
  "map_option (\<lambda>s'. (written s', seqNum s')) (handle_packet (fix_fields (ex_order_fields ''a'' @ ex_order_fields ''b'')) ''T'' 0 new_session) =
   map_option (\<lambda>s'. (written s', seqNum s')) (handle_packet (fix_fields (ex_order_fields ''a'')) ''T'' 0 new_session)"
  by (rule pipelined_message_dropped) (simp_all add: ex_order_fields_def field_ok_def fits63_def SOH_def)

end
