(* ===== verification/Fix_Server.thy ===== *)
theory Fix_Server
  imports Fix_Session
begin

text \<open>
  The FIX server of \<open>pkg/fix/session.go\<close> around the sessions: \<open>Start\<close> with its accept loop,
  \<open>Stop\<close>, and one goroutine per connection.  A step is one action of one goroutine; \<open>fReads\<close>
  records what has been read from each connection.
\<close>

section \<open>State and operations\<close>

datatype start_pc = NotStarted | Accepting | Returned "string option"

type_synonym fix_read = "string \<times> string \<times> int"

record fix_server =
  fListener :: "bool option"
  fActive :: bool
  fPc :: start_pc
  fSessions :: "nat \<rightharpoonup> session"
  fClosed :: "nat set"
  fReads :: "nat \<Rightarrow> fix_read list"

text \<open>The listener is \<open>nil\<close>, or open or closed.\<close>

definition NewSessionServer :: fix_server where
  "NewSessionServer = \<lparr>fListener = None, fActive = False, fPc = NotStarted, fSessions = Map.empty, fClosed = {}, fReads = (\<lambda>_. [])\<rparr>"

text \<open>\<open>Start\<close> up to its loop; the argument is the error of \<open>net.Listen\<close>.\<close>

definition Start :: "string option \<Rightarrow> string \<Rightarrow> fix_server \<Rightarrow> fix_server" where
  "Start err port s = (case err of
     Some e \<Rightarrow> s\<lparr>fListener := None, fPc := Returned (Some (''failed to bind FIX server to port '' @ port @ '': '' @ e))\<rparr>
   | None \<Rightarrow> s\<lparr>fListener := Some True, fActive := True, fPc := Accepting\<rparr>)"

definition Stop :: "fix_server \<Rightarrow> fix_server" where
  "Stop s = s\<lparr>fActive := False, fListener := map_option (\<lambda>_. False) (fListener s)\<rparr>"

text \<open>One iteration of the accept loop, after an error and with a connection.\<close>

definition accept_error :: "fix_server \<Rightarrow> fix_server" where
  "accept_error s = (if \<not> fActive s then s\<lparr>fPc := Returned None\<rparr> else s)"

definition accept_conn :: "nat \<Rightarrow> fix_server \<Rightarrow> fix_server" where
  "accept_conn c s = s\<lparr>fSessions := (fSessions s)(c \<mapsto> new_session)\<rparr>"

text \<open>One read of a connection's goroutine.\<close>

definition conn_read :: "nat \<Rightarrow> fix_read \<Rightarrow> fix_server \<Rightarrow> fix_server option" where
  "conn_read c r s = do {
     st \<leftarrow> fSessions s c;
     st \<leftarrow> handle_packet (fst r) (fst (snd r)) (snd (snd r)) st;
     Some (s\<lparr>fSessions := (fSessions s)(c \<mapsto> st), fReads := (fReads s)(c := fReads s c @ [r])\<rparr>) }"

text \<open>
  Runs.  Connections are numbered by the kernel, the formatted clock has no field separator, and
  only an open listener accepts.
\<close>

inductive fix_step :: "fix_server \<Rightarrow> fix_server \<Rightarrow> bool" where
  start: "fPc s = NotStarted \<Longrightarrow> fix_step s (Start err port s)"
| stop: "fix_step s (Stop s)"
| accept: "fPc s = Accepting \<Longrightarrow> fListener s = Some True \<Longrightarrow> fSessions s c = None \<Longrightarrow> fix_step s (accept_conn c s)"
| failed: "fPc s = Accepting \<Longrightarrow> fix_step s (accept_error s)"
| packet: "fSessions s c \<noteq> None \<Longrightarrow> c \<notin> fClosed s \<Longrightarrow> SOH \<notin> set (fst (snd r)) \<Longrightarrow> conn_read c r s = Some s' \<Longrightarrow> fix_step s s'"
| hangup: "fSessions s c \<noteq> None \<Longrightarrow> fix_step s (s\<lparr>fClosed := insert c (fClosed s)\<rparr>)"

inductive fix_reachable :: "fix_server \<Rightarrow> bool" where
  init: "fix_reachable NewSessionServer"
| step: "fix_reachable s \<Longrightarrow> fix_step s s' \<Longrightarrow> fix_reachable s'"

inductive_cases fix_stepE: "fix_step s s'"

section \<open>Invariants\<close>

lemma handleConnection_snoc:
  "handleConnection (reads @ [r]) s = Option.bind (handleConnection reads s) (handle_packet (fst r) (fst (snd r)) (snd (snd r)))"
proof (induction reads arbitrary: s)
  case Nil
  then show ?case by (cases r) (simp add: bind_rzero split: bind_splits)
next
  case (Cons r' reads)
  then show ?case by (cases r'; cases "handle_packet (fst r') (fst (snd r')) (snd (snd r')) s") simp_all
qed

fun conn_ok :: "fix_read list \<Rightarrow> session option \<Rightarrow> bool" where
  "conn_ok reads None = (reads = [])"
| "conn_ok reads (Some st) = (handleConnection reads new_session = Some st \<and> session_ok st)"

definition fix_inv :: "fix_server \<Rightarrow> bool" where
  "fix_inv s \<longleftrightarrow> (\<forall>c. conn_ok (fReads s c) (fSessions s c)) \<and> fActive s = (fListener s = Some True) \<and>
     (fPc s = NotStarted \<or> fPc s = Returned None \<longrightarrow> \<not> fActive s)"

lemma fix_inv_step:
  assumes "fix_step s s'" "fix_inv s"
  shows "fix_inv s'"
  using assms(1)
proof cases
  case (start err port)
  then show ?thesis using assms(2) by (cases err) (auto simp: fix_inv_def Start_def)
next
  case stop
  then show ?thesis using assms(2) by (auto simp: fix_inv_def Stop_def)
next
  case (accept c)
  have "fReads s c = []" using assms(2) accept(4) by (metis conn_ok.simps(1) fix_inv_def)
  moreover have "session_ok new_session" by (simp add: session_ok_def new_session_def)
  ultimately show ?thesis using assms(2) accept by (auto simp: fix_inv_def accept_conn_def)
next
  case failed
  then show ?thesis using assms(2) by (auto simp: fix_inv_def accept_error_def)
next
  case (packet c r)
  then obtain st st' where st: "fSessions s c = Some st" "handle_packet (fst r) (fst (snd r)) (snd (snd r)) st = Some st'"
    "s' = s\<lparr>fSessions := (fSessions s)(c \<mapsto> st'), fReads := (fReads s)(c := fReads s c @ [r])\<rparr>"
    by (auto simp: conn_read_def split: bind_splits)
  have c: "conn_ok (fReads s c) (fSessions s c)" using assms(2) by (simp add: fix_inv_def)
  then have "session_ok st'" using handle_packet_ok [of st "fst (snd r)" "fst r" "snd (snd r)"] packet(3) st(1,2) by auto
  then have "conn_ok (fReads s' c) (fSessions s' c)" using c st by (simp add: handleConnection_snoc)
  then show ?thesis using assms(2) st(3) by (auto simp: fix_inv_def)
next
  case (hangup c)
  then show ?thesis using assms(2) by (auto simp: fix_inv_def)
qed

lemma reachable_fix_inv: "fix_reachable s \<Longrightarrow> fix_inv s"
proof (induction rule: fix_reachable.induct)
  case init
  then show ?case by (simp add: fix_inv_def NewSessionServer_def)
qed (rule fix_inv_step)

lemma stopped_step:
  assumes "fix_step s s'" "fix_inv s" "fPc s \<noteq> NotStarted" "\<not> fActive s"
  shows "fix_inv s' \<and> fPc s' \<noteq> NotStarted \<and> \<not> fActive s' \<and> dom (fSessions s') = dom (fSessions s)"
proof -
  have "fListener s \<noteq> Some True" using assms by (simp add: fix_inv_def)
  with assms(1) have "fPc s' \<noteq> NotStarted \<and> \<not> fActive s' \<and> dom (fSessions s') = dom (fSessions s)"
    by (cases rule: fix_stepE) (use assms(3,4) in \<open>auto simp: Stop_def accept_error_def conn_read_def split: bind_splits if_splits\<close>)
  then show ?thesis using fix_inv_step [OF assms(1,2)] by blast
qed

lemma stopped_run:
  assumes "fix_step\<^sup>*\<^sup>* s s'" "fix_inv s" "fPc s \<noteq> NotStarted" "\<not> fActive s"
  shows "fix_inv s' \<and> fPc s' \<noteq> NotStarted \<and> \<not> fActive s' \<and> dom (fSessions s') = dom (fSessions s)"
  using assms
proof (induction rule: rtranclp_induct)
  case (step y z)
  then show ?case using stopped_step [OF step.hyps(2)] by auto
qed blast

section \<open>Properties\<close>

text \<open>
  C38. Concurrent FIX connections do not disturb one another: in every interleaving of the accept
  loop, \<open>Stop\<close> and any number of connections, the state and the output of a connection are
  exactly what \<open>handleConnection\<close> produces from that connection's own reads, and no next packet
  can make its goroutine panic.  \<open>Start\<close> returns without error only after \<open>Stop\<close>, and a server
  that was stopped accepts no further connection.
\<close>

theorem connections_isolated:
  assumes "fix_reachable s"
  shows "(\<forall>c st. fSessions s c = Some st \<longrightarrow> handleConnection (fReads s c) new_session = Some st \<and>
       (\<forall>data ts nano. SOH \<notin> set ts \<longrightarrow> conn_read c (data, ts, nano) s \<noteq> None)) \<and>
     (fPc s = Returned None \<longrightarrow> \<not> fActive s) \<and>
     (\<forall>s'. fPc s \<noteq> NotStarted \<and> fix_step\<^sup>*\<^sup>* (Stop s) s' \<longrightarrow> dom (fSessions s') = dom (fSessions s))"
proof (intro conjI allI impI)
  note inv = reachable_fix_inv [OF assms]
  fix c st assume st: "fSessions s c = Some st"
  have c: "conn_ok (fReads s c) (fSessions s c)" using inv by (simp add: fix_inv_def)
  then show "handleConnection (fReads s c) new_session = Some st" using st by simp
  fix data ts :: string and nano :: int assume "SOH \<notin> set ts"
  then show "conn_read c (data, ts, nano) s \<noteq> None"
    using c st handle_packet_ok [of st ts data nano] by (auto simp: conn_read_def)
next
  show "\<not> fActive s" if "fPc s = Returned None" using that reachable_fix_inv [OF assms] unfolding fix_inv_def by blast
  fix s' assume s': "fPc s \<noteq> NotStarted \<and> fix_step\<^sup>*\<^sup>* (Stop s) s'"
  have "fix_inv (Stop s)" using fix_inv_step [OF fix_step.stop] reachable_fix_inv [OF assms] by blast
  then show "dom (fSessions s') = dom (fSessions s)" using stopped_run [of "Stop s" s'] s' by (simp add: Stop_def)
qed

theorem connections_isolated_witness:
  "fSessions (accept_conn 4 (Start None ''9878'' NewSessionServer)) 4 = Some new_session \<and>
   conn_read 4 (''35=A'', ''T'', 0) (accept_conn 4 (Start None ''9878'' NewSessionServer)) \<noteq> None"
proof -
  let ?s = "Start None ''9878'' NewSessionServer"
  have "fix_reachable ?s" using fix_reachable.step [OF fix_reachable.init fix_step.start] by (simp add: NewSessionServer_def)
  moreover have "fix_step ?s (accept_conn 4 ?s)" by (rule fix_step.accept) (simp_all add: Start_def NewSessionServer_def)
  ultimately have "fix_reachable (accept_conn 4 ?s)" using fix_reachable.step by blast
  moreover have "fSessions (accept_conn 4 ?s) 4 = Some new_session" by (simp add: accept_conn_def)
  ultimately show ?thesis using connections_isolated [of "accept_conn 4 ?s"] by (simp add: SOH_def)
qed

end
