(* ===== verification/Controller.thy ===== *)
theory Controller
  imports Platform_Prelude
begin

text \<open>
  The Kubernetes controller of \<open>pkg/controller/benchmark_controller.go\<close>.  The API server is a
  third-party service: the client calls \<open>Get\<close>, \<open>Create\<close>, \<open>Delete\<close> and \<open>Status().Update\<close> are
  a parameter over an arbitrary cluster state, and \<open>kube_ok\<close> states the documented behaviour
  that the properties use: any call may fail, at any time.  The texts of times and durations are
  read by two further parameters, about which nothing is assumed.  Times are nanoseconds.
\<close>

section \<open>Objects\<close>

text \<open>The JSON values that an unstructured object holds, as far as the controller tells them apart.\<close>

datatype jvalue = JString string | JInt int | JOther string

text \<open>
  A \<open>BenchmarkRun\<close> as the unstructured client returns it: \<open>None\<close> for a \<open>spec\<close> or \<open>status\<close>
  for which \<open>NestedMap\<close> finds no map.
\<close>

record benchmark_run =
  runSpec :: "(string \<rightharpoonup> jvalue) option"
  runStatus :: "(string \<rightharpoonup> jvalue) option"

type_synonym run_name = "string \<times> string"

text \<open>\<open>m[k].(string)\<close> with the second result ignored.\<close>

definition str_field :: "(string \<rightharpoonup> jvalue) \<Rightarrow> string \<Rightarrow> string" where
  "str_field m k = (case m k of Some (JString s) \<Rightarrow> s | _ \<Rightarrow> '''')"

type_synonym labels = "(string \<times> string) list"

record container =
  ctName :: string
  ctImage :: string
  ctPorts :: "int list"
  ctLimits :: "(string \<times> string) list"

record policy_spec =
  npPodSelector :: labels
  npPolicyTypes :: "string list"
  npIngress :: "int list list"
  npEgress :: "int list list"

text \<open>
  The four kinds of objects the controller creates, each with its name, its namespace (but for a
  namespace itself) and what the controller fills in.  An ingress or egress rule is its list of
  ports; quantities are kept as the text they are parsed from.
\<close>

datatype kobject =
    Namespace string labels
  | ResourceQuota string string "(string \<times> string) list"
  | NetworkPolicy string string policy_spec
  | Pod string string labels "container list"

definition runNamespace :: "string \<Rightarrow> string" where
  "runNamespace submissionID = ''run-'' @ submissionID"

definition ns_object :: "string \<Rightarrow> kobject" where
  "ns_object submissionID = Namespace (runNamespace submissionID)
     [(''run-id'', submissionID), (''role'', ''contestant-namespace'')]"

definition quota_object :: "string \<Rightarrow> kobject" where
  "quota_object submissionID = ResourceQuota ''run-limits'' (runNamespace submissionID)
     [(''limits.cpu'', ''2.0''), (''limits.memory'', ''1Gi'')]"

definition netPol_object :: "string \<Rightarrow> kobject" where
  "netPol_object submissionID = NetworkPolicy ''block-egress'' (runNamespace submissionID)
     \<lparr>npPodSelector = [(''role'', ''contestant'')], npPolicyTypes = [''Egress'', ''Ingress''],
      npIngress = [[8080, 2112]], npEgress = []\<rparr>"

definition pod_object :: "string \<Rightarrow> string \<Rightarrow> string \<Rightarrow> kobject" where
  "pod_object submissionID contestantID img = Pod ''contestant-engine'' (runNamespace submissionID)
     [(''role'', ''contestant''), (''contestant-id'', contestantID)]
     [\<lparr>ctName = ''engine'', ctImage = img, ctPorts = [8080, 2112],
       ctLimits = [(''cpu'', ''1.0''), (''memory'', ''512Mi'')]\<rparr>]"

text \<open>What identifies an object in the cluster: kind, namespace and name.\<close>

type_synonym object_key = "string \<times> string \<times> string"

fun key_of :: "kobject \<Rightarrow> object_key" where
  "key_of (Namespace n ls) = (''Namespace'', '''', n)"
| "key_of (ResourceQuota n ns h) = (''ResourceQuota'', ns, n)"
| "key_of (NetworkPolicy n ns p) = (''NetworkPolicy'', ns, n)"
| "key_of (Pod n ns ls cs) = (''Pod'', ns, n)"

section \<open>The client\<close>

datatype kerror = NotFound | AlreadyExists | OtherError

record 'c kube =
  kGet :: "run_name \<Rightarrow> 'c \<Rightarrow> kerror + benchmark_run"
  kCreate :: "kobject \<Rightarrow> 'c \<Rightarrow> 'c \<times> kerror option"
  kDelete :: "string \<Rightarrow> 'c \<Rightarrow> 'c \<times> kerror option"
  kStatusUpdate :: "run_name \<Rightarrow> benchmark_run \<Rightarrow> 'c \<Rightarrow> 'c \<times> kerror option"

text \<open>
  The documented behaviour, in terms of the objects \<open>objs c\<close> and the runs \<open>stored c\<close> that a
  cluster holds.  \<open>Get\<close> returns the stored run.  A successful \<open>Create\<close> stores the object, one
  that reports \<open>AlreadyExists\<close> changes nothing, and after any other error the object may or may
  not have been stored.  Deleting a namespace removes objects, at its own pace, and adds none.  A
  status update that fails may still have been stored.
\<close>

definition kube_ok :: "'c kube \<Rightarrow> ('c \<Rightarrow> object_key \<rightharpoonup> kobject) \<Rightarrow> ('c \<Rightarrow> run_name \<rightharpoonup> benchmark_run) \<Rightarrow> bool" where
  "kube_ok k objs stored \<longleftrightarrow>
     (\<forall>nn c r. kGet k nn c = Inr r \<longrightarrow> stored c nn = Some r) \<and>
     (\<forall>x c c' e. kCreate k x c = (c', e) \<longrightarrow> stored c' = stored c \<and>
        (case e of None \<Rightarrow> objs c (key_of x) = None \<and> objs c' = (objs c)(key_of x \<mapsto> x)
         | Some AlreadyExists \<Rightarrow> objs c (key_of x) \<noteq> None \<and> objs c' = objs c
         | Some _ \<Rightarrow> objs c' = objs c \<or> objs c (key_of x) = None \<and> objs c' = (objs c)(key_of x \<mapsto> x))) \<and>
     (\<forall>n c c' e. kDelete k n c = (c', e) \<longrightarrow> objs c' \<subseteq>\<^sub>m objs c \<and> stored c' = stored c) \<and>
     (\<forall>nn r c c' e. kStatusUpdate k nn r c = (c', e) \<longrightarrow> objs c' = objs c \<and>
        (stored c' = (stored c)(nn \<mapsto> r) \<or> e \<noteq> None \<and> stored c' = stored c))"

section \<open>Reconcile\<close>

text \<open>\<open>ctrl.Result\<close> with its error: the second constructor is a non-nil error without an API cause.\<close>

datatype outcome = Done | InvalidSpec | Failed kerror | RequeueAfter int

definition second :: int where "second = 1000000000"

text \<open>\<open>Create\<close>, with \<open>AlreadyExists\<close> taken for success.\<close>

definition try_create :: "'c kube \<Rightarrow> kobject \<Rightarrow> 'c \<Rightarrow> 'c \<times> kerror option" where
  "try_create k x c = (case kCreate k x c of (c', e) \<Rightarrow> (c', if e = Some AlreadyExists then None else e))"

fun create_all :: "'c kube \<Rightarrow> kobject list \<Rightarrow> 'c \<Rightarrow> 'c \<times> kerror option" where
  "create_all k [] c = (c, None)"
| "create_all k (x # xs) c = (case try_create k x c of
     (c', None) \<Rightarrow> create_all k xs c'
   | (c', Some e) \<Rightarrow> (c', Some e))"

definition reconcile_init ::
  "'c kube \<Rightarrow> run_name \<Rightarrow> benchmark_run \<Rightarrow> string \<Rightarrow> string \<Rightarrow> string \<Rightarrow> string \<Rightarrow> 'c \<Rightarrow> 'c \<times> outcome" where
  "reconcile_init k nn run contestantID submissionID img stamp c =
     (case create_all k [ns_object submissionID, quota_object submissionID, netPol_object submissionID,
                         pod_object submissionID contestantID img] c of
        (c, Some e) \<Rightarrow> (c, Failed e)
      | (c, None) \<Rightarrow>
          (case kStatusUpdate k nn (run\<lparr>runStatus := Some [''state'' \<mapsto> JString ''Running'', ''startedAt'' \<mapsto> JString stamp]\<rparr>) c of
             (c, Some e) \<Rightarrow> (c, Failed e)
           | (c, None) \<Rightarrow> (c, RequeueAfter (5 * second))))"

text \<open>\<open>time.Since\<close> saturates at the bounds of a \<open>Duration\<close>; the subtraction of two durations wraps.\<close>

definition time_since :: "int \<Rightarrow> int \<Rightarrow> int" where
  "time_since now t = max (- (2 ^ 63)) (min (2 ^ 63 - 1) (now - t))"

definition dur_minus :: "int \<Rightarrow> int \<Rightarrow> int" where
  "dur_minus d e = sint (word_of_int (d - e) :: 64 word)"

definition reconcile_running ::
  "'c kube \<Rightarrow> run_name \<Rightarrow> benchmark_run \<Rightarrow> string \<Rightarrow> int \<Rightarrow> int \<Rightarrow> string \<Rightarrow> 'c \<Rightarrow> 'c \<times> outcome" where
  "reconcile_running k nn run submissionID dur elapsed stamp c =
     (if elapsed \<ge> dur then
        (case kDelete k (runNamespace submissionID) c of (c, e) \<Rightarrow>
          if e \<noteq> None \<and> e \<noteq> Some NotFound then (c, Failed (the e))
          else (case kStatusUpdate k nn (run\<lparr>runStatus := Some [''state'' \<mapsto> JString ''Succeeded'', ''completedAt'' \<mapsto> JString stamp,
                      ''totalOrders'' \<mapsto> JInt 150000, ''successRate'' \<mapsto> JOther ''99.98'']\<rparr>) c of
              (c, Some e) \<Rightarrow> (c, Failed e)
            | (c, None) \<Rightarrow> (c, Done)))
      else (c, RequeueAfter (dur_minus dur elapsed)))"

text \<open>What \<open>Reconcile\<close> reads from the status: empty strings when there is none.\<close>

definition status_field :: "benchmark_run \<Rightarrow> string \<Rightarrow> string" where
  "status_field run k = (case runStatus run of None \<Rightarrow> '''' | Some st \<Rightarrow> str_field st k)"

definition run_duration :: "(string \<Rightarrow> int option) \<Rightarrow> (string \<rightharpoonup> jvalue) \<Rightarrow> int" where
  "run_duration ParseDuration spec =
     (let durationStr = (if str_field spec ''duration'' = '''' then ''60s'' else str_field spec ''duration'')
      in case ParseDuration durationStr of None \<Rightarrow> 60 * second | Some d \<Rightarrow> d)"

text \<open>
  The clock is read at most three times: \<open>reset\<close> for a start time that does not parse, \<open>now\<close>
  for the elapsed time, and \<open>stamp\<close> for the status text.
\<close>

definition Reconcile ::
  "'c kube \<Rightarrow> (string \<Rightarrow> int option) \<Rightarrow> (string \<Rightarrow> int option) \<Rightarrow> int \<Rightarrow> int \<Rightarrow> string \<Rightarrow> run_name \<Rightarrow> 'c \<Rightarrow> 'c \<times> outcome" where
  "Reconcile k ParseDuration ParseTime reset now stamp nn c =
     (case kGet k nn c of
        Inl e \<Rightarrow> (c, if e = NotFound then Done else Failed e)
      | Inr run \<Rightarrow>
          (case runSpec run of
             None \<Rightarrow> (c, InvalidSpec)
           | Some spec \<Rightarrow>
               let contestantID = str_field spec ''contestantId'';
                   submissionID = str_field spec ''submissionId'';
                   img = str_field spec ''image'';
                   dur = run_duration ParseDuration spec;
                   state = status_field run ''state'';
                   startedAtStr = status_field run ''startedAt''
               in
               if state = '''' then reconcile_init k nn run contestantID submissionID img stamp c
               else if state = ''Running'' then
                 let startedAt = (case ParseTime startedAtStr of None \<Rightarrow> reset | Some t \<Rightarrow> t)
                 in reconcile_running k nn run submissionID dur (time_since now startedAt) stamp c
               else (c, Done)))"

section \<open>What the client calls change\<close>

text \<open>\<open>grows\<close>: every object is kept, and what is new is one of \<open>xs\<close>, with the contents given.\<close>

definition grows :: "('c \<Rightarrow> object_key \<rightharpoonup> kobject) \<Rightarrow> kobject set \<Rightarrow> 'c \<Rightarrow> 'c \<Rightarrow> bool" where
  "grows objs X c c' \<longleftrightarrow> objs c \<subseteq>\<^sub>m objs c' \<and>
     (\<forall>y v. objs c' y = Some v \<longrightarrow> objs c y = Some v \<or> v \<in> X \<and> y = key_of v)"

lemma grows_refl: "objs c' = objs c \<Longrightarrow> grows objs X c c'"
  by (simp add: grows_def)

lemma grows_trans: "grows objs X c c' \<Longrightarrow> grows objs Y c' c'' \<Longrightarrow> grows objs (X \<union> Y) c c''"
  unfolding grows_def by (blast intro: map_le_trans)

lemma grows_keeps: "grows objs X c c' \<Longrightarrow> objs c y \<noteq> None \<Longrightarrow> objs c' y = objs c y"
  by (force simp: grows_def map_le_def)

lemma grows_new: "grows objs X c c' \<Longrightarrow> objs c' y = Some v \<Longrightarrow> objs c y = None \<Longrightarrow> v \<in> X \<and> y = key_of v"
  unfolding grows_def by (metis option.distinct(1))

lemma kube_get: "kube_ok k objs stored \<Longrightarrow> kGet k nn c = Inr r \<Longrightarrow> stored c nn = Some r"
  unfolding kube_ok_def by blast

lemma kube_delete:
  "kube_ok k objs stored \<Longrightarrow> kDelete k n c = (c', e) \<Longrightarrow> objs c' \<subseteq>\<^sub>m objs c \<and> stored c' = stored c"
  unfolding kube_ok_def by blast

lemma kube_update:
  "kube_ok k objs stored \<Longrightarrow> kStatusUpdate k nn r c = (c', e) \<Longrightarrow>
   objs c' = objs c \<and> (stored c' = (stored c)(nn \<mapsto> r) \<or> e \<noteq> None \<and> stored c' = stored c)"
  unfolding kube_ok_def by blast

lemma kube_create:
  assumes "kube_ok k objs stored" "try_create k x c = (c', e)"
  shows "stored c' = stored c" "grows objs {x} c c'" "e = None \<Longrightarrow> objs c' (key_of x) \<noteq> None"
proof -
  obtain e0 where e: "kCreate k x c = (c', e0)" "e = (if e0 = Some AlreadyExists then None else e0)"
    using assms(2) by (auto simp: try_create_def split: prod.splits)
  have all: "\<forall>x c c' e. kCreate k x c = (c', e) \<longrightarrow> stored c' = stored c \<and>
        (case e of None \<Rightarrow> objs c (key_of x) = None \<and> objs c' = (objs c)(key_of x \<mapsto> x)
         | Some AlreadyExists \<Rightarrow> objs c (key_of x) \<noteq> None \<and> objs c' = objs c
         | Some _ \<Rightarrow> objs c' = objs c \<or> objs c (key_of x) = None \<and> objs c' = (objs c)(key_of x \<mapsto> x))"
    using assms(1) unfolding kube_ok_def by (elim conjE)
  note s = all [rule_format, OF e(1)]
  have new: "grows objs {x} c c'" if "objs c (key_of x) = None" "objs c' = (objs c)(key_of x \<mapsto> x)"
    using that by (auto simp: grows_def map_le_def)
  show "stored c' = stored c" using s by blast
  show "grows objs {x} c c'" using s new by (auto split: option.splits kerror.splits intro: grows_refl)
  show "objs c' (key_of x) \<noteq> None" if "e = None" using s e(2) that by (auto split: if_splits option.splits kerror.splits)
qed

lemma create_all_laws:
  assumes "kube_ok k objs stored" "create_all k xs c = (c', e)"
  shows "stored c' = stored c \<and> grows objs (set xs) c c' \<and> (e = None \<longrightarrow> (\<forall>x \<in> set xs. objs c' (key_of x) \<noteq> None))"
  using assms(2)
proof (induction xs arbitrary: c)
  case (Cons x xs)
  obtain c1 e1 where k: "try_create k x c = (c1, e1)" by fastforce
  note l = kube_create [OF assms(1) k]
  show ?case
  proof (cases e1)
    case None
    then have ih: "stored c' = stored c1 \<and> grows objs (set xs) c1 c' \<and> (e = None \<longrightarrow> (\<forall>x \<in> set xs. objs c' (key_of x) \<noteq> None))"
      using Cons.prems k by (intro Cons.IH) simp
    then have "objs c' (key_of x) \<noteq> None" using l(3) None grows_keeps [of objs "set xs" c1 c' "key_of x"] by auto
    then show ?thesis using ih l(1) grows_trans [OF l(2), of "set xs" c'] by auto
  next
    case (Some e2)
    then show ?thesis using Cons.prems k l(1,2) by (auto simp: grows_def)
  qed
qed (simp add: grows_refl)

text \<open>Objects are created strictly in order: one that is new implies that all before it exist.\<close>

lemma create_all_order:
  assumes "kube_ok k objs stored" "create_all k (ys @ p # zs) c = (c', e)" "key_of p \<notin> key_of ` set ys"
    "objs c (key_of p) = None" "objs c' (key_of p) \<noteq> None"
  shows "\<forall>x \<in> set ys. objs c' (key_of x) \<noteq> None"
  using assms(2-4)
proof (induction ys arbitrary: c)
  case (Cons x ys)
  obtain c1 e1 where k: "try_create k x c = (c1, e1)" by fastforce
  note l = kube_create [OF assms(1) k]
  have p: "objs c1 (key_of p) = None"
    using l(2) Cons.prems(2,3) unfolding grows_def by (cases "objs c1 (key_of p)") fastforce+
  have e1: "e1 = None" using Cons.prems(1) k p assms(5) by (cases e1) auto
  then have r: "create_all k (ys @ p # zs) c1 = (c', e)" using Cons.prems(1) k by simp
  have "objs c' (key_of x) \<noteq> None"
    using l(3) [OF e1] grows_keeps [of objs _ c1 c' "key_of x"] create_all_laws [OF assms(1) r] by auto
  moreover have "\<forall>x \<in> set ys. objs c' (key_of x) \<noteq> None" using Cons.IH [OF r _ p] Cons.prems(2) by simp
  ultimately show ?case by simp
qed simp

lemmas object_defs = ns_object_def quota_object_def netPol_object_def pod_object_def

text \<open>The transition of \<open>Reconcile\<close> in its first state, with any call failing.\<close>

lemma reconcile_init_laws:
  assumes "kube_ok k objs stored" "reconcile_init k nn run cid sid img stamp c = (c', out)"
  shows "grows objs {ns_object sid, quota_object sid, netPol_object sid, pod_object sid cid img} c c'"
    "objs c (key_of (pod_object sid cid img)) = None \<Longrightarrow> objs c' (key_of (pod_object sid cid img)) \<noteq> None \<Longrightarrow>
       \<forall>x \<in> {ns_object sid, quota_object sid, netPol_object sid}. objs c' (key_of x) \<noteq> None"
    "stored c' \<noteq> stored c \<Longrightarrow>
       stored c' = (stored c)(nn \<mapsto> run\<lparr>runStatus := Some [''state'' \<mapsto> JString ''Running'', ''startedAt'' \<mapsto> JString stamp]\<rparr>) \<and>
       (\<forall>x \<in> {ns_object sid, quota_object sid, netPol_object sid, pod_object sid cid img}. objs c' (key_of x) \<noteq> None)"
proof -
  let ?ys = "[ns_object sid, quota_object sid, netPol_object sid]" and ?p = "pod_object sid cid img"
  obtain c1 e1 where a: "create_all k (?ys @ [?p]) c = (c1, e1)" by fastforce
  note l = create_all_laws [OF assms(1) a]
  have o: "objs c' = objs c1" and s: "stored c' = stored c1 \<or> e1 = None \<and>
      stored c' = (stored c1)(nn \<mapsto> run\<lparr>runStatus := Some [''state'' \<mapsto> JString ''Running'', ''startedAt'' \<mapsto> JString stamp]\<rparr>)"
    using assms(2) a by (auto simp: reconcile_init_def split: option.splits prod.splits dest!: kube_update [OF assms(1)])
  show "grows objs {ns_object sid, quota_object sid, netPol_object sid, ?p} c c'"
    using l o by (simp add: grows_def insert_commute)
  show "\<forall>x \<in> {ns_object sid, quota_object sid, netPol_object sid}. objs c' (key_of x) \<noteq> None"
    if "objs c (key_of ?p) = None" "objs c' (key_of ?p) \<noteq> None"
    using create_all_order [OF assms(1) a _ that(1)] that(2) o by (simp add: object_defs)
  show "stored c' = (stored c)(nn \<mapsto> run\<lparr>runStatus := Some [''state'' \<mapsto> JString ''Running'', ''startedAt'' \<mapsto> JString stamp]\<rparr>) \<and>
       (\<forall>x \<in> {ns_object sid, quota_object sid, netPol_object sid, ?p}. objs c' (key_of x) \<noteq> None)" if "stored c' \<noteq> stored c"
    using that s l o by auto
qed

lemma reconcile_running_laws:
  assumes "kube_ok k objs stored" "reconcile_running k nn run sid dur elapsed stamp c = (c', out)"
  shows "objs c' \<subseteq>\<^sub>m objs c"
    "stored c' \<noteq> stored c \<Longrightarrow> dur \<le> elapsed \<and> (\<exists>st. str_field st ''state'' = ''Succeeded'' \<and> stored c' = (stored c)(nn \<mapsto> run\<lparr>runStatus := Some st\<rparr>))"
proof -
  have r: "objs c' \<subseteq>\<^sub>m objs c \<and> (stored c' = stored c \<or> dur \<le> elapsed \<and> (\<exists>st. str_field st ''state'' = ''Succeeded'' \<and>
      stored c' = (stored c)(nn \<mapsto> run\<lparr>runStatus := Some st\<rparr>)))"
  proof (cases "dur \<le> elapsed")
    case True
    obtain c1 e1 where d: "kDelete k (runNamespace sid) c = (c1, e1)" by fastforce
    define st where "st = [''state'' \<mapsto> JString ''Succeeded'', ''completedAt'' \<mapsto> JString stamp,
      ''totalOrders'' \<mapsto> JInt 150000, ''successRate'' \<mapsto> JOther ''99.98'']"
    have "str_field st ''state'' = ''Succeeded''" by (simp add: st_def str_field_def)
    moreover obtain c2 e2 where u: "kStatusUpdate k nn (run\<lparr>runStatus := Some st\<rparr>) c1 = (c2, e2)" by fastforce
    moreover have "c' = c1 \<or> c' = c2"
      using assms(2) True d u by (auto simp: reconcile_running_def st_def split: if_splits option.splits)
    ultimately show ?thesis using kube_delete [OF assms(1) d] kube_update [OF assms(1) u] True by auto
  next
    case False
    then show ?thesis using assms(2) by (simp add: reconcile_running_def)
  qed
  then show "objs c' \<subseteq>\<^sub>m objs c" by blast
  show "dur \<le> elapsed \<and> (\<exists>st. str_field st ''state'' = ''Succeeded'' \<and> stored c' = (stored c)(nn \<mapsto> run\<lparr>runStatus := Some st\<rparr>))"
    if "stored c' \<noteq> stored c" using r that by blast
qed

text \<open>Which of the two transitions a call of \<open>Reconcile\<close> that changes anything has taken.\<close>

lemma Reconcile_cases:
  assumes "kube_ok k objs stored" "Reconcile k PD PT reset now stamp nn c = (c', out)"
  obtains (idle) "c' = c"
  | (init) run spec where "stored c nn = Some run" "runSpec run = Some spec" "status_field run ''state'' = ''''"
      "reconcile_init k nn run (str_field spec ''contestantId'') (str_field spec ''submissionId'') (str_field spec ''image'') stamp c = (c', out)"
  | (running) run spec where "stored c nn = Some run" "runSpec run = Some spec" "status_field run ''state'' = ''Running''"
      "reconcile_running k nn run (str_field spec ''submissionId'') (run_duration PD spec)
         (time_since now (case PT (status_field run ''startedAt'') of None \<Rightarrow> reset | Some t \<Rightarrow> t)) stamp c = (c', out)"
proof (cases "kGet k nn c")
  case (Inl e)
  then show thesis using assms(2) idle by (simp add: Reconcile_def)
next
  case (Inr run)
  note s = kube_get [OF assms(1) Inr]
  show thesis
  proof (cases "runSpec run")
    case None
    then show thesis using assms(2) Inr idle by (simp add: Reconcile_def)
  next
    case (Some spec)
    then show thesis using assms(2) Inr init [OF s Some] running [OF s Some] idle
      by (auto simp: Reconcile_def Let_def split: if_splits)
  qed
qed

section \<open>An example cluster\<close>

type_synonym ex_cluster = "(object_key \<rightharpoonup> kobject) \<times> (run_name \<rightharpoonup> benchmark_run)"

text \<open>The namespace that an object is in, or is.\<close>

fun ns_of :: "object_key \<Rightarrow> string" where
  "ns_of (kd, ns, n) = (if kd = ''Namespace'' \<and> ns = '''' then n else ns)"

definition ex_kube :: "ex_cluster kube" where
  "ex_kube = \<lparr>
     kGet = (\<lambda>nn (s, r). case r nn of None \<Rightarrow> Inl NotFound | Some run \<Rightarrow> Inr run),
     kCreate = (\<lambda>x (s, r). if s (key_of x) = None then ((s(key_of x \<mapsto> x), r), None) else ((s, r), Some AlreadyExists)),
     kDelete = (\<lambda>n (s, r). ((\<lambda>y. if ns_of y = n then None else s y, r), None)),
     kStatusUpdate = (\<lambda>nn run (s, r). ((s, r(nn \<mapsto> run)), None))\<rparr>"

lemma ex_kube_ok: "kube_ok ex_kube fst snd"
  unfolding kube_ok_def ex_kube_def by (auto simp: map_le_def split: option.splits if_splits)

definition ex_run :: "(string \<rightharpoonup> jvalue) option \<Rightarrow> benchmark_run" where
  "ex_run st = \<lparr>runSpec = Some [''submissionId'' \<mapsto> JString ''s1'', ''contestantId'' \<mapsto> JString ''c1'',
     ''image'' \<mapsto> JString ''engine:1'', ''duration'' \<mapsto> JString ''30s''], runStatus = st\<rparr>"

definition ex_cluster :: "(string \<rightharpoonup> jvalue) option \<Rightarrow> ex_cluster" where
  "ex_cluster st = (Map.empty, [(''ns'', ''run'') \<mapsto> ex_run st])"

definition ex_running :: "string \<rightharpoonup> jvalue" where
  "ex_running = [''state'' \<mapsto> JString ''Running'', ''startedAt'' \<mapsto> JString ''T'']"

definition ex_dur :: "string \<Rightarrow> int option" where
  "ex_dur s = (if s = ''30s'' then Some (30 * second) else None)"

definition ex_time :: "string \<Rightarrow> int option" where
  "ex_time s = (if s = ''T'' then Some 0 else None)"

section \<open>Properties\<close>

text \<open>
  Contestant code is contained before it runs: whatever client calls fail, if \<open>Reconcile\<close>
  leaves a pod that was not there before, then it is the pod of the run's submission, the run was
  in its initial state, and the namespace, the quota and the network policy of that namespace
  exist, with the contents the controller gives them unless they existed before; the policy
  selects the pod, covers egress and allows none.
\<close>

theorem pod_contained:
  assumes "kube_ok k objs stored" "Reconcile k PD PT reset now stamp nn c = (c', out)"
    "objs c (key_of (Pod n ns ls cs)) = None" "objs c' (key_of (Pod n ns ls cs)) = Some (Pod n ns ls cs)"
  shows "\<exists>run spec sid np. stored c nn = Some run \<and> runSpec run = Some spec \<and> status_field run ''state'' = '''' \<and>
     sid = str_field spec ''submissionId'' \<and>
     Pod n ns ls cs = pod_object sid (str_field spec ''contestantId'') (str_field spec ''image'') \<and>
     (\<forall>x \<in> {ns_object sid, quota_object sid, netPol_object sid}.
        objs c' (key_of x) \<noteq> None \<and> (objs c (key_of x) = None \<longrightarrow> objs c' (key_of x) = Some x)) \<and>
     netPol_object sid = NetworkPolicy ''block-egress'' ns np \<and>
     set (npPodSelector np) \<subseteq> set ls \<and> ''Egress'' \<in> set (npPolicyTypes np) \<and> npEgress np = []"
  using assms(1,2)
proof (cases rule: Reconcile_cases)
  case idle
  then show ?thesis using assms(3,4) by simp
next
  case (init run spec)
  let ?sid = "str_field spec ''submissionId''"
  let ?p = "pod_object ?sid (str_field spec ''contestantId'') (str_field spec ''image'')"
  note l = reconcile_init_laws [OF assms(1) init(4)]
  have p: "Pod n ns ls cs = ?p"
    using grows_new [OF l(1) assms(4,3)] by (auto simp: object_defs)
  then have e: "\<forall>x \<in> {ns_object ?sid, quota_object ?sid, netPol_object ?sid}. objs c' (key_of x) \<noteq> None"
    using l(2) assms(3,4) by auto
  have new: "objs c' (key_of x) = Some x"
    if x: "x \<in> {ns_object ?sid, quota_object ?sid, netPol_object ?sid}" and n: "objs c (key_of x) = None" for x
  proof -
    obtain v where v: "objs c' (key_of x) = Some v" using e x by auto
    then have "v \<in> {ns_object ?sid, quota_object ?sid, netPol_object ?sid, ?p}" "key_of x = key_of v"
      using grows_new [OF l(1) v n] by simp_all
    then show ?thesis using v x by (auto simp: object_defs)
  qed
  have "\<exists>np. netPol_object ?sid = NetworkPolicy ''block-egress'' ns np \<and> set (npPodSelector np) \<subseteq> set ls \<and>
      ''Egress'' \<in> set (npPolicyTypes np) \<and> npEgress np = []" using p by (simp add: netPol_object_def pod_object_def)
  with init(1-3) p e new show ?thesis by blast
next
  case (running run spec)
  then have "objs c' \<subseteq>\<^sub>m objs c" using reconcile_running_laws(1) [OF assms(1)] by blast
  then show ?thesis using assms(3,4) by (force simp: map_le_def)
qed

theorem pod_contained_witness:
  "\<exists>c' out. Reconcile ex_kube ex_dur ex_time 0 0 ''T'' (''ns'', ''run'') (ex_cluster None) = (c', out) \<and>
     fst c' (key_of (netPol_object ''s1'')) = Some (netPol_object ''s1'')"
proof -
  let ?r = "Reconcile ex_kube ex_dur ex_time 0 0 ''T'' (''ns'', ''run'') (ex_cluster None)"
  have p: "fst (fst ?r) (key_of (pod_object ''s1'' ''c1'' ''engine:1'')) = Some (pod_object ''s1'' ''c1'' ''engine:1'')"
    by code_simp
  have n: "fst (ex_cluster None) y = None" "snd (ex_cluster None) (''ns'', ''run'') = Some (ex_run None)" for y
    by (simp_all add: ex_cluster_def)
  have "\<exists>run spec sid np. snd (ex_cluster None) (''ns'', ''run'') = Some run \<and> runSpec run = Some spec \<and> status_field run ''state'' = '''' \<and>
     sid = str_field spec ''submissionId'' \<and>
     pod_object ''s1'' ''c1'' ''engine:1'' = pod_object sid (str_field spec ''contestantId'') (str_field spec ''image'') \<and>
     (\<forall>x \<in> {ns_object sid, quota_object sid, netPol_object sid}.
        fst (fst ?r) (key_of x) \<noteq> None \<and> (fst (ex_cluster None) (key_of x) = None \<longrightarrow> fst (fst ?r) (key_of x) = Some x)) \<and>
     netPol_object sid = NetworkPolicy ''block-egress'' (runNamespace ''s1'') np \<and>
     set (npPodSelector np) \<subseteq> set [(''role'', ''contestant''), (''contestant-id'', ''c1'')] \<and> ''Egress'' \<in> set (npPolicyTypes np) \<and> npEgress np = []"
    unfolding pod_object_def [of "''s1''"]
    by (rule pod_contained [OF ex_kube_ok, of _ _ _ _ _ _ _ _ "snd ?r"]) (use p n in \<open>simp_all add: pod_object_def\<close>)
  then have "fst (fst ?r) (key_of (netPol_object ''s1'')) = Some (netPol_object ''s1'')"
    using n by (auto simp: ex_run_def str_field_def)
  then show ?thesis by (metis prod.collapse)
qed

text \<open>
  C14. The life cycle of a run: a call of \<open>Reconcile\<close> that changes any stored run changes only
  the one it was called for, and only its status, either from the initial state to \<open>Running\<close>,
  with all four objects in place and the start time recorded, or from \<open>Running\<close> to
  \<open>Succeeded\<close>, and then the duration of the run has elapsed.  No other state is ever left.
\<close>

theorem reconcile_lifecycle:
  assumes "kube_ok k objs stored" "Reconcile k PD PT reset now stamp nn c = (c', out)" "stored c' \<noteq> stored c"
  shows "\<exists>run spec st. stored c nn = Some run \<and> runSpec run = Some spec \<and>
     stored c' = (stored c)(nn \<mapsto> run\<lparr>runStatus := Some st\<rparr>) \<and>
     (status_field run ''state'' = '''' \<and> str_field st ''state'' = ''Running'' \<and> str_field st ''startedAt'' = stamp \<and>
        (let sid = str_field spec ''submissionId'' in
           \<forall>x \<in> {ns_object sid, quota_object sid, netPol_object sid,
                  pod_object sid (str_field spec ''contestantId'') (str_field spec ''image'')}. objs c' (key_of x) \<noteq> None)
      \<or> status_field run ''state'' = ''Running'' \<and> str_field st ''state'' = ''Succeeded'' \<and>
        run_duration PD spec \<le> time_since now (case PT (status_field run ''startedAt'') of None \<Rightarrow> reset | Some t \<Rightarrow> t))"
  using assms(1,2)
proof (cases rule: Reconcile_cases)
  case idle
  then show ?thesis using assms(3) by simp
next
  case (init run spec)
  let ?st = "[''state'' \<mapsto> JString ''Running'', ''startedAt'' \<mapsto> JString stamp]"
  have "str_field ?st ''state'' = ''Running''" "str_field ?st ''startedAt'' = stamp" by (simp_all add: str_field_def)
  with init(1-3) reconcile_init_laws(3) [OF assms(1) init(4) assms(3)] show ?thesis unfolding Let_def by blast
next
  case (running run spec)
  with reconcile_running_laws(2) [OF assms(1) running(4) assms(3)] show ?thesis by blast
qed

theorem reconcile_lifecycle_witness:
  "status_field (the (snd (fst (Reconcile ex_kube ex_dur ex_time 0 0 ''T'' (''ns'', ''run'') (ex_cluster None))) (''ns'', ''run''))) ''startedAt'' = ''T''"
proof -
  let ?r = "Reconcile ex_kube ex_dur ex_time 0 0 ''T'' (''ns'', ''run'') (ex_cluster None)"
  have "status_field (the (snd (fst ?r) (''ns'', ''run''))) ''state'' \<noteq> status_field (the (snd (ex_cluster None) (''ns'', ''run''))) ''state''"
    by code_simp
  then have d: "snd (fst ?r) \<noteq> snd (ex_cluster None)" by metis
  have s: "snd (ex_cluster None) (''ns'', ''run'') = Some (ex_run None)" "status_field (ex_run None) ''state'' = ''''"
    by (simp_all add: ex_cluster_def ex_run_def status_field_def)
  from reconcile_lifecycle [OF ex_kube_ok prod.collapse [symmetric] d] s show ?thesis by (auto simp: status_field_def)
qed

text \<open>
  C27. A run completes on time: while a run whose start time parses is within its duration,
  \<open>Reconcile\<close> changes nothing and asks to be called again after exactly the remaining time, and
  when it is called then or at any later time, with the client calls succeeding, the run becomes
  \<open>Succeeded\<close> and is not queued again.
\<close>

theorem run_completes:
  assumes "kube_ok k objs stored" "kGet k nn c = Inr run" "runSpec run = Some spec" "status_field run ''state'' = ''Running''"
    and "PT (status_field run ''startedAt'') = Some t" "d = run_duration PD spec" "d < 2 ^ 63" "t \<le> now" "now - t < d"
    and "kDelete k (runNamespace (str_field spec ''submissionId'')) c = (c1, e)" "e = None \<or> e = Some NotFound"
    and "\<forall>r. snd (kStatusUpdate k nn r c1) = None" "now + (t + d - now) \<le> later"
  shows "Reconcile k PD PT reset now stamp nn c = (c, RequeueAfter (t + d - now)) \<and>
     (\<exists>c' run'. Reconcile k PD PT reset' later stamp' nn c = (c', Done) \<and> stored c' nn = Some run' \<and>
        runSpec run' = runSpec run \<and> status_field run' ''state'' = ''Succeeded'')"
proof
  have "time_since now t = now - t" using assms(7-9) by (simp add: time_since_def)
  moreover have "dur_minus d (now - t) = t + d - now" using assms(7-9) sint_of_int63 [of "t + d - now"] by (simp add: dur_minus_def algebra_simps)
  ultimately show "Reconcile k PD PT reset now stamp nn c = (c, RequeueAfter (t + d - now))"
    using assms(2-6,9) by (simp add: Reconcile_def reconcile_running_def)
next
  define st where "st = [''state'' \<mapsto> JString ''Succeeded'', ''completedAt'' \<mapsto> JString stamp',
      ''totalOrders'' \<mapsto> JInt 150000, ''successRate'' \<mapsto> JOther ''99.98'']"
  obtain c2 where u: "kStatusUpdate k nn (run\<lparr>runStatus := Some st\<rparr>) c1 = (c2, None)" using assms(12) by (metis prod.collapse)
  have "d \<le> time_since later t" using assms(7,13) by (simp add: time_since_def)
  then have "Reconcile k PD PT reset' later stamp' nn c = (c2, Done)"
    using assms(2-6,10,11) u by (auto simp: Reconcile_def reconcile_running_def st_def)
  moreover have "stored c2 nn = Some (run\<lparr>runStatus := Some st\<rparr>)" using kube_update [OF assms(1) u] by simp
  moreover have "status_field (run\<lparr>runStatus := Some st\<rparr>) ''state'' = ''Succeeded''" by (simp add: st_def status_field_def str_field_def)
  ultimately show "\<exists>c' run'. Reconcile k PD PT reset' later stamp' nn c = (c', Done) \<and> stored c' nn = Some run' \<and>
        runSpec run' = runSpec run \<and> status_field run' ''state'' = ''Succeeded''" by force
qed

theorem run_completes_witness:
  "Reconcile ex_kube ex_dur ex_time 0 second ''T2'' (''ns'', ''run'') (ex_cluster (Some ex_running)) =
     (ex_cluster (Some ex_running), RequeueAfter (29 * second)) \<and>
   (\<exists>c' run'. Reconcile ex_kube ex_dur ex_time 0 (30 * second) ''T3'' (''ns'', ''run'') (ex_cluster (Some ex_running)) = (c', Done) \<and>
      snd c' (''ns'', ''run'') = Some run' \<and> status_field run' ''state'' = ''Succeeded'')"
proof -
  let ?run = "ex_run (Some ex_running)" and ?c = "ex_cluster (Some ex_running)"
  obtain c1 where d: "kDelete ex_kube (runNamespace ''s1'') ?c = (c1, None)" by (simp add: ex_kube_def ex_cluster_def)
  have g: "kGet ex_kube (''ns'', ''run'') ?c = Inr ?run" by (simp add: ex_kube_def ex_cluster_def)
  obtain spec where s: "runSpec ?run = Some spec" "str_field spec ''submissionId'' = ''s1''" "run_duration ex_dur spec = 30 * second"
    by (simp add: ex_run_def str_field_def run_duration_def ex_dur_def)
  have f: "status_field ?run ''state'' = ''Running''" "ex_time (status_field ?run ''startedAt'') = Some 0"
    by (simp_all add: status_field_def ex_run_def ex_running_def str_field_def ex_time_def)
  have "\<forall>r. snd (kStatusUpdate ex_kube (''ns'', ''run'') r c1) = None" by (cases c1) (simp add: ex_kube_def)
  from run_completes [where k = ex_kube and PT = ex_time and PD = ex_dur and t = 0 and d = "30 * second" and now = second and e = None
      and later = "30 * second" and reset = 0 and reset' = 0 and stamp = "''T2''" and stamp' = "''T3''", OF ex_kube_ok g s(1) f
      s(3) [symmetric] _ _ _ _ _ this]
  show ?thesis using d s(2) by (simp add: second_def) blast
qed

text \<open>
  A run in state \<open>Running\<close> whose start time does not parse never completes: the start time
  is taken to be the current time at every call and never stored, so as long as a call takes less
  than the duration of the run, it changes nothing, no matter how much time has passed.
\<close>

theorem invalid_start_never_completes:
  assumes "kGet k nn c = Inr run" "runSpec run = Some spec" "status_field run ''state'' = ''Running''"
    and "PT (status_field run ''startedAt'') = None" "reset \<le> now" "now - reset < run_duration PD spec"
  shows "\<exists>d. Reconcile k PD PT reset now stamp nn c = (c, RequeueAfter d)"
proof -
  have "time_since now reset < run_duration PD spec" using assms(5,6) by (simp add: time_since_def)
  then show ?thesis using assms by (simp add: Reconcile_def reconcile_running_def)
qed

theorem invalid_start_never_completes_witness:
  "\<exists>d. Reconcile ex_kube ex_dur ex_time (10 ^ 18) (10 ^ 18) ''T'' (''ns'', ''run'') (ex_cluster (Some [''state'' \<mapsto> JString ''Running''])) =
     (ex_cluster (Some [''state'' \<mapsto> JString ''Running'']), RequeueAfter d)"
  by (rule invalid_start_never_completes [where run = "ex_run (Some [''state'' \<mapsto> JString ''Running''])" and spec = "the (runSpec (ex_run None))"])
    (simp_all add: ex_kube_def ex_cluster_def ex_run_def status_field_def str_field_def ex_time_def run_duration_def ex_dur_def second_def)

end
