(* ===== verification/Controller_System.thy ===== *)
theory Controller_System
  imports Controller
begin

text \<open>
  The benchmark controller in a cluster that lives on: users create, change and delete
  \<open>BenchmarkRun\<close> resources, the manager calls \<open>Reconcile\<close> for any of them at any time, and the
  namespaces that were deleted are emptied step by step and in any order.  Only the controller
  creates the objects of the runs.
\<close>

section \<open>Runs of the system\<close>

text \<open>Deleting a namespace concerns the objects in that namespace only.\<close>

definition delete_local :: "'c kube \<Rightarrow> ('c \<Rightarrow> object_key \<rightharpoonup> kobject) \<Rightarrow> bool" where
  "delete_local k objs \<longleftrightarrow> (\<forall>n c c' e y. kDelete k n c = (c', e) \<and> ns_of y \<noteq> n \<longrightarrow> objs c' y = objs c y)"

text \<open>The namespace that a call of \<open>Reconcile\<close> deletes: that of a run whose time is up.\<close>

definition tears_down ::
  "'c kube \<Rightarrow> (string \<Rightarrow> int option) \<Rightarrow> (string \<Rightarrow> int option) \<Rightarrow> int \<Rightarrow> int \<Rightarrow> run_name \<Rightarrow> 'c \<Rightarrow> string set" where
  "tears_down k PD PT reset now nn c = (case kGet k nn c of
     Inl e \<Rightarrow> {}
   | Inr run \<Rightarrow> (case runSpec run of
       None \<Rightarrow> {}
     | Some spec \<Rightarrow>
         if status_field run ''state'' = ''Running'' \<and>
            run_duration PD spec \<le> time_since now (case PT (status_field run ''startedAt'') of None \<Rightarrow> reset | Some t \<Rightarrow> t)
         then {runNamespace (str_field spec ''submissionId'')} else {}))"

text \<open>\<open>D\<close> are the namespaces that have been deleted and may not be empty yet; a later run of the
  same submission creates its namespace anew.\<close>

inductive ctl_run :: "'c kube \<Rightarrow> ('c \<Rightarrow> object_key \<rightharpoonup> kobject) \<Rightarrow> 'c \<Rightarrow> string set \<Rightarrow> bool" for k objs where
  init: "objs c = Map.empty \<Longrightarrow> ctl_run k objs c {}"
| users: "ctl_run k objs c D \<Longrightarrow> objs c' = objs c \<Longrightarrow> ctl_run k objs c' D"
| reconcile: "ctl_run k objs c D \<Longrightarrow> Reconcile k PD PT reset now stamp nn c = (c', out) \<Longrightarrow>
    ctl_run k objs c' (D \<union> tears_down k PD PT reset now nn c)"
| collect: "ctl_run k objs c D \<Longrightarrow> objs c' \<subseteq>\<^sub>m objs c \<Longrightarrow> \<forall>y. ns_of y \<notin> D \<longrightarrow> objs c' y = objs c y \<Longrightarrow> ctl_run k objs c' D"
| gone: "ctl_run k objs c D \<Longrightarrow> \<forall>y. ns_of y = n \<longrightarrow> objs c y = None \<Longrightarrow> ctl_run k objs c (D - {n})"

section \<open>Containment as an invariant\<close>

definition guards :: "string \<Rightarrow> kobject set" where
  "guards sid = {ns_object sid, quota_object sid, netPol_object sid}"

definition run_objects :: "string \<Rightarrow> kobject set" where
  "run_objects sid = guards sid \<union> {pod_object sid cid img | cid img. True}"

lemma runNamespace_inj [simp]: "runNamespace sid = runNamespace sid' \<longleftrightarrow> sid = sid'"
  by (simp add: runNamespace_def)

lemma guards_unique:
  assumes "x \<in> guards sid" "v \<in> run_objects sid'" "key_of v = key_of x"
  shows "v = x"
  using assms by (auto simp: guards_def run_objects_def object_defs)

lemma ns_of_run_objects: "v \<in> run_objects sid \<Longrightarrow> ns_of (key_of v) = runNamespace sid"
  by (auto simp: run_objects_def guards_def object_defs)

definition pod_key :: "string \<Rightarrow> object_key" where
  "pod_key sid = (''Pod'', runNamespace sid, ''contestant-engine'')"

lemma key_pod [simp]: "key_of (pod_object sid cid img) = pod_key sid"
  by (simp add: pod_object_def pod_key_def)

definition all_contained :: "(object_key \<rightharpoonup> kobject) \<Rightarrow> string set \<Rightarrow> bool" where
  "all_contained ob D \<longleftrightarrow> (\<forall>y v. ob y = Some v \<longrightarrow> y = key_of v \<and> (\<exists>sid. v \<in> run_objects sid)) \<and>
     (\<forall>sid. ob (pod_key sid) \<noteq> None \<and> runNamespace sid \<notin> D \<longrightarrow> (\<forall>x \<in> guards sid. ob (key_of x) = Some x))"

lemma all_containedD:
  assumes "all_contained ob D"
  shows "ob y = Some v \<Longrightarrow> y = key_of v \<and> (\<exists>sid. v \<in> run_objects sid)"
    and "ob (pod_key sid) \<noteq> None \<Longrightarrow> runNamespace sid \<notin> D \<Longrightarrow> x \<in> guards sid \<Longrightarrow> ob (key_of x) = Some x"
  using assms unfolding all_contained_def by blast+

text \<open>Emptying deleted namespaces keeps it.\<close>

lemma all_contained_shrink:
  assumes "all_contained ob D" "ob' \<subseteq>\<^sub>m ob" "\<forall>y. ns_of y \<notin> D' \<longrightarrow> ob' y = ob y" "D \<subseteq> D'"
  shows "all_contained ob' D'"
  unfolding all_contained_def
proof (intro conjI allI impI ballI)
  have sub: "ob y = Some v" if "ob' y = Some v" for y v using assms(2) that by (metis domI map_le_def)
  fix y v assume "ob' y = Some v"
  then show "y = key_of v" "\<exists>sid. v \<in> run_objects sid" using all_containedD(1) [OF assms(1) sub] by blast+
next
  fix sid x assume a: "ob' (pod_key sid) \<noteq> None \<and> runNamespace sid \<notin> D'" and x: "x \<in> guards sid"
  have "ob' (pod_key sid) = ob (pod_key sid)" using a assms(3) by (simp add: pod_key_def)
  then have "ob (key_of x) = Some x" using all_containedD(2) [OF assms(1)] a x assms(4) by auto
  moreover have "ns_of (key_of x) = runNamespace sid" using x ns_of_run_objects [of x sid] by (simp add: run_objects_def)
  ultimately show "ob' (key_of x) = Some x" using a assms(3) by metis
qed

text \<open>The initial transition of a run keeps it.\<close>

lemma all_contained_init:
  assumes "kube_ok k objs stored" "reconcile_init k nn run cid sid img stamp c = (c', out)" "all_contained (objs c) D"
  shows "all_contained (objs c') D"
  unfolding all_contained_def
proof (intro conjI allI impI ballI)
  note l = reconcile_init_laws [OF assms(1,2)]
  have owned: "y = key_of v \<and> (\<exists>sid. v \<in> run_objects sid)" if "objs c' y = Some v" for y v
  proof (cases "objs c y")
    case None
    from grows_new [OF l(1) that None] show ?thesis by (auto simp: run_objects_def guards_def)
  next
    case (Some w)
    then show ?thesis using grows_keeps [OF l(1)] that all_containedD(1) [OF assms(3)] by simp
  qed
  then show "y = key_of v" "\<exists>sid. v \<in> run_objects sid" if "objs c' y = Some v" for y v using that by blast+
  fix sid' x assume a: "objs c' (pod_key sid') \<noteq> None \<and> runNamespace sid' \<notin> D" and x: "x \<in> guards sid'"
  show "objs c' (key_of x) = Some x"
  proof (cases "objs c (pod_key sid')")
    case None
    obtain v where v: "objs c' (pod_key sid') = Some v" using a by auto
    then have "sid' = sid" using grows_new [OF l(1) v None] by (auto simp: object_defs pod_key_def)
    then have "objs c' (key_of x) \<noteq> None" using l(2) a x None by (auto simp: guards_def)
    then obtain w where w: "objs c' (key_of x) = Some w" by blast
    then show ?thesis using owned [OF w] guards_unique [OF x] by fastforce
  next
    case (Some v)
    then have "objs c (key_of x) = Some x" using all_containedD(2) [OF assms(3) _ _ x] a by simp
    then show ?thesis using grows_keeps [OF l(1), of "key_of x"] by simp
  qed
qed

lemma reconcile_running_local:
  assumes "kube_ok k objs stored" "delete_local k objs" "reconcile_running k nn run sid dur elapsed stamp c = (c', out)"
    and "dur \<le> elapsed \<longrightarrow> ns_of y \<noteq> runNamespace sid"
  shows "objs c' y = objs c y"
proof (cases "dur \<le> elapsed")
  case True
  obtain c1 e1 where d: "kDelete k (runNamespace sid) c = (c1, e1)" by fastforce
  have "objs c1 y = objs c y" using assms(2,4) True d unfolding delete_local_def by blast
  moreover have "objs c' = objs c1" using assms(3) True d
    by (auto simp: reconcile_running_def split: if_splits option.splits prod.splits dest!: kube_update [OF assms(1)])
  ultimately show ?thesis by simp
qed (use assms(3) in \<open>simp add: reconcile_running_def\<close>)

lemma ctl_run_contained:
  assumes "kube_ok k objs stored" "delete_local k objs" "ctl_run k objs c D"
  shows "all_contained (objs c) D"
  using assms(3)
proof (induction rule: ctl_run.induct)
  case (init c)
  then show ?case by (simp add: all_contained_def)
next
  case (reconcile c D PD PT reset now stamp nn c' out)
  let ?D = "D \<union> tears_down k PD PT reset now nn c"
  have keep: "all_contained (objs c) ?D" by (rule all_contained_shrink [OF reconcile.IH]) auto
  from reconcile.hyps(2) show ?case
  proof (cases "kGet k nn c")
    case (Inr run)
    show ?thesis
    proof (cases "runSpec run")
      case (Some spec)
      let ?sid = "str_field spec ''submissionId''"
      let ?el = "time_since now (case PT (status_field run ''startedAt'') of None \<Rightarrow> reset | Some t \<Rightarrow> t)"
      consider "reconcile_init k nn run (str_field spec ''contestantId'') ?sid (str_field spec ''image'') stamp c = (c', out)"
        | "status_field run ''state'' = ''Running''" "reconcile_running k nn run ?sid (run_duration PD spec) ?el stamp c = (c', out)"
        | "c' = c"
        using reconcile.hyps(2) Inr Some by (auto simp: Reconcile_def Let_def split: if_splits)
      then show ?thesis
      proof cases
        case 1
        then show ?thesis using all_contained_init [OF assms(1) _ keep] by blast
      next
        case 2
        have "\<forall>y. ns_of y \<notin> ?D \<longrightarrow> objs c' y = objs c y"
          using reconcile_running_local [OF assms(1,2) 2(2)] 2(1) Inr Some by (auto simp: tears_down_def)
        then show ?thesis using all_contained_shrink [OF reconcile.IH reconcile_running_laws(1) [OF assms(1) 2(2)]] by blast
      qed (use keep in simp)
    qed (use reconcile.hyps(2) Inr keep in \<open>simp add: Reconcile_def\<close>)
  qed (use reconcile.hyps(2) keep in \<open>simp add: Reconcile_def\<close>)
next
  case (collect c D c')
  then show ?case using all_contained_shrink by blast
next
  case (gone c D n)
  then show ?case unfolding all_contained_def by (auto simp: pod_key_def)
qed simp

section \<open>Properties\<close>

text \<open>
  C10. Contestant code is contained at all times: starting from an empty cluster, whatever users
  submit, whenever and in whatever order the controller is called, and whichever client calls
  fail, every pod of a run lives in a namespace of its own in which, unless that namespace is
  being deleted at the end of a run, the quota and the network policy of the controller are in
  force: the policy selects the pod and lets nothing out.
\<close>

theorem cluster_contained:
  assumes "kube_ok k objs stored" "delete_local k objs" "ctl_run k objs c D" "objs c (''Pod'', ns, n) = Some p" "ns \<notin> D"
  shows "\<exists>sid cid img np. p = pod_object sid cid img \<and> ns = runNamespace sid \<and> objs c (key_of (ns_object sid)) = Some (ns_object sid) \<and>
     objs c (key_of (quota_object sid)) = Some (quota_object sid) \<and>
     objs c (''NetworkPolicy'', ns, ''block-egress'') = Some (NetworkPolicy ''block-egress'' ns np) \<and>
     npPodSelector np = [(''role'', ''contestant'')] \<and> ''Egress'' \<in> set (npPolicyTypes np) \<and> npEgress np = []"
proof -
  note a = ctl_run_contained [OF assms(1-3)]
  obtain sid where v: "(''Pod'', ns, n) = key_of p" "p \<in> run_objects sid" using all_containedD(1) [OF a assms(4)] by blast
  then obtain cid img where p: "p = pod_object sid cid img" by (auto simp: run_objects_def guards_def object_defs)
  then have k: "ns = runNamespace sid" "(''Pod'', ns, n) = pod_key sid" using v(1) by (simp_all add: pod_key_def)
  have g: "objs c (key_of x) = Some x" if "x \<in> guards sid" for x
    using all_containedD(2) [OF a _ _ that] assms(4,5) k by simp
  have np: "netPol_object sid \<in> guards sid" by (simp add: guards_def)
  show ?thesis using p k g [of "ns_object sid"] g [of "quota_object sid"] g [OF np] by (auto simp: guards_def netPol_object_def)
qed

lemma ex_kube_local: "delete_local ex_kube fst"
  by (auto simp: delete_local_def ex_kube_def)

theorem cluster_contained_witness:
  "let c = fst (Reconcile ex_kube ex_dur ex_time 0 0 ''T'' (''ns'', ''run'') (ex_cluster None)) in
   \<exists>np. fst c (''NetworkPolicy'', ''run-s1'', ''block-egress'') = Some (NetworkPolicy ''block-egress'' ''run-s1'' np) \<and> npEgress np = []"
proof -
  let ?r = "Reconcile ex_kube ex_dur ex_time 0 0 ''T'' (''ns'', ''run'') (ex_cluster None)"
  have "ctl_run ex_kube fst (ex_cluster None) {}" by (rule ctl_run.init) (simp add: ex_cluster_def)
  moreover have "Reconcile ex_kube ex_dur ex_time 0 0 ''T'' (''ns'', ''run'') (ex_cluster None) = (fst ?r, snd ?r)" by simp
  ultimately have "ctl_run ex_kube fst (fst ?r) ({} \<union> tears_down ex_kube ex_dur ex_time 0 0 (''ns'', ''run'') (ex_cluster None))"
    by (rule ctl_run.reconcile)
  moreover have "tears_down ex_kube ex_dur ex_time 0 0 (''ns'', ''run'') (ex_cluster None) = {}"
    by (simp add: tears_down_def ex_kube_def ex_cluster_def ex_run_def status_field_def)
  moreover have "fst (fst ?r) (''Pod'', ''run-s1'', ''contestant-engine'') = Some (pod_object ''s1'' ''c1'' ''engine:1'')" by code_simp
  ultimately show ?thesis using cluster_contained [OF ex_kube_ok ex_kube_local, of "fst ?r"] unfolding Let_def by fastforce
qed

text \<open>
  Two runs of the same submission share a namespace: when the first of them completes, its
  clean-up deletes the pod of the second one, which is still \<open>Running\<close>.
\<close>

definition ex_two_runs :: ex_cluster where
  "ex_two_runs = (Map.empty, [(''ns'', ''a'') \<mapsto> ex_run None, (''ns'', ''b'') \<mapsto> ex_run None])"

lemma shared_namespace_deleted:
  "let c1 = fst (Reconcile ex_kube ex_dur ex_time 0 0 ''T'' (''ns'', ''a'') ex_two_runs);
       c2 = fst (Reconcile ex_kube ex_dur ex_time 0 0 ''U'' (''ns'', ''b'') c1);
       c3 = fst (Reconcile ex_kube ex_dur ex_time 0 (30 * second) ''V'' (''ns'', ''a'') c2)
   in map_option (\<lambda>r. status_field r ''state'') (snd c3 (''ns'', ''b'')) = Some ''Running'' \<and>
      fst c2 (''Pod'', ''run-s1'', ''contestant-engine'') \<noteq> None \<and> fst c3 (''Pod'', ''run-s1'', ''contestant-engine'') = None"
  by code_simp

end
