(* ===== verification/Go_Float64.thy ===== *)
theory Go_Float64
  imports Complex_Main "HOL-Library.Log_Nat"
begin

text \<open>
  Go's \<open>float64\<close>: IEEE 754 binary64 with round to nearest, ties to even.  A finite value is its
  sign and its magnitude, a rational number; an operation computes the exact result and rounds
  it to 53 significant bits, to a multiple of \<open>2\<^sup>-\<^sup>1\<^sup>0\<^sup>7\<^sup>4\<close> among the subnormal numbers, and to
  infinity beyond the largest finite number.
\<close>

datatype f64 = NaN | Inf bool | Fin bool rat

section \<open>Powers of two\<close>

definition pow2 :: "int \<Rightarrow> rat" where
  "pow2 e = (if 0 \<le> e then 2 ^ nat e else 1 / 2 ^ nat (- e))"

lemma pow2_pos [simp]: "0 < pow2 e"
  by (simp add: pow2_def)

lemma pow2_nonneg [simp]: "0 \<le> pow2 e" "\<not> pow2 e < 0" "\<not> pow2 e \<le> 0"
  using pow2_pos [of e] by linarith+

lemma pow2_0 [simp]: "pow2 0 = 1"
  by (simp add: pow2_def)

lemma pow2_powi: "pow2 e = 2 powi e"
  by (simp add: pow2_def power_int_def field_simps)

lemma pow2_add: "pow2 (a + b) = pow2 a * pow2 b"
  by (simp add: pow2_powi power_int_add)

lemma pow2_diff: "pow2 (a - b) = pow2 a / pow2 b"
  by (simp add: pow2_powi power_int_diff)

lemma pow2_mono: "a \<le> b \<Longrightarrow> pow2 a \<le> pow2 b"
  by (simp add: pow2_powi power_int_increasing)

lemma pow2_less: "pow2 a < pow2 b \<longleftrightarrow> a < b"
proof
  show "pow2 a < pow2 b" if "a < b" using that by (simp add: pow2_powi power_int_strict_increasing)
  show "a < b" if "pow2 a < pow2 b" using that pow2_mono [of b a] by linarith
qed

lemma pow2_nat: "0 \<le> e \<Longrightarrow> pow2 e = of_int (2 ^ nat e)"
  by (simp add: pow2_def)

text \<open>The exponent of the largest power of two below a positive number.\<close>

definition ilog2 :: "rat \<Rightarrow> int" where
  "ilog2 m = (if 1 \<le> m then int (floorlog 2 (nat \<lfloor>m\<rfloor>)) - 1 else - int (floorlog 2 (nat (\<lceil>1 / m\<rceil> - 1))))"

lemma floorlog_rat:
  assumes "0 < n" "k = floorlog 2 n"
  shows "0 < k" "(2 :: rat) ^ (k - 1) \<le> of_nat n" "of_nat n + 1 \<le> (2 :: rat) ^ k"
proof -
  have k: "2 ^ (k - 1) \<le> n" "n < 2 ^ k" using floorlog_bounds [of n 2] assms by auto
  then show "0 < k" using assms(1) by (cases k) auto
  have "rat_of_nat (2 ^ (k - 1)) \<le> rat_of_nat n" "rat_of_nat (n + 1) \<le> rat_of_nat (2 ^ k)" using k by (auto simp only: of_nat_le_iff)
  then show "(2 :: rat) ^ (k - 1) \<le> of_nat n" "of_nat n + 1 \<le> (2 :: rat) ^ k" by simp_all
qed

lemma ilog2_bounds:
  assumes "0 < m"
  shows "pow2 (ilog2 m) \<le> m" "m < pow2 (ilog2 m + 1)"
proof -
  have "pow2 (ilog2 m) \<le> m \<and> m < pow2 (ilog2 m + 1)"
  proof (cases "1 \<le> m")
    case True
    define n k where "n = nat \<lfloor>m\<rfloor>" and "k = floorlog 2 n"
    have n: "0 < n" "of_nat n \<le> m" "m < of_nat n + 1" using True by (auto simp: n_def) linarith+
    note f = floorlog_rat [OF n(1) k_def]
    have p: "pow2 (int k - 1) = 2 ^ (k - 1)" "pow2 (int k) = 2 ^ k" using f(1) by (simp_all add: pow2_def nat_diff_distrib)
    have "pow2 (int k - 1) \<le> m" "m < pow2 (int k)" using f(2,3) n unfolding p by linarith+
    then show ?thesis using True by (simp add: ilog2_def n_def [symmetric] k_def [symmetric])
  next
    case False
    define n k where "n = nat (\<lceil>1 / m\<rceil> - 1)" and "k = floorlog 2 n"
    have "1 < 1 / m" using assms False by (simp add: field_simps)
    then have n: "0 < n" "of_nat n < 1 / m" "1 / m \<le> of_nat n + 1" by (auto simp: n_def) linarith+
    note f = floorlog_rat [OF n(1) k_def]
    have "2 ^ (k - 1) < 1 / m" "1 / m \<le> 2 ^ k" using n f(2,3) by linarith+
    then have "m < 1 / 2 ^ (k - 1)" "1 / 2 ^ k \<le> m" using assms by (simp_all add: field_simps)
    moreover have "pow2 (- int k) = 1 / 2 ^ k" "pow2 (- int k + 1) = 1 / 2 ^ (k - 1)"
      using f(1) by (auto simp: pow2_def nat_diff_distrib)
    ultimately show ?thesis using False by (simp add: ilog2_def n_def [symmetric] k_def [symmetric])
  qed
  then show "pow2 (ilog2 m) \<le> m" "m < pow2 (ilog2 m + 1)" by auto
qed

lemma ilog2_mono: "0 < x \<Longrightarrow> x \<le> y \<Longrightarrow> ilog2 x \<le> ilog2 y"
  using ilog2_bounds(1) [of x] ilog2_bounds(2) [of y] pow2_less [of "ilog2 x" "ilog2 y + 1"] by linarith

section \<open>Rounding\<close>

definition round_even :: "rat \<Rightarrow> int" where
  "round_even q = (let f = \<lfloor>q\<rfloor>; r = q - of_int f in
     if r < 1 / 2 \<or> r = 1 / 2 \<and> even f then f else f + 1)"

lemma round_even_bounds: "\<lfloor>q\<rfloor> \<le> round_even q" "round_even q \<le> \<lfloor>q\<rfloor> + 1"
  by (simp_all add: round_even_def Let_def)

lemma round_even_int [simp]: "round_even (of_int n) = n"
  by (simp add: round_even_def)

lemma round_even_mono: "p \<le> q \<Longrightarrow> round_even p \<le> round_even q"
proof (cases "\<lfloor>p\<rfloor> = \<lfloor>q\<rfloor>")
  case True
  assume "p \<le> q"
  then show ?thesis using True by (auto simp: round_even_def Let_def)
next
  case False
  assume "p \<le> q"
  then have "\<lfloor>p\<rfloor> + 1 \<le> \<lfloor>q\<rfloor>" using False floor_mono [of p q] by linarith
  then show ?thesis using round_even_bounds(2) [of p] round_even_bounds(1) [of q] by linarith
qed

text \<open>The unit in the last place, and the rounding of a magnitude.\<close>

definition ulp_exp :: "rat \<Rightarrow> int" where
  "ulp_exp m = max (- 1074) (ilog2 m - 52)"

definition rnd64 :: "rat \<Rightarrow> rat" where
  "rnd64 m = (if m = 0 then 0 else let u = pow2 (ulp_exp m) in of_int (round_even (m / u)) * u)"

lemma rnd64_pow2:
  assumes "- 1074 \<le> k" "0 \<le> m"
  shows "m \<le> pow2 k \<Longrightarrow> rnd64 m \<le> pow2 k" "pow2 k \<le> m \<Longrightarrow> pow2 k \<le> rnd64 m"
proof -
  have q: "of_int (round_even (pow2 k / u)) * u = pow2 k" if "u = pow2 e" "e \<le> k" for u e
  proof -
    have "pow2 k / u = of_int (2 ^ nat (k - e))" using that pow2_diff [of k e] pow2_nat [of "k - e"] by simp
    then show ?thesis using that pow2_pos [of e] by (metis nonzero_eq_divide_eq order_less_irrefl round_even_int)
  qed
  show "rnd64 m \<le> pow2 k" if "m \<le> pow2 k"
  proof (cases "m = 0")
    case False
    then have e: "ulp_exp m \<le> k"
      using assms that ilog2_bounds(1) [of m] pow2_less [of k "ilog2 m"] by (fastforce simp: ulp_exp_def)
    have "of_int (round_even (m / pow2 (ulp_exp m))) * pow2 (ulp_exp m) \<le> of_int (round_even (pow2 k / pow2 (ulp_exp m))) * pow2 (ulp_exp m)"
      using that by (intro mult_right_mono of_int_le_iff [THEN iffD2] round_even_mono divide_right_mono) (simp_all add: less_imp_le)
    then show ?thesis using False q [OF refl e] by (simp add: rnd64_def Let_def)
  qed (simp add: rnd64_def less_imp_le)
  show "pow2 k \<le> rnd64 m" if "pow2 k \<le> m"
  proof -
    have m: "0 < m" using that pow2_pos [of k] by linarith
    show ?thesis
    proof (cases "ulp_exp m \<le> k")
      case True
      have "of_int (round_even (pow2 k / pow2 (ulp_exp m))) * pow2 (ulp_exp m) \<le> of_int (round_even (m / pow2 (ulp_exp m))) * pow2 (ulp_exp m)"
        using that by (intro mult_right_mono of_int_le_iff [THEN iffD2] round_even_mono divide_right_mono) (simp_all add: less_imp_le)
      then show ?thesis using m q [OF refl True] by (simp add: rnd64_def Let_def)
    next
      case False
      then have e: "k < ulp_exp m" "ulp_exp m = ilog2 m - 52" using assms by (auto simp: ulp_exp_def)
      have "pow2 (ulp_exp m) \<le> m" using ilog2_bounds(1) [OF m] pow2_mono [of "ulp_exp m" "ilog2 m"] e(2) by linarith
      then have "1 \<le> m / pow2 (ulp_exp m)" by (simp add: field_simps)
      then have "1 \<le> round_even (m / pow2 (ulp_exp m))" using round_even_mono [of 1 "m / pow2 (ulp_exp m)"] round_even_int [of 1] by simp
      then have "pow2 (ulp_exp m) \<le> of_int (round_even (m / pow2 (ulp_exp m))) * pow2 (ulp_exp m)" by (simp add: mult_le_cancel_right1)
      then have "pow2 k \<le> of_int (round_even (m / pow2 (ulp_exp m))) * pow2 (ulp_exp m)"
        using pow2_mono [of k "ulp_exp m"] e(1) by linarith
      then show ?thesis using m by (simp add: rnd64_def Let_def)
    qed
  qed
qed

lemma rnd64_nonneg: "0 \<le> m \<Longrightarrow> 0 \<le> rnd64 m"
  using round_even_mono [of 0 "m / pow2 (ulp_exp m)"] round_even_int [of 0]
  by (auto simp: rnd64_def Let_def less_imp_le intro!: mult_nonneg_nonneg)

lemma rnd64_mono:
  assumes "0 \<le> x" "x \<le> y"
  shows "rnd64 x \<le> rnd64 y"
proof (cases "x = 0")
  case False
  then have p: "0 < x" "0 < y" using assms by auto
  show ?thesis
  proof (cases "ulp_exp x = ulp_exp y")
    case True
    then show ?thesis using p assms
      by (auto simp: rnd64_def Let_def less_imp_le divide_right_mono intro!: mult_right_mono round_even_mono)
  next
    case False
    then have "ilog2 x < ilog2 y" "- 1074 \<le> ilog2 y" using ilog2_mono [OF p(1) assms(2)] by (auto simp: ulp_exp_def)
    moreover have "x \<le> pow2 (ilog2 y)" using ilog2_bounds(2) [OF p(1)] pow2_mono [of "ilog2 x + 1" "ilog2 y"] calculation(1) by linarith
    ultimately show ?thesis using rnd64_pow2(1) [of "ilog2 y" x] rnd64_pow2(2) [of "ilog2 y" y] ilog2_bounds(1) [OF p(2)] p by linarith
  qed
qed (use rnd64_nonneg assms in \<open>simp add: rnd64_def\<close>)

section \<open>Operations\<close>

definition f64_of :: "bool \<Rightarrow> rat \<Rightarrow> f64" where
  "f64_of s m = (let r = rnd64 m in if pow2 1024 \<le> r then Inf s else Fin s r)"

fun fmul :: "f64 \<Rightarrow> f64 \<Rightarrow> f64" where
  "fmul NaN y = NaN"
| "fmul x NaN = NaN"
| "fmul (Inf s) (Inf t) = Inf (s \<noteq> t)"
| "fmul (Inf s) (Fin t b) = (if b = 0 then NaN else Inf (s \<noteq> t))"
| "fmul (Fin s a) (Inf t) = (if a = 0 then NaN else Inf (s \<noteq> t))"
| "fmul (Fin s a) (Fin t b) = f64_of (s \<noteq> t) (a * b)"

fun fdiv :: "f64 \<Rightarrow> f64 \<Rightarrow> f64" where
  "fdiv NaN y = NaN"
| "fdiv x NaN = NaN"
| "fdiv (Inf s) (Inf t) = NaN"
| "fdiv (Inf s) (Fin t b) = Inf (s \<noteq> t)"
| "fdiv (Fin s a) (Inf t) = Fin (s \<noteq> t) 0"
| "fdiv (Fin s a) (Fin t b) = (if b = 0 then (if a = 0 then NaN else Inf (s \<noteq> t)) else f64_of (s \<noteq> t) (a / b))"

definition fval :: "bool \<Rightarrow> rat \<Rightarrow> rat" where
  "fval s m = (if s then - m else m)"

fun fle :: "f64 \<Rightarrow> f64 \<Rightarrow> bool" where
  "fle NaN y = False"
| "fle x NaN = False"
| "fle (Inf s) y = (s \<or> y = Inf False)"
| "fle x (Inf t) = (\<not> t)"
| "fle (Fin s a) (Fin t b) = (fval s a \<le> fval t b)"

definition flt :: "f64 \<Rightarrow> f64 \<Rightarrow> bool" where
  "flt x y \<longleftrightarrow> fle x y \<and> \<not> fle y x"

lemma fle_trans: "fle x y \<Longrightarrow> fle y z \<Longrightarrow> fle x z"
  by (cases x; cases y; cases z) auto

lemma fle_refl: "x \<noteq> NaN \<Longrightarrow> fle x x"
  by (cases x) auto

lemma fle_linear: "x \<noteq> NaN \<Longrightarrow> y \<noteq> NaN \<Longrightarrow> fle x y \<or> fle y x"
  by (cases x; cases y) auto

section \<open>Non-negative values\<close>

text \<open>The values that are not NaN and have sign plus; on them the operations are monotone.\<close>

fun fnonneg :: "f64 \<Rightarrow> bool" where
  "fnonneg NaN = False"
| "fnonneg (Inf s) = (\<not> s)"
| "fnonneg (Fin s m) = (\<not> s \<and> 0 \<le> m)"

lemma f64_of_nonneg: "0 \<le> m \<Longrightarrow> fnonneg (f64_of False m)"
  by (simp add: f64_of_def Let_def rnd64_nonneg)

lemma f64_of_mono: "0 \<le> a \<Longrightarrow> a \<le> b \<Longrightarrow> fle (f64_of False a) (f64_of False b)"
  using rnd64_mono [of a b] by (auto simp: f64_of_def Let_def fval_def)

lemma f64_of_finite: "0 \<le> m \<Longrightarrow> m \<le> pow2 1023 \<Longrightarrow> \<exists>r. f64_of False m = Fin False r \<and> 0 \<le> r"
  using rnd64_pow2(1) [of 1023 m] pow2_less [of 1023 1024] rnd64_nonneg [of m] by (auto simp: f64_of_def Let_def)

lemma fmul_nonneg: "fnonneg x \<Longrightarrow> fnonneg y \<Longrightarrow> fmul x y = NaN \<or> fnonneg (fmul x y)"
  by (cases x; cases y) (auto intro!: f64_of_nonneg)

lemma f64_of_top [simp]: "fle (f64_of s m) (Inf False)"
  by (simp add: f64_of_def Let_def)

lemma fmul_mono:
  assumes "fnonneg x" "fnonneg y" "fnonneg x'" "fnonneg y'" "fle x x'" "fle y y'" "fmul x y \<noteq> NaN" "fmul x' y' \<noteq> NaN"
  shows "fle (fmul x y) (fmul x' y')"
  using assms by (cases x; cases y; cases x'; cases y')
    (auto simp: fval_def split: if_splits intro!: f64_of_mono mult_mono mult_nonneg_nonneg)

lemma fdiv_antimono:
  assumes "0 \<le> a" "0 < p" "p \<le> q"
  shows "fle (fdiv (Fin False a) (Fin False q)) (fdiv (Fin False a) (Fin False p))"
  using assms by (auto intro!: f64_of_mono divide_left_mono mult_pos_pos)

end

