(* ===== verification/Go_Format.thy ===== *)
theory Go_Format
  imports Go_Float64 Go_Strconv "HOL-Library.Signed_Division"
begin

text \<open>
  Text of numbers and durations in the Go standard library, for the formats the programs use:
  \<open>strconv.FormatFloat(x, 'f', 2, 64)\<close>, which \<open>fmt\<close> uses for \<open>%.2f\<close>, \<open>Duration.Seconds\<close> and
  \<open>Duration.String\<close>.
\<close>

section \<open>Floating-point numbers\<close>

abbreviation f64_nat :: "nat \<Rightarrow> f64" where "f64_nat n \<equiv> Fin False (of_nat n)"

text \<open>\<open>strconv.FormatFloat(x, 'f', 2, 64)\<close>: hundredths, exactly rounded to nearest even.\<close>

definition hundredths :: "rat \<Rightarrow> nat" where
  "hundredths m = nat (round_even (m * 100))"

definition two_digits :: "nat \<Rightarrow> string" where
  "two_digits n = [digit (n div 10), digit (n mod 10)]"

fun FormatFloat2 :: "f64 \<Rightarrow> string" where
  "FormatFloat2 NaN = ''NaN''"
| "FormatFloat2 (Inf s) = (if s then ''-Inf'' else ''+Inf'')"
| "FormatFloat2 (Fin s m) = (let n = hundredths m in
     (if s then ''-'' else '''') @ dec (n div 100) @ ''.'' @ two_digits (n mod 100))"

text \<open>The conversion of an integer and the sum of two numbers, which \<open>Seconds\<close> uses.\<close>

definition f64_of_int :: "int \<Rightarrow> f64" where
  "f64_of_int i = f64_of (i < 0) (of_int \<bar>i\<bar>)"

fun fadd :: "f64 \<Rightarrow> f64 \<Rightarrow> f64" where
  "fadd NaN y = NaN"
| "fadd x NaN = NaN"
| "fadd (Inf s) (Inf t) = (if s = t then Inf s else NaN)"
| "fadd (Inf s) (Fin t b) = Inf s"
| "fadd (Fin s a) (Inf t) = Inf t"
| "fadd (Fin s a) (Fin t b) = (let v = fval s a + fval t b in if v = 0 then Fin (s \<and> t) 0 else f64_of (v < 0) \<bar>v\<bar>)"

section \<open>Durations\<close>

abbreviation nano :: int where "nano \<equiv> 1000000000"

definition Seconds :: "int \<Rightarrow> f64" where
  "Seconds d = fadd (f64_of_int (d sdiv nano)) (fdiv (f64_of_int (d smod nano)) (f64_nat 1000000000))"

text \<open>The decimal digits of a fraction with \<open>p\<close> places, without trailing zeros.\<close>

definition pad_left :: "nat \<Rightarrow> string \<Rightarrow> string" where
  "pad_left p s = replicate (p - length s) CHR ''0'' @ s"

definition strip_zeros :: "string \<Rightarrow> string" where
  "strip_zeros s = rev (dropWhile (\<lambda>c. c = CHR ''0'') (rev s))"

definition fmtFrac :: "nat \<Rightarrow> nat \<Rightarrow> string" where
  "fmtFrac v p = (let f = strip_zeros (pad_left p (dec (v mod 10 ^ p))) in if f = '''' then '''' else ''.'' @ f)"

definition Duration_String :: "int \<Rightarrow> string" where
  "Duration_String d = (let u = nat \<bar>d\<bar>; neg = (if d < 0 then ''-'' else '''') in
     if u = 0 then ''0s''
     else if u < 1000 then neg @ dec u @ ''ns''
     else if u < 1000000 then neg @ dec (u div 1000) @ fmtFrac u 3 @ [CHR 0xC2, CHR 0xB5] @ ''s''
     else if u < 1000000000 then neg @ dec (u div 1000000) @ fmtFrac u 6 @ ''ms''
     else let s = u div 1000000000; m = s div 60; h = m div 60 in
       neg @ (if 0 < h then dec h @ ''h'' else '''') @ (if 0 < m then dec (m mod 60) @ ''m'' else '''') @ dec (s mod 60) @ fmtFrac u 9 @ ''s'')"

section \<open>Whole seconds\<close>

text \<open>A whole number of units has no fraction.\<close>

lemma strip_zeros_replicate: "strip_zeros (replicate n CHR ''0'') = ''''"
  by (simp add: strip_zeros_def)

lemma dec_0: "dec 0 = ''0''"
  by code_simp

lemma fmtFrac_whole:
  assumes "v mod 10 ^ p = 0" "0 < p"
  shows "fmtFrac v p = ''''"
proof -
  have "pad_left p ''0'' = replicate p CHR ''0''"
    using assms(2) by (cases p) (simp_all add: pad_left_def replicate_append_same [symmetric] del: replicate_Suc add: replicate_Suc)
  then show ?thesis using assms(1) by (simp add: fmtFrac_def dec_0 strip_zeros_replicate)
qed

text \<open>An integer below two to the 53 is a floating-point number, so whole seconds are exact.\<close>

lemma rnd64_int:
  assumes "0 \<le> n" "n < 2 ^ 53"
  shows "rnd64 (of_int n) = of_int n"
proof (cases "n = 0")
  case False
  have "of_int n < pow2 53" using assms(2) by (simp add: pow2_def)
  then have l: "ilog2 (of_int n) < 53"
    using ilog2_bounds(1) [of "of_int n"] pow2_less [of "ilog2 (of_int n)" 53] assms(1) False by (simp add: order.strict_trans1)
  then have e: "ulp_exp (of_int n) \<le> 0" by (simp add: ulp_exp_def)
  then have "(of_int n :: rat) / pow2 (ulp_exp (of_int n)) = of_int (n * 2 ^ nat (- ulp_exp (of_int n)))"
    by (simp add: pow2_def)
  then have "round_even (of_int n / pow2 (ulp_exp (of_int n))) = n * 2 ^ nat (- ulp_exp (of_int n))"
    by (metis round_even_int)
  then show ?thesis using False e by (simp add: rnd64_def Let_def pow2_def)
qed (simp add: rnd64_def)

lemma f64_of_int_exact: "0 \<le> n \<Longrightarrow> n < 2 ^ 53 \<Longrightarrow> f64_of_int n = Fin False (of_int n)"
proof -
  assume n: "0 \<le> n" "n < 2 ^ 53"
  have "of_int n < pow2 53" using n(2) by (simp add: pow2_def)
  moreover have "pow2 53 < pow2 1024" by (simp add: pow2_less)
  ultimately show ?thesis using n rnd64_int [of n] by (simp add: f64_of_int_def f64_of_def Let_def)
qed

lemma Seconds_whole:
  assumes "0 < k" "k < 2 ^ 53"
  shows "Seconds (k * nano) = Fin False (of_int k)"
proof -
  have q: "(k * nano) sdiv nano = k" "(k * nano) smod nano = 0"
    using assms by (simp_all add: signed_divide_int_def signed_modulo_int_def sgn_mult)
  have z: "f64_of_int 0 = Fin False 0" using f64_of_int_exact [of 0] by simp
  have f: "f64_of False (of_int k) = Fin False (of_int k)" using f64_of_int_exact [of k] assms by (simp add: f64_of_int_def)
  have "fdiv (Fin False 0) (f64_nat 1000000000) = Fin False 0" by (simp add: f64_of_def rnd64_def)
  then show ?thesis unfolding Seconds_def q z using f64_of_int_exact [of k] assms f by (simp add: fval_def Let_def)
qed

end
