(* ===== verification/Ranking.thy ===== *)
theory Ranking
  imports Go_Format
begin

text \<open>
  Scores and standings of \<open>pkg/leaderboard/ranking.go\<close>.  Redis is a third-party service: the
  client calls are a parameter over an arbitrary database state, and \<open>redis_ok\<close> states the
  documented behaviour that the properties use.  \<open>strconv.ParseFloat\<close> and \<open>time.Parse\<close>, whose
  errors the code ignores, are parameters, and \<open>parse_ok\<close> states that \<open>ParseFloat\<close> is correctly rounded.
\<close>

section \<open>Scores and their text\<close>

definition score :: "f64 \<Rightarrow> f64 \<Rightarrow> f64 \<Rightarrow> f64" where
  "score tps p99Latency successRate =
     (if flt (f64_nat 0) successRate \<and> flt (f64_nat 0) p99Latency
      then fmul (fmul tps (fdiv (f64_nat 1000) p99Latency)) (fdiv successRate (f64_nat 100))
      else f64_nat 0)"

text \<open>The value that a correctly rounded parser reads from that text.\<close>

fun shown :: "f64 \<Rightarrow> f64" where
  "shown NaN = NaN"
| "shown (Inf s) = Inf s"
| "shown (Fin s m) = f64_of s (of_nat (hundredths m) / 100)"

definition parse_ok :: "(string \<Rightarrow> f64) \<Rightarrow> bool" where
  "parse_ok ParseFloat \<longleftrightarrow> (\<forall>x. ParseFloat (FormatFloat2 x) = shown x)"

section \<open>Redis\<close>

definition GlobalLeaderboardKey :: string where "GlobalLeaderboardKey = ''leaderboard:global''"
definition MetadataKeyPrefix :: string where "MetadataKeyPrefix = ''submission:metadata:''"

text \<open>The event published to the dashboards: submission, contestant and score.\<close>

type_synonym run_event = "string \<times> string \<times> f64"

record 'r redis =
  rZAdd :: "string \<Rightarrow> string \<Rightarrow> f64 \<Rightarrow> 'r \<Rightarrow> 'r \<times> string option"
  rHSet :: "string \<Rightarrow> (string \<times> string) list \<Rightarrow> 'r \<Rightarrow> 'r \<times> string option"
  rExpire :: "string \<Rightarrow> int \<Rightarrow> 'r \<Rightarrow> 'r"
  rPublish :: "string \<Rightarrow> run_event \<Rightarrow> 'r \<Rightarrow> 'r"
  rZRevRange :: "string \<Rightarrow> int \<Rightarrow> int \<Rightarrow> 'r \<Rightarrow> string + (string \<times> f64) list"
  rHGetAll :: "string \<Rightarrow> 'r \<Rightarrow> string + (string \<times> string) list"

text \<open>
  The documented behaviour, for the members and scores \<open>zset r\<close> of the leaderboard's sorted set
  and the fields \<open>hash r k\<close> of the hash under a key.  A command that reports an error may or may
  not have been executed; a score that is not a number is always refused.  \<open>ZREVRANGE\<close> returns
  the members by descending score.  Expiry times take effect later.
\<close>

definition zset_ok :: "'r redis \<Rightarrow> ('r \<Rightarrow> string \<rightharpoonup> f64) \<Rightarrow> ('r \<Rightarrow> string \<Rightarrow> string \<rightharpoonup> string) \<Rightarrow> bool" where
  "zset_ok rd zset hash \<longleftrightarrow>
     (\<forall>m s r r' e. rZAdd rd GlobalLeaderboardKey m s r = (r', e) \<longrightarrow> hash r' = hash r \<and>
        (zset r' = (zset r)(m \<mapsto> s) \<and> s \<noteq> NaN \<or> e \<noteq> None \<and> zset r' = zset r)) \<and>
     (\<forall>k fs r r' e. rHSet rd k fs r = (r', e) \<longrightarrow> zset r' = zset r \<and>
        (hash r' = (hash r)(k := hash r k ++ map_of fs) \<or> e \<noteq> None \<and> hash r' = hash r)) \<and>
     (\<forall>k d r. zset (rExpire rd k d r) = zset r \<and> hash (rExpire rd k d r) = hash r) \<and>
     (\<forall>ch ev r. zset (rPublish rd ch ev r) = zset r \<and> hash (rPublish rd ch ev r) = hash r)"

definition zrange_ok :: "'r redis \<Rightarrow> ('r \<Rightarrow> string \<rightharpoonup> f64) \<Rightarrow> ('r \<Rightarrow> string \<Rightarrow> string \<rightharpoonup> string) \<Rightarrow> bool" where
  "zrange_ok rd zset hash \<longleftrightarrow>
     (\<forall>stop r l. rZRevRange rd GlobalLeaderboardKey 0 stop r = Inr l \<and> 0 \<le> stop \<longrightarrow>
        (\<exists>full. distinct (map fst full) \<and> (\<forall>m s. (m, s) \<in> set full \<longleftrightarrow> zset r m = Some s) \<and>
           sorted_wrt (\<lambda>x y. fle (snd y) (snd x)) full \<and> l = take (nat stop + 1) full)) \<and>
     (\<forall>k r l. rHGetAll rd k r = Inr l \<longrightarrow> map_of l = hash r k)"

definition redis_ok :: "'r redis \<Rightarrow> ('r \<Rightarrow> string \<rightharpoonup> f64) \<Rightarrow> ('r \<Rightarrow> string \<Rightarrow> string \<rightharpoonup> string) \<Rightarrow> bool" where
  "redis_ok rd zset hash \<longleftrightarrow> zset_ok rd zset hash \<and> zrange_ok rd zset hash"

section \<open>Operations\<close>

record leaderboard_entry =
  eSubmissionID :: string
  eContestantID :: string
  eTPS :: f64
  eP99Latency :: f64
  eSuccessRate :: f64
  eScore :: f64
  eTimestamp :: int

definition score_meta :: "string \<Rightarrow> string \<Rightarrow> f64 \<Rightarrow> f64 \<Rightarrow> f64 \<Rightarrow> f64 \<Rightarrow> string \<Rightarrow> (string \<times> string) list" where
  "score_meta submissionID contestantID tps p99Latency successRate sc stamp =
     [(''submission_id'', submissionID), (''contestant_id'', contestantID), (''tps'', FormatFloat2 tps),
      (''p99_latency'', FormatFloat2 p99Latency), (''success_rate'', FormatFloat2 successRate),
      (''score'', FormatFloat2 sc), (''timestamp'', stamp)]"

text \<open>\<open>json.Marshal\<close> refuses a score that is not finite, and then nothing is published.\<close>

fun finite64 :: "f64 \<Rightarrow> bool" where
  "finite64 (Fin s m) = True"
| "finite64 x = False"

definition UpdateScore ::
  "'r redis \<Rightarrow> string \<Rightarrow> string \<Rightarrow> f64 \<Rightarrow> f64 \<Rightarrow> f64 \<Rightarrow> string \<Rightarrow> 'r \<Rightarrow> 'r \<times> (string + f64)" where
  "UpdateScore rd submissionID contestantID tps p99Latency successRate stamp r =
     (let sc = score tps p99Latency successRate in
      case rZAdd rd GlobalLeaderboardKey submissionID sc r of
        (r, Some e) \<Rightarrow> (r, Inl (''failed to add ZSET entry: '' @ e))
      | (r, None) \<Rightarrow>
          let metaKey = MetadataKeyPrefix @ submissionID in
          (case rHSet rd metaKey (score_meta submissionID contestantID tps p99Latency successRate sc stamp) r of
             (r, Some e) \<Rightarrow> (r, Inl (''failed to save metadata: '' @ e))
           | (r, None) \<Rightarrow>
               let r = rExpire rd metaKey (7 * 24 * 3600 * 10 ^ 9) r;
                   r = (if finite64 sc then rPublish rd ''leaderboard:updates'' (submissionID, contestantID, sc) r else r)
               in (r, Inr sc)))"

definition meta_field :: "(string \<times> string) list \<Rightarrow> string \<Rightarrow> string" where
  "meta_field l k = (case map_of l k of None \<Rightarrow> '''' | Some v \<Rightarrow> v)"

definition leaderboard_entry_of ::
  "'r redis \<Rightarrow> (string \<Rightarrow> f64) \<Rightarrow> (string \<Rightarrow> int) \<Rightarrow> 'r \<Rightarrow> string \<times> f64 \<Rightarrow> leaderboard_entry" where
  "leaderboard_entry_of rd ParseFloat ParseTime r z =
     (case rHGetAll rd (MetadataKeyPrefix @ fst z) r of
        Inr (f # fs) \<Rightarrow> let metaMap = f # fs in
          \<lparr>eSubmissionID = fst z, eContestantID = meta_field metaMap ''contestant_id'',
           eTPS = ParseFloat (meta_field metaMap ''tps''), eP99Latency = ParseFloat (meta_field metaMap ''p99_latency''),
           eSuccessRate = ParseFloat (meta_field metaMap ''success_rate''), eScore = ParseFloat (meta_field metaMap ''score''),
           eTimestamp = ParseTime (meta_field metaMap ''timestamp'')\<rparr>
      | _ \<Rightarrow> \<lparr>eSubmissionID = fst z, eContestantID = ''Unknown'', eTPS = f64_nat 0, eP99Latency = f64_nat 0,
             eSuccessRate = f64_nat 0, eScore = snd z, eTimestamp = 0\<rparr>)"

definition GetLeaderboard ::
  "'r redis \<Rightarrow> (string \<Rightarrow> f64) \<Rightarrow> (string \<Rightarrow> int) \<Rightarrow> int \<Rightarrow> 'r \<Rightarrow> string + leaderboard_entry list" where
  "GetLeaderboard rd ParseFloat ParseTime limit r =
     (case rZRevRange rd GlobalLeaderboardKey 0 (limit - 1) r of
        Inl e \<Rightarrow> Inl (''failed to fetch ZSET: '' @ e)
      | Inr zRange \<Rightarrow> Inr (map (leaderboard_entry_of rd ParseFloat ParseTime r) zRange))"

section \<open>The displayed score\<close>

fun fwf :: "f64 \<Rightarrow> bool" where
  "fwf (Fin s m) = (0 \<le> m)"
| "fwf x = True"

lemma f64_of_fwf: "0 \<le> m \<Longrightarrow> fwf (f64_of s m)"
  by (simp add: f64_of_def Let_def rnd64_nonneg)

lemma fmul_fwf: "fwf x \<Longrightarrow> fwf y \<Longrightarrow> fwf (fmul x y)"
  by (cases x; cases y) (auto intro: f64_of_fwf)

lemma fdiv_fwf: "fwf x \<Longrightarrow> fwf y \<Longrightarrow> fwf (fdiv x y)"
  by (cases x; cases y) (auto intro: f64_of_fwf)

lemma score_fwf: "fwf tps \<Longrightarrow> fwf p99 \<Longrightarrow> fwf sr \<Longrightarrow> fwf (score tps p99 sr)"
  by (simp add: score_def fmul_fwf fdiv_fwf)

lemma f64_of_signed:
  assumes "0 \<le> a" "0 \<le> b" "fval s a \<le> fval t b"
  shows "fle (f64_of s a) (f64_of t b)"
proof -
  consider "\<not> s" "\<not> t" "a \<le> b" | "s" "t" "b \<le> a" | "s" "\<not> t" | "\<not> s" "t" "a = 0" "b = 0"
    using assms by (auto simp: fval_def split: if_splits)
  then show ?thesis
  proof cases
    case 1
    then show ?thesis using assms f64_of_mono by simp
  next
    case 2
    then show ?thesis using rnd64_mono [OF assms(2), of a] by (auto simp: f64_of_def Let_def fval_def)
  next
    case 3
    then show ?thesis using rnd64_nonneg [OF assms(1)] rnd64_nonneg [OF assms(2)] by (auto simp: f64_of_def Let_def fval_def)
  next
    case 4
    then show ?thesis using pow2_pos [of 1024] by (auto simp: f64_of_def Let_def fval_def rnd64_def)
  qed
qed

text \<open>Rounding to hundredths keeps the order.\<close>

lemma shown_mono:
  assumes "fwf x" "fwf y" "fle x y"
  shows "fle (shown x) (shown y)"
proof (cases x; cases y)
  fix s a t b assume e: "x = Fin s a" "y = Fin t b"
  have h: "p \<le> q \<Longrightarrow> hundredths p \<le> hundredths q" for p q by (simp add: hundredths_def nat_mono round_even_mono)
  have z: "hundredths 0 = 0" using round_even_int [of 0] by (simp add: hundredths_def)
  have "fval s (of_nat (hundredths a) / 100) \<le> fval t (of_nat (hundredths b) / 100)"
  proof (cases s; cases t)
    assume "\<not> s" "t"
    then have "a = 0" "b = 0" using assms e by (auto simp: fval_def)
    then show ?thesis by (simp add: z fval_def)
  next
    assume "s" "\<not> t"
    then show ?thesis using order_trans [of "- (of_nat (hundredths a) / 100)" "0 :: rat"] by (simp add: fval_def)
  qed (use assms e h in \<open>auto simp: fval_def divide_right_mono\<close>)
  then show ?thesis using e by (simp add: f64_of_signed)
qed (use assms in \<open>auto simp: f64_of_def Let_def\<close>)

section \<open>Sequences of updates\<close>

text \<open>
  A database reached from an empty leaderboard by updates that report success; \<open>latest\<close> is the
  contestant and the score of the last update of each submission.
\<close>

inductive updated :: "'r redis \<Rightarrow> ('r \<Rightarrow> string \<rightharpoonup> f64) \<Rightarrow> 'r \<Rightarrow> (string \<rightharpoonup> string \<times> f64) \<Rightarrow> bool" for rd zset where
  init: "zset r = Map.empty \<Longrightarrow> updated rd zset r Map.empty"
| update: "updated rd zset r latest \<Longrightarrow> fwf tps \<Longrightarrow> fwf p99 \<Longrightarrow> fwf sr \<Longrightarrow>
    UpdateScore rd sid cid tps p99 sr stamp r = (r', Inr sc) \<Longrightarrow> updated rd zset r' (latest(sid \<mapsto> (cid, sc)))"

definition consistent :: "(string \<rightharpoonup> f64) \<Rightarrow> (string \<Rightarrow> string \<rightharpoonup> string) \<Rightarrow> (string \<rightharpoonup> string \<times> f64) \<Rightarrow> bool" where
  "consistent z h latest \<longleftrightarrow> z = map_option snd \<circ> latest \<and>
     (\<forall>m c s. latest m = Some (c, s) \<longrightarrow> fwf s \<and> s \<noteq> NaN \<and>
        h (MetadataKeyPrefix @ m) ''score'' = Some (FormatFloat2 s) \<and> h (MetadataKeyPrefix @ m) ''contestant_id'' = Some c)"

lemma UpdateScore_success:
  assumes "zset_ok rd zset hash" "UpdateScore rd sid cid tps p99 sr stamp r = (r', Inr sc)"
  shows "sc = score tps p99 sr" "sc \<noteq> NaN" "zset r' = (zset r)(sid \<mapsto> sc)"
    "hash r' = (hash r)(MetadataKeyPrefix @ sid := hash r (MetadataKeyPrefix @ sid) ++ map_of (score_meta sid cid tps p99 sr sc stamp))"
proof -
  let ?sc = "score tps p99 sr" and ?k = "MetadataKeyPrefix @ sid"
  obtain r1 e1 where z: "rZAdd rd GlobalLeaderboardKey sid ?sc r = (r1, e1)" by fastforce
  obtain r2 e2 where h: "rHSet rd ?k (score_meta sid cid tps p99 sr ?sc stamp) r1 = (r2, e2)" by fastforce
  have e: "e1 = None" using assms(2) z by (cases e1) (auto simp: UpdateScore_def)
  then have e2: "e2 = None" using assms(2) z h by (cases e2) (auto simp: UpdateScore_def Let_def)
  have r': "sc = ?sc" "r' = (let r = rExpire rd ?k (7 * 24 * 3600 * 10 ^ 9) r2 in
      if finite64 ?sc then rPublish rd ''leaderboard:updates'' (sid, cid, ?sc) r else r)"
    using assms(2) z h e e2 by (auto simp: UpdateScore_def Let_def)
  have "zset r' = zset r2 \<and> hash r' = hash r2" using assms(1) unfolding zset_ok_def r'(2) Let_def by simp
  moreover have "zset r1 = (zset r)(sid \<mapsto> ?sc) \<and> ?sc \<noteq> NaN \<and> hash r1 = hash r"
    using assms(1) z e unfolding zset_ok_def by blast
  moreover have "zset r2 = zset r1 \<and> hash r2 = (hash r1)(?k := hash r1 ?k ++ map_of (score_meta sid cid tps p99 sr ?sc stamp))"
    using assms(1) h e2 unfolding zset_ok_def by blast
  ultimately show "sc = ?sc" "sc \<noteq> NaN" "zset r' = (zset r)(sid \<mapsto> sc)"
    "hash r' = (hash r)(?k := hash r ?k ++ map_of (score_meta sid cid tps p99 sr sc stamp))"
    using r'(1) by simp_all
qed

lemma updated_consistent:
  assumes "updated rd zset r latest" "zset_ok rd zset hash"
  shows "consistent (zset r) (hash r) latest"
  using assms(1)
proof (induction rule: updated.induct)
  case (init r)
  then show ?case by (simp add: consistent_def)
next
  case (update r latest tps p99 sr sid cid stamp r' sc)
  note u = UpdateScore_success [OF assms(2) update.hyps(5)]
  have "fwf sc" unfolding u(1) using update.hyps by (simp add: score_fwf)
  then show ?case using update.IH u(2)
    by (auto simp: consistent_def u(3,4) score_meta_def)
qed

section \<open>Standings\<close>

lemma entry_of_consistent:
  assumes "zrange_ok rd zset hash" "parse_ok PF" "consistent (zset r) (hash r) latest" "latest m = Some (c, s)"
    "rHGetAll rd (MetadataKeyPrefix @ m) r = Inr l"
  shows "eSubmissionID (leaderboard_entry_of rd PF PT r (m, z)) = m" "eContestantID (leaderboard_entry_of rd PF PT r (m, z)) = c"
    "eScore (leaderboard_entry_of rd PF PT r (m, z)) = shown s"
proof -
  have l: "map_of l = hash r (MetadataKeyPrefix @ m)" using assms(1,5) by (simp add: zrange_ok_def)
  have h: "map_of l ''score'' = Some (FormatFloat2 s)" "map_of l ''contestant_id'' = Some c"
    using assms(3,4) unfolding consistent_def l by blast+
  obtain f fs where f: "l = f # fs" using h(1) by (cases l) auto
  show "eSubmissionID (leaderboard_entry_of rd PF PT r (m, z)) = m" "eContestantID (leaderboard_entry_of rd PF PT r (m, z)) = c"
    "eScore (leaderboard_entry_of rd PF PT r (m, z)) = shown s"
    using assms(2,5) h f by (simp_all add: leaderboard_entry_of_def meta_field_def Let_def parse_ok_def)
qed

lemma sorted_wrt_take_drop: "sorted_wrt R xs \<Longrightarrow> x \<in> set (take n xs) \<Longrightarrow> y \<in> set (drop n xs) \<Longrightarrow> R x y"
  using sorted_wrt_append [of R "take n xs" "drop n xs"] by simp

text \<open>What a page of the leaderboard has to show for the latest updates.\<close>

definition standings :: "(string \<rightharpoonup> string \<times> f64) \<Rightarrow> int \<Rightarrow> leaderboard_entry list \<Rightarrow> bool" where
  "standings latest limit es \<longleftrightarrow> distinct (map eSubmissionID es) \<and> length es = min (nat limit) (card (dom latest)) \<and>
     (\<forall>e \<in> set es. \<exists>s. latest (eSubmissionID e) = Some (eContestantID e, s) \<and> eScore e = shown s) \<and>
     sorted_wrt (\<lambda>d e. fle (eScore e) (eScore d)) es \<and>
     (\<forall>m c s. latest m = Some (c, s) \<and> m \<notin> eSubmissionID ` set es \<longrightarrow> (\<forall>e \<in> set es. fle (shown s) (eScore e)))"

lemma GetLeaderboard_standings:
  assumes "redis_ok rd zset hash" "parse_ok PF" "updated rd zset r latest" "0 < limit"
    and "GetLeaderboard rd PF PT limit r = Inr es" "\<forall>k. \<exists>l. rHGetAll rd k r = Inr l"
  shows "standings latest limit es"
proof -
  let ?f = "leaderboard_entry_of rd PF PT r" and ?R = "\<lambda>x y :: string \<times> f64. fle (snd y) (snd x)"
  have c: "consistent (zset r) (hash r) latest" using updated_consistent [OF assms(3)] assms(1) by (simp add: redis_ok_def)
  have zr: "zrange_ok rd zset hash" using assms(1) by (simp add: redis_ok_def)
  obtain l where l: "rZRevRange rd GlobalLeaderboardKey 0 (limit - 1) r = Inr l" "es = map ?f l"
    using assms(5) by (auto simp: GetLeaderboard_def split: sum.splits)
  obtain full where full: "distinct (map fst full)" "\<forall>m s. (m, s) \<in> set full \<longleftrightarrow> zset r m = Some s" "sorted_wrt ?R full"
    "l = take (nat limit) full"
    using zr l(1) assms(4) unfolding zrange_ok_def by (force simp: nat_diff_distrib)
  have lat: "(m, s) \<in> set full \<longleftrightarrow> (\<exists>c. latest m = Some (c, s))" for m s using full(2) c by (auto simp: consistent_def)
  have e: "eSubmissionID (?f x) = fst x \<and> (\<exists>c. latest (fst x) = Some (c, snd x) \<and> eContestantID (?f x) = c) \<and>
      eScore (?f x) = shown (snd x) \<and> fwf (snd x)" if x: "x \<in> set full" for x
  proof -
    obtain c' where c': "latest (fst x) = Some (c', snd x)" using lat [of "fst x" "snd x"] x by auto
    obtain ml where "rHGetAll rd (MetadataKeyPrefix @ fst x) r = Inr ml" using assms(6) by blast
    from entry_of_consistent [OF zr assms(2) c c' this, of PT "snd x"] show ?thesis using c' c by (auto simp: consistent_def)
  qed
  have sub: "set l \<subseteq> set full" using full(4) by (simp add: set_take_subset)
  have ids: "map eSubmissionID es = map fst l" using e sub by (auto simp: l(2))
  have mono: "fle (eScore (?f y)) (eScore (?f x))" if "x \<in> set full" "y \<in> set full" "?R x y" for x y
    using e [OF that(1)] e [OF that(2)] shown_mono that(3) by simp
  have "distinct (map eSubmissionID es)" unfolding ids full(4) using full(1) by (simp add: take_map [symmetric] del: take_map)
  moreover have "length es = min (nat limit) (card (dom latest))"
  proof -
    have "dom latest = fst ` set full" using lat by (force simp: dom_def)
    then have "card (dom latest) = length full" using full(1) distinct_card [of "map fst full"] by simp
    then show ?thesis by (simp add: l(2) full(4))
  qed
  moreover have "sorted_wrt (\<lambda>d e. fle (eScore e) (eScore d)) es"
    unfolding l(2) sorted_wrt_map
    by (rule sorted_wrt_mono_rel [OF _ sorted_wrt_take [OF full(3), of "nat limit", folded full(4)]]) (use mono sub in blast)
  moreover have "\<exists>s. latest (eSubmissionID d) = Some (eContestantID d, s) \<and> eScore d = shown s" if "d \<in> set es" for d
    using that e sub by (auto simp: l(2))
  moreover have "fle (shown s) (eScore d)" if o: "latest m = Some (c', s)" "m \<notin> eSubmissionID ` set es" "d \<in> set es" for m c' s d
  proof -
    have m: "(m, s) \<in> set full" using lat o(1) by blast
    moreover have "m \<notin> fst ` set l" using o(2) ids by (metis image_set)
    ultimately have "(m, s) \<in> set (drop (nat limit) full)"
      using full(4) set_append [of "take (nat limit) full" "drop (nat limit) full"] by force
    moreover obtain x where x: "x \<in> set l" "d = ?f x" using o(3) by (auto simp: l(2))
    ultimately have "?R x (m, s)" using sorted_wrt_take_drop [OF full(3)] full(4) by blast
    then show ?thesis using mono [of x "(m, s)"] e [OF m] x m sub by auto
  qed
  ultimately show ?thesis unfolding standings_def by blast
qed

text \<open>A parser for the texts that \<open>FormatFloat2\<close> produces, to evaluate examples with.\<close>

definition ex_ParseFloat :: "string \<Rightarrow> f64" where
  "ex_ParseFloat t = (if t = ''+Inf'' then Inf False else if t = ''-Inf'' then Inf True
     else (case atoi_digits (filter (\<lambda>c. c \<notin> {CHR ''.'', CHR ''-''}) t) 0 of
        None \<Rightarrow> NaN | Some n \<Rightarrow> f64_of (CHR ''-'' \<in> set t) (of_nat n / 100)))"

lemma filter_digits: "\<forall>c \<in> set t. is_digit c \<Longrightarrow> filter (\<lambda>c. c \<noteq> CHR ''.'' \<and> c \<noteq> CHR ''-'') t = t"
  by (rule filter_True) (auto simp: is_digit_def)

lemma ex_parse_ok: "parse_ok ex_ParseFloat"
  unfolding parse_ok_def
proof
  fix x
  show "ex_ParseFloat (FormatFloat2 x) = shown x"
  proof (cases x)
    case NaN
    then show ?thesis by (simp add: ex_ParseFloat_def is_digit_def)
  next
    case (Inf s)
    then show ?thesis by (simp add: ex_ParseFloat_def)
  next
    case (Fin s m)
    define n where "n = hundredths m"
    let ?d = "dec (n div 100)" and ?t = "two_digits (n mod 100)"
    have b: "n mod 100 div 10 < 10" "n mod 100 mod 10 < 10" by auto
    have t: "\<forall>c \<in> set ?t. is_digit c" using b by (simp add: two_digits_def)
    have d: "\<forall>c \<in> set ?d. is_digit c" by (rule dec_digits)
    have minus: "CHR ''-'' \<notin> set ?d" "CHR ''-'' \<notin> set ?t" using d t not_digit(1) by blast+
    have dot: "CHR ''.'' \<notin> set ''+Inf''" "CHR ''.'' \<notin> set ''-Inf''" by simp_all
    have f: "FormatFloat2 x = (if s then ''-'' else '''') @ ?d @ ''.'' @ ?t" using Fin by (simp add: n_def Let_def)
    then have "CHR ''.'' \<in> set (FormatFloat2 x)" by simp
    then have ne: "FormatFloat2 x \<noteq> ''+Inf''" "FormatFloat2 x \<noteq> ''-Inf''" using dot by metis+
    have "atoi_digits (?d @ ?t) 0 = Some (n div 100 * 100 + n mod 100)"
      using b by (simp add: atoi_digits_append atoi_dec two_digits_def)
    moreover have "n div 100 * 100 + n mod 100 = n" by simp
    moreover have "filter (\<lambda>c. c \<notin> {CHR ''.'', CHR ''-''}) (FormatFloat2 x) = ?d @ ?t"
      using filter_digits [OF d] filter_digits [OF t] by (simp add: f)
    moreover have "CHR ''-'' \<in> set (FormatFloat2 x) \<longleftrightarrow> s" using minus by (simp add: f)
    ultimately show ?thesis using ne Fin by (simp add: ex_ParseFloat_def n_def)
  qed
qed

section \<open>An example database\<close>

text \<open>The sorted set as the list of its additions, from which the standings are recomputed.\<close>

type_synonym ex_redis = "(string \<times> f64) list \<times> (string \<Rightarrow> (string \<times> string) list)"

fun zinsert :: "string \<times> f64 \<Rightarrow> (string \<times> f64) list \<Rightarrow> (string \<times> f64) list" where
  "zinsert x [] = [x]"
| "zinsert x (y # ys) = (if fle (snd y) (snd x) then x # y # ys else y # zinsert x ys)"

fun ex_full :: "(string \<times> f64) list \<Rightarrow> (string \<times> f64) list" where
  "ex_full [] = []"
| "ex_full ((m, s) # z) = (if s = NaN then ex_full z else zinsert (m, s) (filter (\<lambda>x. fst x \<noteq> m) (ex_full z)))"

definition ex_rd :: "ex_redis redis" where
  "ex_rd = \<lparr>rZAdd = (\<lambda>k m s (z, h). if s = NaN then ((z, h), Some ''ERR'') else (((m, s) # z, h), None)),
     rHSet = (\<lambda>k fs (z, h). ((z, h(k := fs @ h k)), None)),
     rExpire = (\<lambda>k d r. r), rPublish = (\<lambda>ch ev r. r),
     rZRevRange = (\<lambda>k a b (z, h). Inr (take (nat b + 1) (ex_full z))),
     rHGetAll = (\<lambda>k (z, h). Inr (h k))\<rparr>"

definition ex_zset :: "ex_redis \<Rightarrow> string \<rightharpoonup> f64" where
  "ex_zset r = map_of (ex_full (fst r))"

definition ex_hash :: "ex_redis \<Rightarrow> string \<Rightarrow> string \<rightharpoonup> string" where
  "ex_hash r k = map_of (snd r k)"

lemma set_zinsert [simp]: "set (zinsert x l) = insert x (set l)"
  by (induction l) auto

lemma zinsert_distinct: "distinct (map fst l) \<Longrightarrow> fst x \<notin> fst ` set l \<Longrightarrow> distinct (map fst (zinsert x l))"
  by (induction l) auto

lemma zinsert_sorted:
  assumes "sorted_wrt (\<lambda>x y. fle (snd y) (snd x)) l" "snd x \<noteq> NaN" "\<forall>y \<in> set l. snd y \<noteq> NaN"
  shows "sorted_wrt (\<lambda>x y. fle (snd y) (snd x)) (zinsert x l)"
  using assms
proof (induction l)
  case (Cons y l)
  then show ?case using fle_linear [of "snd x" "snd y"] fle_trans by auto
qed simp

lemma ex_full_ok:
  "distinct (map fst (ex_full z)) \<and> sorted_wrt (\<lambda>x y. fle (snd y) (snd x)) (ex_full z) \<and> (\<forall>y \<in> set (ex_full z). snd y \<noteq> NaN)"
proof (induction z rule: ex_full.induct)
  case (2 m s z)
  let ?l = "filter (\<lambda>x. fst x \<noteq> m) (ex_full z)"
  have "distinct (map fst ?l)" "sorted_wrt (\<lambda>x y. fle (snd y) (snd x)) ?l" "\<forall>y \<in> set ?l. snd y \<noteq> NaN" if "s \<noteq> NaN"
    using 2(2) [OF that] by (simp_all add: distinct_map_filter sorted_wrt_filter)
  then show ?case using 2(1) zinsert_distinct [of ?l "(m, s)"] zinsert_sorted [of ?l "(m, s)"] by auto
qed simp

lemma map_of_zinsert: "fst x \<notin> fst ` set l \<Longrightarrow> map_of (zinsert x l) = (map_of l)(fst x \<mapsto> snd x)"
  by (induction l) (auto simp: fun_eq_iff)

lemma map_of_remove: "map_of (filter (\<lambda>x. fst x \<noteq> m) l) k = (if k = m then None else map_of l k)"
  by (induction l) auto

lemma ex_full_add: "s \<noteq> NaN \<Longrightarrow> map_of (ex_full ((m, s) # z)) = (map_of (ex_full z))(m \<mapsto> s)"
  using map_of_zinsert [of "(m, s)" "filter (\<lambda>x. fst x \<noteq> m) (ex_full z)"] by (force simp: fun_eq_iff map_of_remove)

lemma ex_rd_ok: "redis_ok ex_rd ex_zset ex_hash"
proof -
  have "ex_zset ((m, s) # z, h) = (ex_zset (z, h))(m \<mapsto> s)" if "s \<noteq> NaN" for m s z h
    using ex_full_add [OF that] by (simp add: ex_zset_def)
  moreover have "ex_hash (z, h(k := fs @ h k)) = (ex_hash (z, h))(k := ex_hash (z, h) k ++ map_of fs)" for z h k fs
    by (simp add: ex_hash_def fun_eq_iff)
  moreover have "ex_zset (z, h) = ex_zset (z, h')" "ex_hash (z, h) = ex_hash (z', h)" for z z' h h'
    by (simp_all add: ex_zset_def ex_hash_def fun_eq_iff)
  ultimately have "zset_ok ex_rd ex_zset ex_hash"
    unfolding zset_ok_def ex_rd_def by (auto split: if_splits)
  moreover have "zrange_ok ex_rd ex_zset ex_hash"
    unfolding zrange_ok_def
  proof (intro conjI allI impI)
    fix stop :: int and r l assume l: "rZRevRange ex_rd GlobalLeaderboardKey 0 stop r = Inr l \<and> 0 \<le> stop"
    show "\<exists>full. distinct (map fst full) \<and> (\<forall>m s. (m, s) \<in> set full \<longleftrightarrow> ex_zset r m = Some s) \<and>
           sorted_wrt (\<lambda>x y. fle (snd y) (snd x)) full \<and> l = take (nat stop + 1) full"
      using l ex_full_ok [of "fst r"] by (cases r) (auto simp: ex_rd_def ex_zset_def intro!: exI [of _ "ex_full (fst r)"])
  qed (auto simp: ex_rd_def ex_hash_def)
  ultimately show ?thesis by (simp add: redis_ok_def)
qed

definition ex_db :: ex_redis where
  "ex_db = fst (UpdateScore ex_rd ''run-1'' ''team-a'' (f64_nat 1000) (f64_nat 2) (f64_nat 100) ''T1''
     (fst (UpdateScore ex_rd ''run-2'' ''team-b'' (f64_nat 3000) (f64_nat 2) (f64_nat 50) ''T2'' ([], \<lambda>_. []))))"

section \<open>Scores of non-negative measurements\<close>

lemma flt_zero: "fnonneg x \<Longrightarrow> flt (f64_nat 0) x \<longleftrightarrow> x \<noteq> Fin False 0"
  by (cases x) (auto simp: flt_def fval_def)

lemma percent_mono:
  assumes "fnonneg x" "fnonneg y" "fle x y"
  shows "fnonneg (fdiv x (f64_nat 100))" "fle (fdiv x (f64_nat 100)) (fdiv y (f64_nat 100))"
  using assms by (cases x; cases y; auto simp: fval_def intro!: f64_of_nonneg f64_of_mono divide_right_mono)+

lemma per_latency: "0 < p \<Longrightarrow> fnonneg (fdiv (f64_nat 1000) (Fin False p))"
  by (simp add: f64_of_nonneg)

lemma fmul_left: "fmul x y \<noteq> NaN \<Longrightarrow> x \<noteq> NaN"
  by (cases y) auto

lemma score_pos:
  "flt (f64_nat 0) sr \<Longrightarrow> 0 < p \<Longrightarrow>
   score tps (Fin False p) sr = fmul (fmul tps (fdiv (f64_nat 1000) (Fin False p))) (fdiv sr (f64_nat 100))"
  by (simp add: score_def flt_def fval_def)

text \<open>Measurements in any realistic range give a number.\<close>

lemma score_is_number:
  assumes "0 \<le> t" "t \<le> pow2 500" "1 \<le> p * pow2 400" "0 \<le> r" "r \<le> pow2 500"
  shows "score (Fin False t) (Fin False p) (Fin False r) \<noteq> NaN"
proof -
  have p: "0 < p" using assms(3) zero_less_mult_pos2 [of p "pow2 400"] by (cases "0 < p") (auto simp: mult_le_0_iff not_less intro: ccontr)
  have "1000 / p \<le> pow2 10 * pow2 400" using assms(3) p mult_left_mono [OF assms(3), of 1000] by (simp add: pow2_def field_simps)
  then have "1000 / p \<le> pow2 410" using pow2_add [of 10 400] by simp
  then have r: "rnd64 (1000 / p) \<le> pow2 410" "0 \<le> rnd64 (1000 / p)" using rnd64_pow2(1) [of 410 "1000 / p"] rnd64_nonneg p by simp_all
  then have l: "fdiv (f64_nat 1000) (Fin False p) = Fin False (rnd64 (1000 / p))"
    using p pow2_less [of 410 1024] by (auto simp: f64_of_def Let_def)
  have "t * rnd64 (1000 / p) \<le> pow2 500 * pow2 410" using assms(1,2) r by (intro mult_mono) auto
  also have "\<dots> \<le> pow2 1023" using pow2_add [of 500 410] pow2_mono [of 910 1023] by simp
  finally obtain q where q: "f64_of False (t * rnd64 (1000 / p)) = Fin False q" "0 \<le> q"
    using f64_of_finite [of "t * rnd64 (1000 / p)"] assms(1) r by auto
  have "r / 100 \<le> pow2 1023" using assms(4,5) pow2_mono [of 500 1023] by linarith
  then obtain u where u: "f64_of False (r / 100) = Fin False u" using f64_of_finite [of "r / 100"] assms(4) by auto
  have "f64_of s m \<noteq> NaN" for s m by (simp add: f64_of_def Let_def)
  then show ?thesis using score_pos [OF _ p, of "Fin False r" "Fin False t"] l q(1) u
    by (cases "flt (f64_nat 0) (Fin False r)") (auto simp: score_def)
qed

lemma score_nonneg:
  assumes "fnonneg tps" "fnonneg sr" "0 < p" "score tps (Fin False p) sr \<noteq> NaN"
  shows "fnonneg (score tps (Fin False p) sr)"
proof (cases "flt (f64_nat 0) sr")
  case True
  then have s: "score tps (Fin False p) sr = fmul (fmul tps (fdiv (f64_nat 1000) (Fin False p))) (fdiv sr (f64_nat 100))"
    using score_pos [OF _ assms(3)] by simp
  then have "fmul tps (fdiv (f64_nat 1000) (Fin False p)) \<noteq> NaN" using assms(4) fmul_left by metis
  then have "fnonneg (fmul tps (fdiv (f64_nat 1000) (Fin False p)))" using fmul_nonneg [OF assms(1) per_latency [OF assms(3)]] by blast
  moreover have "sr \<noteq> NaN" using assms(2) by auto
  then have "fnonneg (fdiv sr (f64_nat 100))" using percent_mono(1) [OF assms(2,2)] fle_refl by blast
  ultimately show ?thesis using fmul_nonneg assms(4) unfolding s by blast
qed (simp add: score_def)

section \<open>Properties\<close>

text \<open>
  C31. Better results never score lower: for non-negative measurements, a run with at least the
  throughput, at most the latency and at least the success rate of another run has at least its
  score, after all the rounding of floating-point arithmetic, unless one of the two scores is not
  a number; and a run with no success or no latency measurement scores zero.
\<close>

theorem score_monotone:
  assumes "fnonneg tps" "fnonneg sr" "fnonneg tps'" "fnonneg sr'" "fle tps tps'" "fle sr sr'"
    and "0 < p'" "p' \<le> p" "score tps (Fin False p) sr \<noteq> NaN" "score tps' (Fin False p') sr' \<noteq> NaN"
  shows "fle (score tps (Fin False p) sr) (score tps' (Fin False p') sr') \<and>
     score tps q (f64_nat 0) = f64_nat 0 \<and> score tps (f64_nat 0) sr = f64_nat 0"
proof -
  let ?l = "fdiv (f64_nat 1000) (Fin False p)" and ?l' = "fdiv (f64_nat 1000) (Fin False p')"
  have z: "score tps q (f64_nat 0) = f64_nat 0" "score tps (f64_nat 0) sr = f64_nat 0"
    by (simp_all add: score_def flt_def fval_def)
  have p: "0 < p" using assms(7,8) by linarith
  have "fle (score tps (Fin False p) sr) (score tps' (Fin False p') sr')"
  proof (cases "flt (f64_nat 0) sr")
    case True
    then have sr': "flt (f64_nat 0) sr'" using assms(2,4,6) fle_trans by (cases sr; cases sr') (auto simp: flt_def fval_def)
    have s: "score tps (Fin False p) sr = fmul (fmul tps ?l) (fdiv sr (f64_nat 100))"
      "score tps' (Fin False p') sr' = fmul (fmul tps' ?l') (fdiv sr' (f64_nat 100))"
      using score_pos [OF True p] score_pos [OF sr' assms(7)] by simp_all
    have n: "fmul tps ?l \<noteq> NaN" "fmul tps' ?l' \<noteq> NaN" using assms(9,10) fmul_left unfolding s by blast+
    have i: "fnonneg (fmul tps ?l)" "fnonneg (fmul tps' ?l')"
      using fmul_nonneg [OF assms(1) per_latency [OF p]] fmul_nonneg [OF assms(3) per_latency [OF assms(7)]] n by blast+
    have "fle (fmul tps ?l) (fmul tps' ?l')"
      by (rule fmul_mono [OF assms(1) per_latency [OF p] assms(3) per_latency [OF assms(7)] assms(5) fdiv_antimono n])
        (use assms(7,8) in simp_all)
    moreover have "fle sr' sr'" using assms(4) fle_refl by (cases sr') auto
    ultimately show ?thesis using fmul_mono [OF i(1) percent_mono(1) i(2) percent_mono(1) _ percent_mono(2)] assms unfolding s by blast
  next
    case False
    then have "score tps (Fin False p) sr = Fin False 0" by (simp add: score_def)
    then show ?thesis using score_nonneg [OF assms(3,4,7,10)] by (cases "score tps' (Fin False p') sr'") (auto simp: fval_def)
  qed
  then show ?thesis using z by blast
qed

theorem score_monotone_witness: "fle (score (f64_nat 1000) (Fin False (1 / 2)) (f64_nat 50)) (score (f64_nat 2000) (Fin False (1 / 3)) (f64_nat 100))"
proof -
  have "pow2 11 \<le> pow2 500" "pow2 2 \<le> pow2 400" by (simp_all add: pow2_mono)
  then have b: "2000 \<le> pow2 500" "4 \<le> pow2 400" by (simp_all add: pow2_def)
  have "score (f64_nat 1000) (Fin False (1 / 2)) (f64_nat 50) \<noteq> NaN" "score (f64_nat 2000) (Fin False (1 / 3)) (f64_nat 100) \<noteq> NaN"
    by (rule score_is_number; use b in simp)+
  from score_monotone [OF _ _ _ _ _ _ _ _ this] show ?thesis by (simp add: fval_def)
qed


lemma ex_db_updated: "updated ex_rd ex_zset ex_db [''run-2'' \<mapsto> (''team-b'', score (f64_nat 3000) (f64_nat 2) (f64_nat 50)),
    ''run-1'' \<mapsto> (''team-a'', score (f64_nat 1000) (f64_nat 2) (f64_nat 100))]"
proof -
  have "pow2 12 \<le> pow2 500" "pow2 2 \<le> pow2 400" by (simp_all add: pow2_mono)
  then have b: "3000 \<le> pow2 500" "4 \<le> pow2 400" by (simp_all add: pow2_def)
  then have n: "score (f64_nat 3000) (f64_nat 2) (f64_nat 50) \<noteq> NaN" "score (f64_nat 1000) (f64_nat 2) (f64_nat 100) \<noteq> NaN"
    by (simp_all add: score_is_number)
  have u: "\<exists>r'. UpdateScore ex_rd i c (f64_nat t) (f64_nat p) (f64_nat s) st r = (r', Inr (score (f64_nat t) (f64_nat p) (f64_nat s)))"
    if "score (f64_nat t) (f64_nat p) (f64_nat s) \<noteq> NaN" for i c t p s st r
    using that by (cases r) (simp add: UpdateScore_def ex_rd_def Let_def)
  obtain r1 where r1: "UpdateScore ex_rd ''run-2'' ''team-b'' (f64_nat 3000) (f64_nat 2) (f64_nat 50) ''T2'' ([], \<lambda>_. []) =
      (r1, Inr (score (f64_nat 3000) (f64_nat 2) (f64_nat 50)))" using u [OF n(1)] by blast
  obtain r2 where r2: "UpdateScore ex_rd ''run-1'' ''team-a'' (f64_nat 1000) (f64_nat 2) (f64_nat 100) ''T1'' r1 =
      (r2, Inr (score (f64_nat 1000) (f64_nat 2) (f64_nat 100)))" using u [OF n(2)] by blast
  have "updated ex_rd ex_zset ([], \<lambda>_. []) Map.empty" by (rule updated.init) (simp add: ex_zset_def)
  from updated.update [OF updated.update [OF this _ _ _ r1] _ _ _ r2] show ?thesis unfolding ex_db_def r1 fst_conv r2 by simp
qed


end
