(* ===== verification/Telemetry_Queue.thy ===== *)
theory Telemetry_Queue
  imports Ranking
begin

text \<open>
  The telemetry path: events (\<open>pkg/queue/messages.go\<close>), the producer (\<open>producer.go\<close>), the
  consumer loop (\<open>consumer.go\<close>) and the leaderboard service that feeds the events into
  \<open>UpdateScore\<close> and serves the standings (\<open>cmd/leaderboard-service/main.go\<close>).  JSON encoding
  and decoding of events and the Kafka client are parameters; the consumer loop runs over the
  list of what it observes in each round.
\<close>

section \<open>Events and the producer\<close>

record telemetry_event =
  tSubmissionID :: string
  tContestantID :: string
  tTPS :: f64
  tP99LatencyMS :: f64
  tSuccessRate :: f64
  tTimestamp :: int

definition TelemetryTopic :: string where "TelemetryTopic = ''run.telemetry''"

definition Serialize :: "(telemetry_event \<Rightarrow> string + string) \<Rightarrow> telemetry_event \<Rightarrow> string + string" where
  "Serialize Marshal e = Marshal e"

definition DeserializeTelemetryEvent :: "(string \<Rightarrow> string + telemetry_event) \<Rightarrow> string \<Rightarrow> string + telemetry_event" where
  "DeserializeTelemetryEvent Unmarshal data = (case Unmarshal data of Inl err \<Rightarrow> Inl err | Inr e \<Rightarrow> Inr e)"

record kafka_message =
  kmKey :: string
  kmValue :: string

text \<open>
  The settings of the writer.  \<open>LeastBytes\<close> and \<open>Hash\<close> name two of the balancers of the Kafka
  client, which decide on the partition of a message; times are in nanoseconds.
\<close>

datatype balancer = LeastBytes | Hash

datatype required_acks = RequireNone | RequireOne | RequireAll

record kafka_writer =
  kwAddr :: "string list"
  kwTopic :: string
  kwBalancer :: balancer
  kwBatchSize :: nat
  kwBatchTimeout :: nat
  kwAsync :: bool
  kwRequiredAcks :: required_acks

definition NewProducer :: "string list \<Rightarrow> kafka_writer" where
  "NewProducer brokers = \<lparr>kwAddr = brokers, kwTopic = TelemetryTopic, kwBalancer = LeastBytes, kwBatchSize = 100,
     kwBatchTimeout = 10 * 1000000, kwAsync = True, kwRequiredAcks = RequireOne\<rparr>"

definition PublishTelemetry ::
  "(telemetry_event \<Rightarrow> string + string) \<Rightarrow> (kafka_message \<Rightarrow> 'k \<Rightarrow> 'k \<times> string option) \<Rightarrow> telemetry_event \<Rightarrow> 'k \<Rightarrow> 'k \<times> string option" where
  "PublishTelemetry Marshal WriteMessages e k = (case Serialize Marshal e of
     Inl err \<Rightarrow> (k, Some (''failed to serialize event: '' @ err))
   | Inr payload \<Rightarrow> (case WriteMessages \<lparr>kmKey = tSubmissionID e, kmValue = payload\<rparr> k of
        (k, Some err) \<Rightarrow> (k, Some (''failed to write message to Redpanda: '' @ err))
      | (k, None) \<Rightarrow> (k, None)))"

text \<open>\<open>Close\<close> of the producer passes on the error of the writer.\<close>

definition producer_Close :: "('k \<Rightarrow> 'k \<times> string option) \<Rightarrow> 'k \<Rightarrow> 'k \<times> string option" where
  "producer_Close WriterClose k = WriterClose k"

section \<open>The consumer\<close>

record reader_config =
  rcBrokers :: "string list"
  rcGroupID :: string
  rcTopic :: string
  rcMinBytes :: nat
  rcMaxBytes :: nat

definition NewConsumer :: "string list \<Rightarrow> string \<Rightarrow> reader_config" where
  "NewConsumer brokers groupID = \<lparr>rcBrokers = brokers, rcGroupID = groupID, rcTopic = TelemetryTopic,
     rcMinBytes = 10000, rcMaxBytes = 10000000\<rparr>"

definition consumer_Close :: "('k \<Rightarrow> 'k \<times> string option) \<Rightarrow> 'k \<Rightarrow> 'k \<times> string option" where
  "consumer_Close ReaderClose k = (case ReaderClose k of
     (k, Some err) \<Rightarrow> (k, Some (''failed to close Redpanda reader: '' @ err))
   | (k, None) \<Rightarrow> (k, None))"

text \<open>
  One round of the loop observes whether the context is done, the outcome of \<open>ReadMessage\<close>,
  whether the context is done after a failed read, and the clock, formatted, which the handler
  reads.  A failed read, an undecodable value and a failed handler are logged, and the loop goes
  on; it returns at a round in which it finds the context done.
\<close>

datatype read_result = ReadError string | ReadOk string

record poll =
  ctxDone :: bool
  pRead :: read_result
  ctxDoneAfter :: bool
  pStamp :: string

definition listen_once ::
  "(string \<Rightarrow> string + telemetry_event) \<Rightarrow> (string \<Rightarrow> telemetry_event \<Rightarrow> 's \<Rightarrow> 's \<times> string option) \<Rightarrow> poll \<Rightarrow> 's \<Rightarrow> 's \<times> bool" where
  "listen_once Unmarshal handler m s = (if ctxDone m then (s, True) else (case pRead m of
     ReadError err \<Rightarrow> (s, ctxDoneAfter m)
   | ReadOk v \<Rightarrow> (case DeserializeTelemetryEvent Unmarshal v of
        Inl err \<Rightarrow> (s, False)
      | Inr e \<Rightarrow> (fst (handler (pStamp m) e s), False))))"

text \<open>The state after the given rounds, and whether the loop has returned.\<close>

fun StartListening ::
  "(string \<Rightarrow> string + telemetry_event) \<Rightarrow> (string \<Rightarrow> telemetry_event \<Rightarrow> 's \<Rightarrow> 's \<times> string option) \<Rightarrow> poll list \<Rightarrow> 's \<Rightarrow> 's \<times> bool" where
  "StartListening Unmarshal handler [] s = (s, False)"
| "StartListening Unmarshal handler (m # ms) s = (case listen_once Unmarshal handler m s of
     (s, True) \<Rightarrow> (s, True)
   | (s, False) \<Rightarrow> StartListening Unmarshal handler ms s)"

section \<open>The leaderboard service\<close>

text \<open>The handler the service passes to the consumer.\<close>

definition on_telemetry :: "'r redis \<Rightarrow> string \<Rightarrow> telemetry_event \<Rightarrow> 'r \<Rightarrow> 'r \<times> string option" where
  "on_telemetry rd stamp e r =
     (case UpdateScore rd (tSubmissionID e) (tContestantID e) (tTPS e) (tP99LatencyMS e) (tSuccessRate e) stamp r of
        (r, Inl err) \<Rightarrow> (r, Some err)
      | (r, Inr sc) \<Rightarrow> (r, None))"

text \<open>
  The replies: the standings, a score, an error, or an empty body with status 200.  The last is
  what remains when the encoder refuses a number that is not finite, since its error is ignored.
\<close>

datatype lb_reply = LbEntries "leaderboard_entry list" | LbScore f64 | LbError nat string | LbEmpty

definition entry_encodable :: "leaderboard_entry \<Rightarrow> bool" where
  "entry_encodable e \<longleftrightarrow> finite64 (eTPS e) \<and> finite64 (eP99Latency e) \<and> finite64 (eSuccessRate e) \<and> finite64 (eScore e)"

definition encode_page :: "leaderboard_entry list \<Rightarrow> lb_reply" where
  "encode_page entries = (if list_all entry_encodable entries then LbEntries entries else LbEmpty)"

definition serve_leaderboard :: "'r redis \<Rightarrow> (string \<Rightarrow> f64) \<Rightarrow> (string \<Rightarrow> int) \<Rightarrow> 'r \<Rightarrow> lb_reply" where
  "serve_leaderboard rd ParseFloat ParseTime r = (case GetLeaderboard rd ParseFloat ParseTime 50 r of
     Inl err \<Rightarrow> LbError 500 err
   | Inr entries \<Rightarrow> encode_page entries)"

definition serve_debug_run :: "'r redis \<Rightarrow> string \<Rightarrow> string + telemetry_event \<Rightarrow> 'r \<Rightarrow> 'r \<times> lb_reply" where
  "serve_debug_run rd stamp body r = (case body of
     Inl err \<Rightarrow> (r, LbError 400 err)
   | Inr q \<Rightarrow> (case UpdateScore rd (tSubmissionID q) (tContestantID q) (tTPS q) (tP99LatencyMS q) (tSuccessRate q) stamp r of
        (r, Inl err) \<Rightarrow> (r, LbError 500 err)
      | (r, Inr sc) \<Rightarrow> (r, if finite64 sc then LbScore sc else LbEmpty)))"

section \<open>What the consumer delivers\<close>

text \<open>
  The loop stops at the first round that finds the context done.  What it delivers are the events
  of the messages it could read and decode before, in their order.
\<close>

definition stops :: "poll \<Rightarrow> bool" where
  "stops m \<longleftrightarrow> ctxDone m \<or> ctxDoneAfter m \<and> (\<exists>err. pRead m = ReadError err)"

definition delivery :: "(string \<Rightarrow> string + telemetry_event) \<Rightarrow> poll \<Rightarrow> (string \<times> telemetry_event) option" where
  "delivery Unmarshal m = (case pRead m of ReadError err \<Rightarrow> None
     | ReadOk v \<Rightarrow> (case Unmarshal v of Inl err \<Rightarrow> None | Inr e \<Rightarrow> Some (pStamp m, e)))"

definition delivered :: "(string \<Rightarrow> string + telemetry_event) \<Rightarrow> poll list \<Rightarrow> (string \<times> telemetry_event) list" where
  "delivered Unmarshal ms = List.map_filter (delivery Unmarshal) (takeWhile (\<lambda>m. \<not> stops m) ms)"

lemma delivered_simps [simp]:
  "delivered U [] = []"
  "delivered U (m # ms) = (if stops m then [] else case delivery U m of None \<Rightarrow> delivered U ms | Some x \<Rightarrow> x # delivered U ms)"
  by (simp_all add: delivered_def map_filter_simps split: option.split)

text \<open>
  The loop handles exactly the delivered events, and it has returned exactly when the context was
  found done.
\<close>

lemma StartListening_fold:
  "StartListening U handler ms s = (foldl (\<lambda>s x. fst (handler (fst x) (snd x) s)) s (delivered U ms), \<exists>m \<in> set ms. stops m)"
proof (induction ms arbitrary: s)
  case (Cons m ms)
  then show ?case
    by (cases "pRead m") (auto simp: delivery_def listen_once_def stops_def DeserializeTelemetryEvent_def split: sum.splits bool.splits)
qed simp

definition event_score :: "telemetry_event \<Rightarrow> f64" where
  "event_score e = score (tTPS e) (tP99LatencyMS e) (tSuccessRate e)"

definition event_wf :: "telemetry_event \<Rightarrow> bool" where
  "event_wf e \<longleftrightarrow> fwf (tTPS e) \<and> fwf (tP99LatencyMS e) \<and> fwf (tSuccessRate e)"

text \<open>
  The contestant and the score of the last event of each submission; an event whose score is not
  a number changes nothing.
\<close>

definition record_event :: "(string \<rightharpoonup> string \<times> f64) \<Rightarrow> telemetry_event \<Rightarrow> string \<rightharpoonup> string \<times> f64" where
  "record_event latest e = (if event_score e = NaN then latest
     else latest(tSubmissionID e \<mapsto> (tContestantID e, event_score e)))"

definition latest_events :: "telemetry_event list \<Rightarrow> string \<rightharpoonup> string \<times> f64" where
  "latest_events es = foldl record_event Map.empty es"

lemma finite_latest_events: "finite (dom (latest_events es))"
  by (induction es rule: rev_induct) (simp_all add: latest_events_def record_event_def)

text \<open>An overflowing score is on every page, and the page cannot be encoded.\<close>

lemma overflow_blanks_page:
  assumes "standings (latest_events es) 50 page" "latest_events es m = Some (c, Inf False)"
  shows "encode_page page = LbEmpty"
proof -
  have st: "\<forall>e \<in> set page. \<exists>s. latest_events es (eSubmissionID e) = Some (eContestantID e, s) \<and> eScore e = shown s"
    "length page = min 50 (card (dom (latest_events es)))"
    "m \<notin> eSubmissionID ` set page \<longrightarrow> (\<forall>e \<in> set page. fle (shown (Inf False)) (eScore e))"
    using assms unfolding standings_def by (auto simp del: shown.simps)
  have "0 < card (dom (latest_events es))" using assms(2) finite_latest_events [of es] by (auto simp: card_gt_0_iff)
  then obtain e0 where e0: "e0 \<in> set page" using st(2) by (cases page) auto
  have "\<exists>e \<in> set page. \<not> finite64 (eScore e)"
  proof (cases "m \<in> eSubmissionID ` set page")
    case True
    then obtain e where "e \<in> set page" "eSubmissionID e = m" by blast
    then have "eScore e = Inf False" using st(1) assms(2) by fastforce
    then show ?thesis using \<open>e \<in> set page\<close> by force
  next
    case False
    then have "fle (Inf False) (eScore e0)" using st(3) e0 by simp
    then show ?thesis using e0 by (cases "eScore e0") force+
  qed
  then show ?thesis by (auto simp: encode_page_def list_all_iff entry_encodable_def)
qed

text \<open>Redis is reachable: it refuses a score that is not a number, and no other call fails.\<close>

definition redis_up :: "'r redis \<Rightarrow> bool" where
  "redis_up rd \<longleftrightarrow> (\<forall>k m s r. s \<noteq> NaN \<longrightarrow> snd (rZAdd rd k m s r) = None) \<and>
     (\<forall>k m r. \<exists>err. rZAdd rd k m NaN r = (r, Some err)) \<and> (\<forall>k fs r. snd (rHSet rd k fs r) = None)"

lemma UpdateScore_up:
  assumes "redis_up rd" "score tps p99 sr \<noteq> NaN"
  shows "\<exists>r'. UpdateScore rd sid cid tps p99 sr stamp r = (r', Inr (score tps p99 sr))"
proof -
  obtain r1 where z: "rZAdd rd GlobalLeaderboardKey sid (score tps p99 sr) r = (r1, None)"
    using assms by (metis prod.collapse redis_up_def)
  obtain r2 where "rHSet rd (MetadataKeyPrefix @ sid) (score_meta sid cid tps p99 sr (score tps p99 sr) stamp) r1 = (r2, None)"
    using assms by (metis prod.collapse redis_up_def)
  with z show ?thesis by (simp add: UpdateScore_def Let_def)
qed

lemma UpdateScore_NaN:
  assumes "redis_up rd" "score tps p99 sr = NaN"
  shows "\<exists>err. UpdateScore rd sid cid tps p99 sr stamp r = (r, Inl err)"
proof -
  obtain err where "rZAdd rd GlobalLeaderboardKey sid NaN r = (r, Some err)" using assms(1) unfolding redis_up_def by blast
  then show ?thesis using assms(2) by (simp add: UpdateScore_def)
qed

lemma on_telemetry_updated:
  assumes "redis_up rd" "event_wf e" "updated rd zset r latest"
  shows "updated rd zset (fst (on_telemetry rd stamp e r)) (record_event latest e)"
proof (cases "event_score e = NaN")
  case True
  then obtain err where "UpdateScore rd (tSubmissionID e) (tContestantID e) (tTPS e) (tP99LatencyMS e) (tSuccessRate e) stamp r = (r, Inl err)"
    using UpdateScore_NaN [OF assms(1)] unfolding event_score_def by blast
  then show ?thesis using True assms(3) by (simp add: on_telemetry_def record_event_def)
next
  case False
  then obtain r' where r': "UpdateScore rd (tSubmissionID e) (tContestantID e) (tTPS e) (tP99LatencyMS e) (tSuccessRate e) stamp r =
      (r', Inr (event_score e))"
    using UpdateScore_up [OF assms(1)] unfolding event_score_def by blast
  from updated.update [OF assms(3) _ _ _ r'] show ?thesis
    using assms(2) False r' by (simp add: event_wf_def on_telemetry_def record_event_def)
qed

lemma fold_updated:
  assumes "redis_up rd" "zset r = Map.empty" "\<forall>x \<in> set xs. event_wf (snd x)"
  shows "updated rd zset (foldl (\<lambda>s x. fst (on_telemetry rd (fst x) (snd x) s)) r xs) (latest_events (map snd xs))"
  using assms(3)
proof (induction xs rule: rev_induct)
  case Nil
  then show ?case using assms(2) by (simp add: latest_events_def updated.init)
next
  case (snoc x xs)
  then show ?case using on_telemetry_updated [OF assms(1)] by (simp add: latest_events_def)
qed

section \<open>Properties\<close>


definition ex_event :: "string \<Rightarrow> nat \<Rightarrow> telemetry_event" where
  "ex_event sid t = \<lparr>tSubmissionID = sid, tContestantID = ''team-a'', tTPS = f64_nat t, tP99LatencyMS = f64_nat 2,
     tSuccessRate = f64_nat 100, tTimestamp = 0\<rparr>"

definition ex_Unmarshal :: "string \<Rightarrow> string + telemetry_event" where
  "ex_Unmarshal v = (if v = ''a'' then Inr (ex_event ''run-1'' 1000) else if v = ''b'' then Inr (ex_event ''run-2'' 3000)
     else Inl ''unexpected end of JSON input'')"

definition ex_poll :: "string \<Rightarrow> read_result \<Rightarrow> poll" where
  "ex_poll stamp res = \<lparr>ctxDone = False, pRead = res, ctxDoneAfter = False, pStamp = stamp\<rparr>"

definition ex_reads :: "poll list" where
  "ex_reads = [ex_poll ''T1'' (ReadOk ''a''), ex_poll ''T2'' (ReadError ''EOF''), ex_poll ''T3'' (ReadOk ''c''),
     ex_poll ''T4'' (ReadOk ''b''), (ex_poll ''T5'' (ReadError ''context canceled''))\<lparr>ctxDoneAfter := True\<rparr>,
     ex_poll ''T6'' (ReadOk ''a'')]"

lemma ex_rd_up: "redis_up ex_rd"
  by (auto simp: redis_up_def ex_rd_def split: prod.splits)

lemma ex_delivered: "delivered ex_Unmarshal ex_reads = [(''T1'', ex_event ''run-1'' 1000), (''T4'', ex_event ''run-2'' 3000)]"
  by (simp add: ex_reads_def ex_poll_def stops_def delivery_def ex_Unmarshal_def)


end
