(* ===== verification/Leaderboard_Hub.thy ===== *)
theory Leaderboard_Hub
  imports Platform_Prelude
begin

text \<open>
  The live-update hub of \<open>pkg/leaderboard/broadcast.go\<close>.  It differs from the market-data hub
  in three ways: the broadcast channel is unbuffered, a client whose buffer is full is not closed
  on the spot but unregistered by a goroutine of its own, and \<open>WritePump\<close> puts everything that
  is queued into one WebSocket frame.  As there, messages are a parameter and a send on or a
  \<open>close\<close> of a closed channel is a panic (\<open>None\<close>).
\<close>

section \<open>State\<close>

type_synonym wref = nat

text \<open>
  Where \<open>WritePump\<close> is: at its \<open>select\<close>, with a frame that holds its first message, or copying
  further messages into it, with the number of those still to come.
\<close>

datatype 'm pump = PumpSelect | PumpFrame "'m list" | PumpCopy "'m list" nat

record 'm lclient =
  lsend :: "'m list"
  lclosed :: bool
  lframes :: "'m list list"
  lreading :: bool
  lwriting :: bool
  lpump :: "'m pump"

text \<open>
  \<open>lframes\<close> are the frames written to the connection, each the list of the messages in it;
  \<open>lunreg\<close> are the clients for which a goroutine waits to send on \<open>Unregister\<close>.
\<close>

record 'm lhub =
  lclients :: "wref set"
  lchans :: "wref \<rightharpoonup> 'm lclient"
  lunreg :: "wref list"

definition lsend_cap :: nat where "lsend_cap = 256"

definition lb_NewHub :: "'m lhub" where
  "lb_NewHub = \<lparr>lclients = {}, lchans = Map.empty, lunreg = []\<rparr>"

section \<open>Operations\<close>

definition set_client :: "wref \<Rightarrow> 'm lclient \<Rightarrow> 'm lhub \<Rightarrow> 'm lhub" where
  "set_client c x h = h\<lparr>lchans := (lchans h)(c \<mapsto> x)\<rparr>"

text \<open>\<open>case client := <-h.Unregister\<close>.\<close>

definition lb_unregister :: "wref \<Rightarrow> 'm lhub \<Rightarrow> 'm lhub option" where
  "lb_unregister c h = (if c \<in> lclients h then do {
       x \<leftarrow> lchans h c;
       if lclosed x then None else Some (set_client c (x\<lparr>lclosed := True\<rparr>) (h\<lparr>lclients := lclients h - {c}\<rparr>)) }
     else Some h)"

text \<open>The \<open>select\<close> in the broadcast loop, and the loop over the clients in the order \<open>cs\<close>.\<close>

definition lb_offer :: "wref \<Rightarrow> 'm \<Rightarrow> 'm lhub \<Rightarrow> 'm lhub option" where
  "lb_offer c m h = do {
     x \<leftarrow> lchans h c;
     if lclosed x then None
     else if length (lsend x) < lsend_cap then Some (set_client c (x\<lparr>lsend := lsend x @ [m]\<rparr>) h)
     else Some (h\<lparr>lunreg := lunreg h @ [c]\<rparr>) }"

fun lb_broadcast :: "wref list \<Rightarrow> 'm \<Rightarrow> 'm lhub \<Rightarrow> 'm lhub option" where
  "lb_broadcast [] m h = Some h"
| "lb_broadcast (c # cs) m h = do { h \<leftarrow> lb_offer c m h; lb_broadcast cs m h }"

definition lb_ServeWs :: "wref \<Rightarrow> 'm lhub \<Rightarrow> 'm lhub" where
  "lb_ServeWs c h = set_client c \<lparr>lsend = [], lclosed = False, lframes = [], lreading = True, lwriting = True, lpump = PumpSelect\<rparr>
     (h\<lparr>lclients := insert c (lclients h)\<rparr>)"

text \<open>\<open>ReadPump\<close> ends on a read error and then waits to unregister the client.\<close>

definition lb_ReadPump_exit :: "wref \<Rightarrow> 'm lhub \<Rightarrow> 'm lhub option" where
  "lb_ReadPump_exit c h = do { x \<leftarrow> lchans h c; Some (set_client c (x\<lparr>lreading := False\<rparr>) (h\<lparr>lunreg := lunreg h @ [c]\<rparr>)) }"

text \<open>
  The steps of \<open>WritePump\<close> on the \<open>send\<close> channel: the first message opens a frame, then
  \<open>len(c.send)\<close> is read, that many messages are received into the frame, and the frame is closed.
  \<open>NextWriter\<close> may fail after the first message was received, and closing the frame may fail at
  the end; on a closed and drained channel the pump ends.  The hub and the other goroutines may
  run between any two of these steps.
\<close>

datatype write_result = Written | NextWriterFails | CloseFails

definition lb_WritePump :: "write_result \<Rightarrow> wref \<Rightarrow> 'm lhub \<Rightarrow> 'm lhub option" where
  "lb_WritePump r c h = do {
     x \<leftarrow> lchans h c;
     Some (case lpump x of
       PumpSelect \<Rightarrow> (case lsend x of
           [] \<Rightarrow> if lclosed x then set_client c (x\<lparr>lwriting := False\<rparr>) h else h
         | m # ms \<Rightarrow> if r = NextWriterFails then set_client c (x\<lparr>lsend := ms, lwriting := False\<rparr>) h
             else set_client c (x\<lparr>lsend := ms, lpump := PumpFrame [m]\<rparr>) h)
     | PumpFrame fr \<Rightarrow> set_client c (x\<lparr>lpump := PumpCopy fr (length (lsend x))\<rparr>) h
     | PumpCopy fr (Suc n) \<Rightarrow> (case lsend x of
           [] \<Rightarrow> h
         | m # ms \<Rightarrow> set_client c (x\<lparr>lsend := ms, lpump := PumpCopy (fr @ [m]) n\<rparr>) h)
     | PumpCopy fr 0 \<Rightarrow> if r = CloseFails then set_client c (x\<lparr>lwriting := False, lpump := PumpSelect\<rparr>) h
         else set_client c (x\<lparr>lframes := lframes x @ [fr], lpump := PumpSelect\<rparr>) h) }"

text \<open>\<open>case <-ticker.C\<close> with a ping that fails.\<close>

definition lb_ping_fails :: "wref \<Rightarrow> 'm lhub \<Rightarrow> 'm lhub option" where
  "lb_ping_fails c h = do { x \<leftarrow> lchans h c; Some (set_client c (x\<lparr>lwriting := False\<rparr>) h) }"

text \<open>The bytes of a frame: the messages, separated by line feeds.\<close>

fun frame_bytes :: "string list \<Rightarrow> string" where
  "frame_bytes [] = []"
| "frame_bytes [m] = m"
| "frame_bytes (m # ms) = m @ [CHR 0x0A] @ frame_bytes ms"

section \<open>Runs\<close>

text \<open>
  \<open>log\<close> are the messages broadcast so far and \<open>j c\<close> is how many there were when client \<open>c\<close>
  registered.
\<close>

inductive lb_run :: "'m lhub \<Rightarrow> 'm list \<Rightarrow> (wref \<Rightarrow> nat) \<Rightarrow> bool" where
  init: "lb_run lb_NewHub [] (\<lambda>_. 0)"
| serve: "lb_run h log j \<Longrightarrow> lchans h c = None \<Longrightarrow> lb_run (lb_ServeWs c h) log (j(c := length log))"
| bcast: "lb_run h log j \<Longrightarrow> distinct cs \<Longrightarrow> set cs = lclients h \<Longrightarrow> lb_broadcast cs m h = Some h' \<Longrightarrow> lb_run h' (log @ [m]) j"
| unreg: "lb_run h log j \<Longrightarrow> c \<in> set (lunreg h) \<Longrightarrow> lb_unregister c (h\<lparr>lunreg := remove1 c (lunreg h)\<rparr>) = Some h' \<Longrightarrow> lb_run h' log j"
| hangup: "lb_run h log j \<Longrightarrow> lchans h c = Some x \<Longrightarrow> lreading x \<Longrightarrow> lb_ReadPump_exit c h = Some h' \<Longrightarrow> lb_run h' log j"
| flush: "lb_run h log j \<Longrightarrow> lchans h c = Some x \<Longrightarrow> lwriting x \<Longrightarrow> lb_WritePump r c h = Some h' \<Longrightarrow> lb_run h' log j"
| ping: "lb_run h log j \<Longrightarrow> lchans h c = Some x \<Longrightarrow> lwriting x \<Longrightarrow> lpump x = PumpSelect \<Longrightarrow> lb_ping_fails c h = Some h' \<Longrightarrow> lb_run h' log j"

section \<open>Invariant\<close>

definition lhub_inv :: "'m lhub \<Rightarrow> bool" where
  "lhub_inv h \<longleftrightarrow> finite (lclients h) \<and> (\<forall>c. c \<in> lclients h \<longleftrightarrow> (\<exists>x. lchans h c = Some x \<and> \<not> lclosed x))"

text \<open>
  The messages in an unfinished frame, and all that a client has still to be sent.  While it copies,
  the pump finds what it waits for in the channel, and a frame never grows beyond 257 messages.
\<close>

fun in_frame :: "'m pump \<Rightarrow> 'm list" where
  "in_frame PumpSelect = []"
| "in_frame (PumpFrame fr) = fr"
| "in_frame (PumpCopy fr n) = fr"

definition unsent :: "'m lclient \<Rightarrow> 'm list" where
  "unsent x = in_frame (lpump x) @ lsend x"

definition pump_ok :: "'m lclient \<Rightarrow> bool" where
  "pump_ok x \<longleftrightarrow> (case lpump x of PumpSelect \<Rightarrow> True
     | PumpFrame fr \<Rightarrow> lwriting x \<and> length fr = 1
     | PumpCopy fr n \<Rightarrow> lwriting x \<and> fr \<noteq> [] \<and> n \<le> length (lsend x) \<and> length fr + n \<le> Suc lsend_cap) \<and>
     (\<forall>fr \<in> set (lframes x). fr \<noteq> [] \<and> length fr \<le> Suc lsend_cap)"

lemma pump_frame [simp]:
  "pump_ok (x\<lparr>lclosed := b\<rparr>) = pump_ok x" "pump_ok (x\<lparr>lreading := b\<rparr>) = pump_ok x"
  "unsent (x\<lparr>lclosed := b\<rparr>) = unsent x" "unsent (x\<lparr>lreading := b\<rparr>) = unsent x"
  by (simp_all add: pump_ok_def unsent_def split: pump.split)

text \<open>What a client has seen of the messages \<open>ms\<close>; \<open>kept\<close> says that it is not to be dropped.\<close>

definition lstream_ok :: "'m list \<Rightarrow> bool \<Rightarrow> 'm lclient \<Rightarrow> bool" where
  "lstream_ok ms kept x \<longleftrightarrow> length (lsend x) \<le> lsend_cap \<and> subseq (concat (lframes x)) ms \<and> pump_ok x \<and>
     (lwriting x \<longrightarrow> subseq (concat (lframes x) @ unsent x) ms) \<and>
     (lwriting x \<and> \<not> lclosed x \<and> kept \<longrightarrow> concat (lframes x) @ unsent x = ms)"

definition lhub_streams :: "'m lhub \<Rightarrow> 'm list \<Rightarrow> (wref \<Rightarrow> nat) \<Rightarrow> bool" where
  "lhub_streams h log j \<longleftrightarrow> lhub_inv h \<and>
     (\<forall>c x. lchans h c = Some x \<longrightarrow> j c \<le> length log \<and> lstream_ok (drop (j c) log) (c \<notin> set (lunreg h)) x)"

lemma lhub_streamsD:
  assumes "lhub_streams h log j"
  shows "lhub_inv h" "lchans h c = Some x \<Longrightarrow> j c \<le> length log"
    "lchans h c = Some x \<Longrightarrow> lstream_ok (drop (j c) log) (c \<notin> set (lunreg h)) x"
  using assms by (auto simp: lhub_streams_def)

lemma lstream_ok_weak: "lstream_ok ms k x \<Longrightarrow> (k' \<Longrightarrow> k) \<Longrightarrow> lstream_ok ms k' x"
  by (auto simp: lstream_ok_def)

lemma subseq_snoc: "subseq xs ms \<Longrightarrow> subseq xs (ms @ [m])"
  using list_emb_append_mono [of "(=)" xs ms "[]" "[m]"] by simp

lemma subseq_prefix: "subseq (xs @ ys) ms \<Longrightarrow> subseq xs ms"
  using list_emb_append_mono [of "(=)" xs xs "[]" ys] subseq_order.trans [of xs "xs @ ys" ms] by simp

lemma lstream_ok_gone: "lstream_ok ms k x \<Longrightarrow> lclosed x \<or> \<not> k' \<or> \<not> lwriting x \<Longrightarrow> lstream_ok (ms @ [m]) k' x"
  by (auto simp: lstream_ok_def subseq_snoc)

text \<open>The effect of a broadcast on one client.\<close>

definition has_space :: "'m lclient \<Rightarrow> bool" where
  "has_space x \<longleftrightarrow> length (lsend x) < lsend_cap"

definition loffered :: "'m \<Rightarrow> 'm lclient \<Rightarrow> 'm lclient" where
  "loffered m x = (if has_space x then x\<lparr>lsend := lsend x @ [m]\<rparr> else x)"

lemma loffered_closed [simp]: "lclosed (loffered m x) = lclosed x"
  by (simp add: loffered_def)

lemma pump_ok_offered: "pump_ok x \<Longrightarrow> pump_ok (loffered m x)"
  by (simp add: pump_ok_def loffered_def split: pump.splits)

lemma lstream_ok_offered:
  assumes "lstream_ok ms k x" "k' \<Longrightarrow> k \<and> has_space x"
  shows "lstream_ok (ms @ [m]) k' (loffered m x)"
proof (cases "has_space x")
  case True
  have "subseq (concat (lframes x) @ unsent x @ [m]) (ms @ [m])" if "subseq (concat (lframes x) @ unsent x) ms"
    using list_emb_append_mono [OF that, of "[m]" "[m]"] by simp
  moreover have "unsent (loffered m x) = unsent x @ [m]" using True by (simp add: unsent_def loffered_def)
  moreover have "lframes (loffered m x) = lframes x" "lwriting (loffered m x) = lwriting x" by (simp_all add: loffered_def)
  ultimately show ?thesis using assms True pump_ok_offered [of x m]
    by (auto simp: lstream_ok_def loffered_def [of m x] has_space_def subseq_snoc)
next
  case False
  then show ?thesis using assms lstream_ok_gone [OF assms(1), of k'] by (auto simp: loffered_def)
qed

lemma lb_broadcast_effect:
  assumes "lhub_inv h" "distinct cs" "set cs \<subseteq> lclients h"
  shows "\<exists>h'. lb_broadcast cs m h = Some h' \<and> lclients h' = lclients h \<and>
     lchans h' = (\<lambda>c. if c \<in> set cs then map_option (loffered m) (lchans h c) else lchans h c) \<and>
     set (lunreg h') = set (lunreg h) \<union> {c \<in> set cs. \<exists>x. lchans h c = Some x \<and> \<not> has_space x}"
  using assms
proof (induction cs arbitrary: h)
  case (Cons c cs)
  obtain x where x: "lchans h c = Some x" "\<not> lclosed x" using Cons.prems by (auto simp: lhub_inv_def)
  define h1 where "h1 = (if has_space x then set_client c (loffered m x) h else h\<lparr>lunreg := lunreg h @ [c]\<rparr>)"
  have o: "lb_offer c m h = Some h1" using x by (simp add: lb_offer_def h1_def loffered_def has_space_def)
  have h1: "lclients h1 = lclients h" "lchans h1 = (lchans h)(c \<mapsto> loffered m x)"
    "set (lunreg h1) = set (lunreg h) \<union> (if has_space x then {} else {c})"
    using x by (auto simp: h1_def set_client_def loffered_def fun_upd_idem)
  have "lhub_inv h1" using Cons.prems(1) x by (auto simp: lhub_inv_def h1)
  from Cons.IH [OF this] obtain h' where h': "lb_broadcast cs m h1 = Some h'" "lclients h' = lclients h"
     "lchans h' = (\<lambda>d. if d \<in> set cs then map_option (loffered m) (lchans h1 d) else lchans h1 d)"
     "set (lunreg h') = set (lunreg h1) \<union> {d \<in> set cs. \<exists>x. lchans h1 d = Some x \<and> \<not> has_space x}"
    using Cons.prems h1(1) by auto
  have c: "c \<notin> set cs" using Cons.prems(2) by simp
  have "lchans h' = (\<lambda>d. if d \<in> set (c # cs) then map_option (loffered m) (lchans h d) else lchans h d)"
    using c x unfolding h'(3) h1(2) by (auto simp: fun_eq_iff)
  moreover have "set (lunreg h') = set (lunreg h) \<union> {d \<in> set (c # cs). \<exists>x. lchans h d = Some x \<and> \<not> has_space x}"
    using c x unfolding h'(4) h1(2,3) by auto
  ultimately show ?case using o h'(1,2) by simp
qed simp

lemma lb_streams_bcast:
  assumes s: "lhub_streams h log j" and b: "distinct cs" "set cs = lclients h" "lb_broadcast cs m h = Some h'"
  shows "lhub_streams h' (log @ [m]) j"
proof -
  have i: "lhub_inv h" using s by (rule lhub_streamsD)
  from lb_broadcast_effect [OF i b(1), of m] b(2,3) have e: "lclients h' = lclients h"
     "lchans h' = (\<lambda>c. if c \<in> lclients h then map_option (loffered m) (lchans h c) else lchans h c)"
     "set (lunreg h') = set (lunreg h) \<union> {c \<in> lclients h. \<exists>x. lchans h c = Some x \<and> \<not> has_space x}" by auto
  have "j c \<le> length (log @ [m]) \<and> lstream_ok (drop (j c) (log @ [m])) (c \<notin> set (lunreg h')) y" if y: "lchans h' c = Some y" for c y
  proof -
    obtain x where x: "lchans h c = Some x" "y = (if c \<in> lclients h then loffered m x else x)"
      using y by (auto simp: e(2) split: if_splits)
    have st: "j c \<le> length log" "lstream_ok (drop (j c) log) (c \<notin> set (lunreg h)) x" using lhub_streamsD(2,3) [OF s x(1)] .
    have "c \<in> lclients h \<longleftrightarrow> \<not> lclosed x" using i x(1) by (auto simp: lhub_inv_def)
    then have "lstream_ok (drop (j c) log @ [m]) (c \<notin> set (lunreg h')) y"
      using x lstream_ok_offered [OF st(2), of "c \<notin> set (lunreg h')" m] lstream_ok_gone [OF st(2)] e(3) by auto
    then show ?thesis using st(1) by simp
  qed
  moreover have "lhub_inv h'" using i by (auto simp: lhub_inv_def e)
  ultimately show ?thesis by (simp add: lhub_streams_def)
qed

text \<open>A step that replaces one client and leaves the others, its channel open or closed as before.\<close>

lemma lb_streams_set:
  assumes "lhub_streams h log j" "lchans h c = Some x" "lclosed y = lclosed x"
    "lstream_ok (drop (j c) log) (c \<notin> set u) y" "set (lunreg h) \<subseteq> set u"
  shows "lhub_streams (set_client c y (h\<lparr>lunreg := u\<rparr>)) log j"
proof -
  have "lhub_inv (set_client c y (h\<lparr>lunreg := u\<rparr>))" using lhub_streamsD(1) [OF assms(1)] assms(2,3)
    by (auto simp: lhub_inv_def set_client_def)
  moreover have "lstream_ok (drop (j d) log) (d \<notin> set u) z" if "lchans h d = Some z" for d z
    by (rule lstream_ok_weak [OF lhub_streamsD(3) [OF assms(1) that]]) (use assms(5) in auto)
  ultimately show ?thesis using assms(2,4) lhub_streamsD(2) [OF assms(1)]
    by (auto simp: lhub_streams_def set_client_def)
qed

lemma lb_streams_unreg:
  assumes s: "lhub_streams h log j" and u: "lb_unregister c (h\<lparr>lunreg := remove1 c (lunreg h)\<rparr>) = Some h'"
  shows "lhub_streams h' log j"
proof -
  have i: "lhub_inv h" using s by (rule lhub_streamsD)
  have k: "d \<notin> set (lunreg h)" if "d \<notin> set (remove1 c (lunreg h))" "d \<noteq> c" for d using that by (simp add: in_set_remove1)
  have st: "lstream_ok (drop (j d) log) (d \<notin> set (remove1 c (lunreg h))) x"
    if "lchans h d = Some x" "d \<noteq> c \<or> lclosed x" for d x
    using lhub_streamsD(3) [OF s that(1)] k [of d] that(2) by (auto simp: lstream_ok_def)
  show ?thesis
  proof (cases "c \<in> lclients h")
    case True
    then obtain x where x: "lchans h c = Some x" "\<not> lclosed x" using i by (auto simp: lhub_inv_def)
    have h': "h' = set_client c (x\<lparr>lclosed := True\<rparr>) (h\<lparr>lunreg := remove1 c (lunreg h), lclients := lclients h - {c}\<rparr>)"
      using u True x by (simp add: lb_unregister_def)
    have "lhub_inv h'" using i x by (auto simp: h' lhub_inv_def set_client_def)
    moreover have "lstream_ok (drop (j c) log) k (x\<lparr>lclosed := True\<rparr>)" for k
      using lhub_streamsD(3) [OF s x(1)] by (auto simp: lstream_ok_def)
    ultimately show ?thesis using st x lhub_streamsD(2,3) [OF s] by (auto simp: lhub_streams_def h' set_client_def)
  next
    case False
    then have "h' = h\<lparr>lunreg := remove1 c (lunreg h)\<rparr>" using u by (simp add: lb_unregister_def)
    moreover have "lclosed x" if "lchans h c = Some x" for x using i False that by (auto simp: lhub_inv_def)
    ultimately show ?thesis using st i lhub_streamsD(2) [OF s] by (auto simp: lhub_streams_def lhub_inv_def)
  qed
qed

lemma lb_streams_client:
  assumes "lhub_streams h log j" "lchans h c = Some x" "lclosed y = lclosed x" "lstream_ok (drop (j c) log) (c \<notin> set (lunreg h)) y"
  shows "lhub_streams (set_client c y h) log j"
  using lb_streams_set [OF assms(1-3), of "lunreg h"] assms(4) by simp

text \<open>The effect of a step of the pump on its client.\<close>

definition pumped :: "write_result \<Rightarrow> 'm lclient \<Rightarrow> 'm lclient" where
  "pumped r x = (case lpump x of
       PumpSelect \<Rightarrow> (case lsend x of
           [] \<Rightarrow> if lclosed x then x\<lparr>lwriting := False\<rparr> else x
         | m # ms \<Rightarrow> if r = NextWriterFails then x\<lparr>lsend := ms, lwriting := False\<rparr> else x\<lparr>lsend := ms, lpump := PumpFrame [m]\<rparr>)
     | PumpFrame fr \<Rightarrow> x\<lparr>lpump := PumpCopy fr (length (lsend x))\<rparr>
     | PumpCopy fr (Suc n) \<Rightarrow> (case lsend x of [] \<Rightarrow> x | m # ms \<Rightarrow> x\<lparr>lsend := ms, lpump := PumpCopy (fr @ [m]) n\<rparr>)
     | PumpCopy fr 0 \<Rightarrow> if r = CloseFails then x\<lparr>lwriting := False, lpump := PumpSelect\<rparr> else x\<lparr>lframes := lframes x @ [fr], lpump := PumpSelect\<rparr>)"

lemma set_client_same: "lchans h c = Some x \<Longrightarrow> set_client c x h = h"
  by (simp add: set_client_def fun_upd_idem)

lemma lb_WritePump_pumped: "lchans h c = Some x \<Longrightarrow> lb_WritePump r c h = Some (set_client c (pumped r x) h)"
  by (simp add: lb_WritePump_def pumped_def set_client_same split: pump.split list.split nat.split)

lemma lstream_ok_pumped:
  assumes "lstream_ok ms k x" "lwriting x"
  shows "lstream_ok ms k (pumped r x)"
proof (cases "lpump x")
  case PumpSelect
  show ?thesis
  proof (cases "lsend x")
    case Nil
    then show ?thesis using assms PumpSelect by (auto simp: lstream_ok_def pumped_def unsent_def pump_ok_def)
  next
    case (Cons m ms)
    then show ?thesis using assms PumpSelect by (auto simp: lstream_ok_def pumped_def unsent_def pump_ok_def)
  qed
next
  case (PumpFrame fr)
  then show ?thesis using assms by (auto simp: lstream_ok_def pumped_def unsent_def pump_ok_def)
next
  case (PumpCopy fr n)
  show ?thesis
  proof (cases n)
    case 0
    have "subseq (concat (lframes x) @ fr) ms"
      using assms PumpCopy subseq_prefix [of "concat (lframes x) @ fr" "lsend x" ms] by (simp add: lstream_ok_def unsent_def)
    then show ?thesis using assms PumpCopy 0 by (auto simp: lstream_ok_def pumped_def unsent_def pump_ok_def)
  next
    case (Suc k)
    then show ?thesis using assms PumpCopy by (cases "lsend x") (auto simp: lstream_ok_def pumped_def unsent_def pump_ok_def)
  qed
qed

lemma lb_streams_write:
  assumes s: "lhub_streams h log j" and x: "lchans h c = Some x" "lwriting x" and w: "lb_WritePump r c h = Some h'"
  shows "lhub_streams h' log j"
proof -
  have "lclosed (pumped r x) = lclosed x" by (simp add: pumped_def split: pump.split list.split nat.split)
  from lb_streams_client [OF s x(1) this lstream_ok_pumped [OF lhub_streamsD(3) [OF s x(1)] x(2)]]
  show ?thesis using w lb_WritePump_pumped [OF x(1), of r] by simp
qed

lemma lb_run_streams: "lb_run h log j \<Longrightarrow> lhub_streams h log j"
proof (induction rule: lb_run.induct)
  case init
  show ?case by (simp add: lhub_streams_def lhub_inv_def lb_NewHub_def)
next
  case (serve h log j c)
  have "lstream_ok [] k \<lparr>lsend = [], lclosed = False, lframes = [], lreading = True, lwriting = True, lpump = PumpSelect\<rparr>" for k
    by (simp add: lstream_ok_def unsent_def pump_ok_def)
  then show ?case using serve by (auto simp: lhub_streams_def lhub_inv_def lb_ServeWs_def set_client_def)
next
  case (bcast h log j cs m h')
  then show ?case by (blast intro: lb_streams_bcast)
next
  case (unreg h log j c h')
  then show ?case by (blast intro: lb_streams_unreg)
next
  case (hangup h log j c x h')
  have "lhub_streams (set_client c (x\<lparr>lreading := False\<rparr>) (h\<lparr>lunreg := lunreg h @ [c]\<rparr>)) log j"
    by (rule lb_streams_set [OF hangup.IH hangup.hyps(2)])
      (use lhub_streamsD(3) [OF hangup.IH hangup.hyps(2)] in \<open>auto simp: lstream_ok_def\<close>)
  then show ?case using hangup.hyps by (simp add: lb_ReadPump_exit_def)
next
  case (flush h log j c x r h')
  then show ?case by (blast intro: lb_streams_write)
next
  case (ping h log j c x h')
  have "lhub_streams (set_client c (x\<lparr>lwriting := False\<rparr>) h) log j"
    by (rule lb_streams_client [OF ping.IH ping.hyps(2)])
      (use lhub_streamsD(3) [OF ping.IH ping.hyps(2)] ping.hyps(4) in \<open>simp_all add: lstream_ok_def unsent_def pump_ok_def\<close>)
  then show ?case using ping.hyps by (simp add: lb_ping_fails_def)
qed

text \<open>An undisturbed pump sends everything that is queued in one frame.\<close>

lemma lb_run_pumped:
  "lb_run h log j \<Longrightarrow> lchans h c = Some x \<Longrightarrow> lwriting x \<Longrightarrow> lb_run (set_client c (pumped r x) h) log j"
  using lb_run.flush lb_WritePump_pumped by metis

lemma set_client_set_client [simp]: "set_client c y (set_client c x h) = set_client c y h" "lchans (set_client c x h) c = Some x"
  by (simp_all add: set_client_def)

lemma lb_run_copy:
  assumes "lb_run (set_client c x h) log j" "lwriting x" "lpump x = PumpCopy fr (length (lsend x))"
  shows "lb_run (set_client c (x\<lparr>lsend := [], lframes := lframes x @ [fr @ lsend x], lpump := PumpSelect\<rparr>) h) log j"
  using assms
proof (induction "lsend x" arbitrary: x fr)
  case Nil
  then have "pumped Written x = x\<lparr>lsend := [], lframes := lframes x @ [fr @ lsend x], lpump := PumpSelect\<rparr>"
    by (cases x) (simp add: pumped_def)
  then show ?case using lb_run_pumped [OF Nil(2), of c x Written] Nil(3) by simp
next
  case (Cons m ms)
  let ?y = "x\<lparr>lsend := ms, lpump := PumpCopy (fr @ [m]) (length ms)\<rparr>"
  have "pumped Written x = ?y" using Cons.prems(3) by (simp add: pumped_def flip: Cons.hyps(2))
  then have "lb_run (set_client c ?y h) log j" using lb_run_pumped [OF Cons.prems(1), of c x Written] Cons.prems(2) by simp
  from Cons.hyps(1) [OF _ this] show ?case using Cons.prems(2) by (simp flip: Cons.hyps(2))
qed

lemma lb_run_frame:
  assumes "lb_run h log j" "lchans h c = Some x" "lwriting x" "lpump x = PumpSelect" "lsend x \<noteq> []"
  shows "lb_run (set_client c (x\<lparr>lsend := [], lframes := lframes x @ [lsend x]\<rparr>) h) log j"
proof -
  obtain m ms where x: "lsend x = m # ms" using assms(5) by (cases "lsend x") auto
  let ?y = "x\<lparr>lsend := ms, lpump := PumpFrame [m]\<rparr>"
  have 1: "lb_run (set_client c ?y h) log j"
    using lb_run_pumped [OF assms(1-3), of Written] x assms(4) by (simp add: pumped_def)
  have 2: "lb_run (set_client c (?y\<lparr>lpump := PumpCopy [m] (length ms)\<rparr>) h) log j"
    using lb_run_pumped [OF 1, of c ?y Written] assms(3) by (simp add: pumped_def)
  have "x\<lparr>lsend := [], lframes := lframes x @ [lsend x], lpump := PumpSelect\<rparr> = x\<lparr>lsend := [], lframes := lframes x @ [lsend x]\<rparr>"
    using assms(4) by (cases x) simp
  then show ?thesis using lb_run_copy [OF 2] assms(3) x by simp
qed

section \<open>Example: a client that does not read\<close>

definition full_client :: "nat \<Rightarrow> nat lclient" where
  "full_client n = \<lparr>lsend = replicate n 7, lclosed = False, lframes = [], lreading = True, lwriting = True, lpump = PumpSelect\<rparr>"

definition full_hub :: "nat \<Rightarrow> nat lhub" where
  "full_hub n = \<lparr>lclients = {0}, lchans = [0 \<mapsto> full_client n], lunreg = []\<rparr>"

lemma full_hub_run: "n \<le> lsend_cap \<Longrightarrow> lb_run (full_hub n) (replicate n 7) (\<lambda>_. 0)"
proof (induction n)
  case 0
  have "lb_run (lb_ServeWs 0 (lb_NewHub :: nat lhub)) [] ((\<lambda>_. 0)(0 := length ([] :: nat list)))"
    by (intro lb_run.serve lb_run.init) (simp add: lb_NewHub_def)
  moreover have "lb_ServeWs 0 lb_NewHub = full_hub 0" by (simp add: lb_ServeWs_def lb_NewHub_def full_hub_def full_client_def set_client_def)
  ultimately show ?case by (simp add: fun_upd_idem)
next
  case (Suc n)
  have "lb_broadcast [0] 7 (full_hub n) = Some (full_hub (Suc n))"
    using Suc.prems by (simp add: lb_offer_def full_hub_def full_client_def set_client_def replicate_append_same)
  then have "lb_run (full_hub (Suc n)) (replicate n 7 @ [7]) (\<lambda>_. 0)"
    by (rule lb_run.bcast [rotated 3]) (use Suc in \<open>simp_all add: full_hub_def\<close>)
  then show ?case by (simp add: replicate_append_same)
qed

section \<open>Properties\<close>

text \<open>
  The leaderboard hub never panics: in every run a broadcast, in whatever order the clients
  are visited, and every pending unregistration, however many of them there are for one client,
  only send on and close open channels.
\<close>

theorem lb_no_panic:
  assumes "lb_run h log j"
  shows "(\<forall>cs m. distinct cs \<and> set cs = lclients h \<longrightarrow> lb_broadcast cs m h \<noteq> None) \<and>
     (\<forall>c. lb_unregister c (h\<lparr>lunreg := remove1 c (lunreg h)\<rparr>) \<noteq> None)"
proof -
  have i: "lhub_inv h" using lhub_streamsD(1) [OF lb_run_streams [OF assms]] .
  have "lb_broadcast cs m h \<noteq> None" if "distinct cs" "set cs = lclients h" for cs m
    using lb_broadcast_effect [OF i that(1)] that(2) by fastforce
  moreover have "lb_unregister c (h\<lparr>lunreg := remove1 c (lunreg h)\<rparr>) \<noteq> None" for c
    using i by (auto simp: lb_unregister_def lhub_inv_def)
  ultimately show ?thesis by blast
qed

theorem lb_no_panic_witness:
  "lb_broadcast [0] 8 (full_hub 2) \<noteq> None \<and> lb_unregister 0 ((full_hub 2)\<lparr>lunreg := remove1 0 (lunreg (full_hub 2))\<rparr>) \<noteq> None"
proof -
  have "lb_run (full_hub 2) (replicate 2 7) (\<lambda>_. 0)" by (rule full_hub_run) (simp add: lsend_cap_def)
  moreover have "distinct [0 :: nat] \<and> set [0] = lclients (full_hub 2)" by (simp add: full_hub_def)
  ultimately show ?thesis using lb_no_panic by blast
qed

text \<open>
  C30. What a dashboard sees: the messages in the frames written to a client are, in order, among
  those broadcast since it registered, each at most once, and no frame is empty or holds more than
  257 messages; and a client for which no unregistration is pending misses nothing: its frames, the
  one under way and its buffer together are exactly the messages broadcast since it registered.
  While the pump copies, the channel holds what it waits for, so it never blocks in a frame.
\<close>

theorem lb_stream:
  assumes "lb_run h log j" "lchans h c = Some x"
  shows "subseq (concat (lframes x)) (drop (j c) log) \<and> length (lsend x) \<le> 256 \<and>
     list_all (\<lambda>fr. fr \<noteq> [] \<and> length fr \<le> 257) (lframes x) \<and>
     (c \<in> lclients h \<and> c \<notin> set (lunreg h) \<and> lwriting x \<longrightarrow>
        concat (lframes x) @ in_frame (lpump x) @ lsend x = drop (j c) log) \<and>
     (\<forall>fr n. lpump x = PumpCopy fr n \<longrightarrow> n \<le> length (lsend x))"
proof -
  note s = lb_run_streams [OF assms(1)]
  have "c \<in> lclients h \<longrightarrow> \<not> lclosed x" using lhub_streamsD(1) [OF s] assms(2) by (auto simp: lhub_inv_def)
  moreover have ok: "lstream_ok (drop (j c) log) (c \<notin> set (lunreg h)) x" using lhub_streamsD(3) [OF s assms(2)] .
  moreover have "list_all (\<lambda>fr. fr \<noteq> [] \<and> length fr \<le> 257) (lframes x)" "lpump x = PumpCopy fr n \<Longrightarrow> n \<le> length (lsend x)" for fr n
    using ok by (auto simp: lstream_ok_def pump_ok_def lsend_cap_def list_all_iff)
  ultimately show ?thesis by (simp add: lstream_ok_def lsend_cap_def unsent_def)
qed

theorem lb_stream_witness: "concat (lframes (full_client 3)) @ lsend (full_client 3) = [7, 7, 7]"
proof -
  have "lb_run (full_hub 3) (replicate 3 7) (\<lambda>_. 0)" by (rule full_hub_run) (simp add: lsend_cap_def)
  from lb_stream [OF this, of 0 "full_client 3"] show ?thesis by (simp add: full_hub_def full_client_def numeral_3_eq_3)
qed

text \<open>
  The stream of a slow client can have a gap: when the buffer of a registered client is full,
  a message \<open>m1\<close> is skipped for it, but the client stays registered until the goroutine that
  unregisters it is served; if its pump empties the buffer before, the next message \<open>m2\<close> is
  delivered, so the client sees a stream without \<open>m1\<close>, and the connection still stands.
\<close>

theorem lb_gap:
  assumes "lb_run h log j" "lclients h = {c}" "c \<notin> set (lunreg h)" "lchans h c = Some x" "lwriting x" "length (lsend x) = 256"
    and "lpump x = PumpSelect"
  shows "\<exists>h' y. lb_run h' (log @ [m1, m2]) j \<and> lchans h' c = Some y \<and> c \<in> lclients h' \<and> lwriting y \<and> \<not> lclosed y \<and>
     concat (lframes y) @ unsent y = drop (j c) log @ [m2]"
proof -
  note s = lb_run_streams [OF assms(1)]
  have "c \<in> lclients h \<longleftrightarrow> (\<exists>x. lchans h c = Some x \<and> \<not> lclosed x)" using lhub_streamsD(1) [OF s] unfolding lhub_inv_def by blast
  then have o: "\<not> lclosed x" using assms(2,4) by simp
  have e: "concat (lframes x) @ lsend x = drop (j c) log"
    using lhub_streamsD(3) [OF s assms(4)] assms(3,5,7) o by (simp add: lstream_ok_def unsent_def)
  define h1 where "h1 = h\<lparr>lunreg := lunreg h @ [c]\<rparr>"
  define y1 where "y1 = x\<lparr>lsend := [], lframes := lframes x @ [lsend x]\<rparr>"
  define y2 where "y2 = y1\<lparr>lsend := [m2]\<rparr>"
  have "lb_broadcast [c] m1 h = Some h1" using assms(4,6) o by (simp add: lb_offer_def h1_def lsend_cap_def)
  then have 1: "lb_run h1 (log @ [m1]) j" using lb_run.bcast [OF assms(1), of "[c]" m1 h1] assms(2) by simp
  have 2: "lb_run (set_client c y1 h1) (log @ [m1]) j"
    unfolding y1_def by (rule lb_run_frame [OF 1]) (use assms(4-7) in \<open>auto simp: h1_def\<close>)
  have "lb_broadcast [c] m2 (set_client c y1 h1) = Some (set_client c y2 h1)"
    using o by (simp add: lb_offer_def set_client_def y1_def y2_def lsend_cap_def)
  then have "lb_run (set_client c y2 h1) ((log @ [m1]) @ [m2]) j"
    using lb_run.bcast [OF 2, of "[c]" m2] assms(2) by (simp add: set_client_def h1_def)
  then show ?thesis using o e assms(2,5,7)
    by (intro exI [of _ "set_client c y2 h1"] exI [of _ y2]) (simp add: set_client_def h1_def y1_def y2_def unsent_def)
qed

theorem lb_gap_witness:
  "\<exists>h' y. lb_run h' (replicate 256 7 @ [8, 9 :: nat]) (\<lambda>_. 0) \<and> lchans h' 0 = Some y \<and> concat (lframes y) @ unsent y = replicate 256 7 @ [9]"
proof -
  have "lb_run (full_hub 256) (replicate 256 7) (\<lambda>_. 0)" by (rule full_hub_run) (simp add: lsend_cap_def)
  from lb_gap [OF this, of 0 "full_client 256" 8 9] show ?thesis by (auto simp: full_hub_def full_client_def)
qed

end
