(* ===== verification/Leaderboard_Service.thy ===== *)
theory Leaderboard_Service
  imports Telemetry_Queue Leaderboard_Hub
begin

text \<open>
  The leaderboard service as a whole (\<open>cmd/leaderboard-service/main.go\<close>): the telemetry consumer
  and the debug endpoint update Redis, Redis publishes every update, the subscription of
  \<open>Hub.Run\<close> hands the published events to the hub, and the hub sends them to the dashboards,
  which fetch the standings.  A step is one action of one goroutine.  Publication and
  subscription are at most once and in order: an event can be lost, never invented or reordered.
\<close>

section \<open>Publication\<close>

text \<open>
  \<open>pub r\<close> are the events published on \<open>leaderboard:updates\<close> so far.  Only \<open>PUBLISH\<close> adds to
  them, and it may fail, which the code ignores.
\<close>

definition pub_ok :: "'r redis \<Rightarrow> ('r \<Rightarrow> run_event list) \<Rightarrow> bool" where
  "pub_ok rd pub \<longleftrightarrow> (\<forall>k m s r. pub (fst (rZAdd rd k m s r)) = pub r) \<and> (\<forall>k fs r. pub (fst (rHSet rd k fs r)) = pub r) \<and>
     (\<forall>k d r. pub (rExpire rd k d r) = pub r) \<and>
     (\<forall>ev r. pub (rPublish rd ''leaderboard:updates'' ev r) \<in> {pub r, pub r @ [ev]})"

text \<open>An update publishes at most its own event, and only when it succeeds with a finite score.\<close>

lemma UpdateScore_pub:
  assumes "pub_ok rd pub" "UpdateScore rd sid cid tps p99 sr stamp r = (r', res)"
  shows "pub r' = pub r \<or> (res = Inr (score tps p99 sr) \<and> finite64 (score tps p99 sr) \<and> pub r' = pub r @ [(sid, cid, score tps p99 sr)])"
proof -
  let ?sc = "score tps p99 sr" and ?k = "MetadataKeyPrefix @ sid"
  obtain r1 e1 where z: "rZAdd rd GlobalLeaderboardKey sid ?sc r = (r1, e1)" by fastforce
  obtain r2 e2 where h: "rHSet rd ?k (score_meta sid cid tps p99 sr ?sc stamp) r1 = (r2, e2)" by fastforce
  have p: "pub r1 = pub r" "pub r2 = pub r1" "pub (rExpire rd k d r2) = pub r2" for k d
    using assms(1) z h unfolding pub_ok_def by (metis fst_conv)+
  show ?thesis
  proof (cases "e1 = None \<and> e2 = None \<and> finite64 ?sc")
    case True
    then have "res = Inr ?sc" "r' = rPublish rd ''leaderboard:updates'' (sid, cid, ?sc) (rExpire rd ?k (7 * 24 * 3600 * 10 ^ 9) r2)"
      using assms(2) z h by (auto simp: UpdateScore_def Let_def)
    moreover have "pub (rPublish rd ''leaderboard:updates'' ev r) \<in> {pub r, pub r @ [ev]}" for ev r
      using assms(1) unfolding pub_ok_def by blast
    ultimately show ?thesis using p True by (metis insertE singletonD)
  next
    case False
    then have "pub r' = pub r" using assms(2) z h p by (auto simp: UpdateScore_def Let_def split: option.splits if_splits)
    then show ?thesis by blast
  qed
qed

section \<open>The service\<close>

record 'r lb_service =
  svDb :: 'r
  svQueue :: "run_event list"
  svHub :: "run_event lhub"
  svLog :: "run_event list"
  svJoin :: "wref \<Rightarrow> nat"
  svEvents :: "telemetry_event list"
  svLost :: bool

text \<open>
  \<open>svQueue\<close> holds the published events that the subscription has not yet handed to the hub,
  \<open>svLog\<close> those the hub has broadcast, \<open>svJoin\<close> how many there were when a client registered;
  \<open>svEvents\<close> are the runs processed so far, and \<open>svLost\<close> says that an event was lost on its way.
\<close>

definition lb_start :: "'r \<Rightarrow> 'r lb_service" where
  "lb_start r = \<lparr>svDb = r, svQueue = [], svHub = lb_NewHub, svLog = [], svJoin = (\<lambda>_. 0), svEvents = [], svLost = False\<rparr>"

text \<open>A run arrives over the queue or over the debug endpoint; what it publishes is queued.\<close>

definition sv_update :: "('r \<Rightarrow> run_event list) \<Rightarrow> 'r \<Rightarrow> telemetry_event \<Rightarrow> 'r lb_service \<Rightarrow> 'r lb_service" where
  "sv_update pub r e s = s\<lparr>svDb := r, svQueue := svQueue s @ drop (length (pub (svDb s))) (pub r), svEvents := svEvents s @ [e]\<rparr>"

inductive service_run :: "'r redis \<Rightarrow> ('r \<Rightarrow> run_event list) \<Rightarrow> 'r \<Rightarrow> 'r lb_service \<Rightarrow> bool" for rd pub r0 where
  init: "service_run rd pub r0 (lb_start r0)"
| consume: "service_run rd pub r0 s \<Longrightarrow> event_wf e \<Longrightarrow> on_telemetry rd stamp e (svDb s) = (r, err) \<Longrightarrow> service_run rd pub r0 (sv_update pub r e s)"
| debug: "service_run rd pub r0 s \<Longrightarrow> event_wf e \<Longrightarrow> serve_debug_run rd stamp (Inr e) (svDb s) = (r, reply) \<Longrightarrow>
    service_run rd pub r0 (sv_update pub r e s)"
| lose: "service_run rd pub r0 s \<Longrightarrow> svQueue s = ev # q \<Longrightarrow> service_run rd pub r0 (s\<lparr>svQueue := q, svLost := True\<rparr>)"
| forward: "service_run rd pub r0 s \<Longrightarrow> svQueue s = ev # q \<Longrightarrow> distinct cs \<Longrightarrow> set cs = lclients (svHub s) \<Longrightarrow>
    lb_broadcast cs ev (svHub s) = Some h \<Longrightarrow> service_run rd pub r0 (s\<lparr>svQueue := q, svHub := h, svLog := svLog s @ [ev]\<rparr>)"
| serve: "service_run rd pub r0 s \<Longrightarrow> lchans (svHub s) c = None \<Longrightarrow>
    service_run rd pub r0 (s\<lparr>svHub := lb_ServeWs c (svHub s), svJoin := (svJoin s)(c := length (svLog s))\<rparr>)"
| unreg: "service_run rd pub r0 s \<Longrightarrow> c \<in> set (lunreg (svHub s)) \<Longrightarrow>
    lb_unregister c ((svHub s)\<lparr>lunreg := remove1 c (lunreg (svHub s))\<rparr>) = Some h \<Longrightarrow> service_run rd pub r0 (s\<lparr>svHub := h\<rparr>)"
| hangup: "service_run rd pub r0 s \<Longrightarrow> lchans (svHub s) c = Some x \<Longrightarrow> lreading x \<Longrightarrow> lb_ReadPump_exit c (svHub s) = Some h \<Longrightarrow>
    service_run rd pub r0 (s\<lparr>svHub := h\<rparr>)"
| flush: "service_run rd pub r0 s \<Longrightarrow> lchans (svHub s) c = Some x \<Longrightarrow> lwriting x \<Longrightarrow> lb_WritePump w c (svHub s) = Some h \<Longrightarrow>
    service_run rd pub r0 (s\<lparr>svHub := h\<rparr>)"
| ping: "service_run rd pub r0 s \<Longrightarrow> lchans (svHub s) c = Some x \<Longrightarrow> lwriting x \<Longrightarrow> lpump x = PumpSelect \<Longrightarrow> lb_ping_fails c (svHub s) = Some h \<Longrightarrow>
    service_run rd pub r0 (s\<lparr>svHub := h\<rparr>)"

section \<open>What holds in every run\<close>

text \<open>The hub of the service is a run of the hub on its own.\<close>

lemma service_hub: "service_run rd pub r0 s \<Longrightarrow> lb_run (svHub s) (svLog s) (svJoin s)"
proof (induction rule: service_run.induct)
  case (serve s c)
  then show ?case using lb_run.serve [OF serve.IH serve.hyps(2)] by (simp del: fun_upd_apply)
qed (auto simp: lb_start_def sv_update_def intro: lb_run.intros)

lemma subseq_subset: "subseq xs ys \<Longrightarrow> set xs \<subseteq> set ys"
  by (induction rule: list_emb.induct) auto

definition pipeline_ok :: "run_event list \<Rightarrow> 'r lb_service \<Rightarrow> run_event list \<Rightarrow> bool" where
  "pipeline_ok old s new \<longleftrightarrow> (\<exists>pre. new = old @ pre \<and> subseq (svLog s @ svQueue s) pre \<and> (\<not> svLost s \<longrightarrow> svLog s @ svQueue s = pre) \<and>
     (\<forall>ev \<in> set pre. \<exists>e \<in> set (svEvents s). ev = (tSubmissionID e, tContestantID e, event_score e)))"

lemma pipeline_update:
  assumes "pipeline_ok old s (pub (svDb s))"
    and "pub r = pub (svDb s) \<or> pub r = pub (svDb s) @ [(tSubmissionID e, tContestantID e, event_score e)]"
  shows "pipeline_ok old (sv_update pub r e s) (pub (svDb (sv_update pub r e s)))"
proof -
  let ?ev = "(tSubmissionID e, tContestantID e, event_score e)"
  obtain pre where pre: "pub (svDb s) = old @ pre" "subseq (svLog s @ svQueue s) pre" "\<not> svLost s \<longrightarrow> svLog s @ svQueue s = pre"
    "\<forall>ev \<in> set pre. \<exists>e \<in> set (svEvents s). ev = (tSubmissionID e, tContestantID e, event_score e)"
    using assms(1) unfolding pipeline_ok_def by blast
  from assms(2) show ?thesis
  proof
    assume "pub r = pub (svDb s)"
    then show ?thesis using pre unfolding pipeline_ok_def sv_update_def by (intro exI [of _ pre]) auto
  next
    assume "pub r = pub (svDb s) @ [?ev]"
    moreover have "subseq ((svLog s @ svQueue s) @ [?ev]) (pre @ [?ev])"
      by (intro list_emb_append_mono [OF pre(2)] subseq_order.refl)
    ultimately show ?thesis using pre unfolding pipeline_ok_def sv_update_def by (intro exI [of _ "pre @ [?ev]"]) auto
  qed
qed

lemma event_update_pub:
  assumes "pub_ok rd pub"
  shows "on_telemetry rd stamp e r = (r', err) \<Longrightarrow> pub r' = pub r \<or> pub r' = pub r @ [(tSubmissionID e, tContestantID e, event_score e)]"
    and "serve_debug_run rd stamp (Inr e) r = (r', reply) \<Longrightarrow> pub r' = pub r \<or> pub r' = pub r @ [(tSubmissionID e, tContestantID e, event_score e)]"
  using UpdateScore_pub [OF assms, of "tSubmissionID e" "tContestantID e" "tTPS e" "tP99LatencyMS e" "tSuccessRate e" stamp r]
  by (auto simp: on_telemetry_def serve_debug_run_def event_score_def split: prod.splits sum.splits)

lemma pipeline_drop:
  assumes "pipeline_ok old s new" "svQueue s = ev # q"
  shows "pipeline_ok old (s\<lparr>svQueue := q, svLost := True\<rparr>) new"
proof -
  obtain pre where pre: "new = old @ pre" "subseq (svLog s @ ev # q) pre"
    "\<forall>ev \<in> set pre. \<exists>e \<in> set (svEvents s). ev = (tSubmissionID e, tContestantID e, event_score e)"
    using assms unfolding pipeline_ok_def by auto
  have "subseq (svLog s @ q) (svLog s @ ev # q)" by (intro list_emb_append_mono subseq_order.refl) auto
  then have "subseq (svLog s @ q) pre" using pre(2) subseq_order.trans by blast
  then show ?thesis using pre(1,3) unfolding pipeline_ok_def by auto
qed

lemma service_pipeline:
  assumes "service_run rd pub r0 s" "pub_ok rd pub"
  shows "pipeline_ok (pub r0) s (pub (svDb s))"
  using assms(1)
proof (induction rule: service_run.induct)
  case init
  then show ?case by (simp add: pipeline_ok_def lb_start_def)
next
  case (consume s e stamp r err)
  show ?case by (rule pipeline_update [OF consume.IH event_update_pub(1) [OF assms(2) consume.hyps(3)]])
next
  case (debug s e stamp r reply)
  show ?case by (rule pipeline_update [OF debug.IH event_update_pub(2) [OF assms(2) debug.hyps(3)]])
next
  case (lose s ev q)
  show ?case using pipeline_drop [OF lose.IH lose.hyps(2)] by simp
qed (auto simp: pipeline_ok_def)

text \<open>The database is that of the runs processed so far.\<close>

lemma service_updated:
  assumes "service_run rd pub r0 s" "redis_up rd" "zset r0 = Map.empty"
  shows "updated rd zset (svDb s) (latest_events (svEvents s))"
  using assms(1)
proof (induction rule: service_run.induct)
  case init
  then show ?case using assms(3) by (simp add: lb_start_def latest_events_def updated.init)
next
  case (consume s e stamp r err)
  then show ?case using on_telemetry_updated [OF assms(2) consume.hyps(2) consume.IH, of stamp]
    by (simp add: sv_update_def latest_events_def)
next
  case (debug s e stamp r reply)
  have "fst (serve_debug_run rd stamp (Inr e) (svDb s)) = fst (on_telemetry rd stamp e (svDb s))"
    by (simp add: serve_debug_run_def on_telemetry_def split: prod.splits sum.splits)
  then have "r = fst (on_telemetry rd stamp e (svDb s))" using debug.hyps(3) by simp
  then show ?case using on_telemetry_updated [OF assms(2) debug.hyps(2) debug.IH, of stamp]
    by (simp add: sv_update_def latest_events_def)
qed simp_all

section \<open>An example service\<close>

text \<open>A database that also keeps the published events.\<close>

definition with_log :: "'r redis \<Rightarrow> ('r \<times> run_event list) redis" where
  "with_log rd = \<lparr>rZAdd = (\<lambda>k m s r. ((fst (rZAdd rd k m s (fst r)), snd r), snd (rZAdd rd k m s (fst r)))),
     rHSet = (\<lambda>k fs r. ((fst (rHSet rd k fs (fst r)), snd r), snd (rHSet rd k fs (fst r)))),
     rExpire = (\<lambda>k d r. (rExpire rd k d (fst r), snd r)),
     rPublish = (\<lambda>ch ev r. (rPublish rd ch ev (fst r), snd r @ [ev])),
     rZRevRange = (\<lambda>k a b r. rZRevRange rd k a b (fst r)), rHGetAll = (\<lambda>k r. rHGetAll rd k (fst r))\<rparr>"

lemma with_log_pub: "pub_ok (with_log rd) snd"
  by (simp add: pub_ok_def with_log_def)

lemma with_log_up: "redis_up rd \<Longrightarrow> redis_up (with_log rd)"
  unfolding redis_up_def
proof (intro conjI allI impI; elim conjE)
  fix k m and r :: "'a \<times> run_event list" assume "\<forall>k m r. \<exists>err. rZAdd rd k m NaN r = (r, Some err)"
  then obtain err where "rZAdd rd k m NaN (fst r) = (fst r, Some err)" by blast
  then show "\<exists>err. rZAdd (with_log rd) k m NaN r = (r, Some err)" by (simp add: with_log_def)
qed (simp_all add: with_log_def)

lemma with_log_ok:
  assumes "redis_ok rd zset hash"
  shows "redis_ok (with_log rd) (zset \<circ> fst) (hash \<circ> fst)"
proof -
  have z: "zset_ok rd zset hash" and r: "zrange_ok rd zset hash" using assms by (simp_all add: redis_ok_def)
  have keep: "zset (rExpire rd k d r) = zset r" "hash (rExpire rd k d r) = hash r"
    "zset (rPublish rd ch ev r) = zset r" "hash (rPublish rd ch ev r) = hash r" for k d r ch ev
    using z unfolding zset_ok_def by blast+
  have "zset_ok (with_log rd) (zset \<circ> fst) (hash \<circ> fst)"
    unfolding zset_ok_def
  proof (intro conjI allI impI)
    fix m s r r' e assume "rZAdd (with_log rd) GlobalLeaderboardKey m s r = (r', e)"
    then have "rZAdd rd GlobalLeaderboardKey m s (fst r) = (fst r', e)" by (auto simp: with_log_def)
    with z show "(hash \<circ> fst) r' = (hash \<circ> fst) r" "(zset \<circ> fst) r' = ((zset \<circ> fst) r)(m \<mapsto> s) \<and> s \<noteq> NaN \<or> e \<noteq> None \<and> (zset \<circ> fst) r' = (zset \<circ> fst) r"
      unfolding zset_ok_def comp_def by blast+
  next
    fix k fs r r' e assume "rHSet (with_log rd) k fs r = (r', e)"
    then have "rHSet rd k fs (fst r) = (fst r', e)" by (auto simp: with_log_def)
    with z show "(zset \<circ> fst) r' = (zset \<circ> fst) r"
      "(hash \<circ> fst) r' = ((hash \<circ> fst) r)(k := (hash \<circ> fst) r k ++ map_of fs) \<or> e \<noteq> None \<and> (hash \<circ> fst) r' = (hash \<circ> fst) r"
      unfolding zset_ok_def comp_def by blast+
  qed (use keep in \<open>simp_all add: with_log_def\<close>)
  moreover have "zrange_ok (with_log rd) (zset \<circ> fst) (hash \<circ> fst)" using r by (simp add: zrange_ok_def with_log_def)
  ultimately show ?thesis by (simp add: redis_ok_def)
qed

section \<open>Properties\<close>


definition ex_failed_run :: telemetry_event where
  "ex_failed_run = (ex_event ''run-1'' 1000)\<lparr>tSuccessRate := f64_nat 0\<rparr>"


end
