(* ===== verification/Go_Path.thy ===== *)
theory Go_Path
  imports Platform_Prelude
begin

text \<open>
  The string and path functions of Go's standard library that the services use:
  \<open>strings.Split\<close> with a separator of one character, and \<open>filepath.Base\<close>, \<open>filepath.Ext\<close>,
  \<open>filepath.Clean\<close> and \<open>filepath.Join\<close> on Unix.
\<close>

section \<open>Splitting\<close>

fun Split :: "char \<Rightarrow> string \<Rightarrow> string list" where
  "Split c [] = [[]]"
| "Split c (x # xs) = (if x = c then [] # Split c xs
     else (case Split c xs of [] \<Rightarrow> [[x]] | y # ys \<Rightarrow> (x # y) # ys))"

lemma Split_ne [simp]: "Split c xs \<noteq> []"
  by (induction c xs rule: Split.induct) (auto split: list.splits)

lemma Split_append: "c \<notin> set xs \<Longrightarrow> Split c (xs @ c # ys) = xs # Split c ys"
  by (induction xs) auto

lemma Split_id: "c \<notin> set xs \<Longrightarrow> Split c xs = [xs]"
  by (induction xs) auto

lemma Split_hd: "hd (Split c xs) = takeWhile (\<lambda>x. x \<noteq> c) xs"
proof (induction c xs rule: Split.induct)
  case (2 c x xs)
  then show ?case using Split_ne [of c xs] by (cases "Split c xs") auto
qed simp

lemma Split_snoc: "c \<notin> set ys \<Longrightarrow> Split c (xs @ c # ys) = Split c xs @ [ys]"
proof (induction c xs rule: Split.induct)
  case (1 c)
  then show ?case by (simp add: Split_id)
next
  case (2 c x xs)
  then show ?case using Split_ne [of c xs] by (cases "Split c xs") auto
qed

section \<open>Last elements and extensions\<close>

text \<open>\<open>Base\<close>: trailing slashes are stripped, and what is left after the last slash is returned.\<close>

definition Base :: "string \<Rightarrow> string" where
  "Base path = (if path = '''' then ''.''
     else let p = rev (dropWhile (\<lambda>c. c = CHR ''/'') (rev path)) in
       if p = '''' then ''/'' else last (Split CHR ''/'' p))"

text \<open>\<open>Ext\<close>: the suffix from the last dot of the last element, or nothing.\<close>

fun ext_rev :: "string \<Rightarrow> string \<Rightarrow> string" where
  "ext_rev [] acc = ''''"
| "ext_rev (c # cs) acc = (if c = CHR ''/'' then '''' else if c = CHR ''.'' then c # acc else ext_rev cs (c # acc))"

definition Ext :: "string \<Rightarrow> string" where
  "Ext path = ext_rev (rev path) ''''"

lemma Base_last: "CHR ''/'' \<notin> set i \<Longrightarrow> i \<noteq> '''' \<Longrightarrow> Base (p @ CHR ''/'' # i) = i"
proof -
  assume i: "CHR ''/'' \<notin> set i" "i \<noteq> ''''"
  then obtain j x where j: "i = j @ [x]" by (cases i rule: rev_cases) auto
  then show ?thesis using i Split_snoc [OF i(1), of p] by (auto simp: Base_def Let_def)
qed

lemma Ext_no_slash: "CHR ''/'' \<notin> set (Ext p)"
proof -
  have "CHR ''/'' \<notin> set acc \<Longrightarrow> CHR ''/'' \<notin> set (ext_rev cs acc)" for cs acc
    by (induction cs acc rule: ext_rev.induct) auto
  then show ?thesis by (simp add: Ext_def)
qed

lemma ext_rev_suffix: "suffix (ext_rev cs acc) (rev cs @ acc)"
proof (induction cs acc rule: ext_rev.induct)
  case (2 c cs acc)
  then show ?case by (simp add: suffix_def)
qed (simp add: suffix_def)

lemma Ext_suffix: "suffix (Ext p) p"
  using ext_rev_suffix [of "rev p" "[]"] by (simp add: Ext_def)

section \<open>Cleaning and joining\<close>

text \<open>
  \<open>Clean\<close> works through the elements with the output so far as a stack: empty elements and
  \<open>.\<close> disappear, \<open>..\<close> removes the element before it, or stays in front of a relative path.
\<close>

fun clean_step :: "bool \<Rightarrow> string list \<Rightarrow> string \<Rightarrow> string list" where
  "clean_step rooted st e =
     (if e = '''' \<or> e = ''.'' then st
      else if e = ''..'' then
        (case st of
           x # st' \<Rightarrow> if x = ''..'' then e # st else st'
         | [] \<Rightarrow> if rooted then [] else [e])
      else e # st)"

definition join_slash :: "string list \<Rightarrow> string" where
  "join_slash es = (case es of [] \<Rightarrow> '''' | e # es \<Rightarrow> e @ concat (map (\<lambda>x. CHR ''/'' # x) es))"

definition rooted :: "string \<Rightarrow> bool" where
  "rooted path \<longleftrightarrow> hd_opt path = Some CHR ''/''"

definition clean_elems :: "string \<Rightarrow> string list" where
  "clean_elems path = rev (foldl (clean_step (rooted path)) [] (Split CHR ''/'' path))"

definition render :: "bool \<Rightarrow> string list \<Rightarrow> string" where
  "render root es = (let r = (if root then ''/'' else '''') @ join_slash es in if r = '''' then ''.'' else r)"

definition Clean :: "string \<Rightarrow> string" where
  "Clean path = render (rooted path) (clean_elems path)"

text \<open>\<open>Join\<close> of two elements: empty ones are ignored.\<close>

definition Join :: "string \<Rightarrow> string \<Rightarrow> string" where
  "Join a b = (if a = '''' then (if b = '''' then '''' else Clean b)
     else if b = '''' then Clean a else Clean (a @ ''/'' @ b))"

text \<open>A name that is neither empty nor special and holds no slash becomes the last element of the directory.\<close>

definition plain_name :: "string \<Rightarrow> bool" where
  "plain_name n \<longleftrightarrow> n \<noteq> '''' \<and> n \<noteq> ''.'' \<and> n \<noteq> ''..'' \<and> CHR ''/'' \<notin> set n"

lemma plain_name_append: "plain_name i \<Longrightarrow> CHR ''/'' \<notin> set e \<Longrightarrow> plain_name (i @ e)"
  by (auto simp: plain_name_def append_eq_Cons_conv)

lemma Join_plain:
  assumes "plain_name n"
  shows "Join dir n = render (rooted dir) (clean_elems dir @ [n])"
proof (cases "dir = ''''")
  case True
  have "\<not> rooted n" using assms by (cases n) (auto simp: rooted_def plain_name_def)
  then show ?thesis using True assms by (simp add: Join_def Clean_def clean_elems_def plain_name_def Split_id rooted_def)
next
  case False
  then have "rooted (dir @ CHR ''/'' # n) = rooted dir" by (cases dir) (simp_all add: rooted_def)
  moreover have "Split CHR ''/'' (dir @ CHR ''/'' # n) = Split CHR ''/'' dir @ [n]"
    using assms by (simp add: Split_snoc plain_name_def)
  ultimately show ?thesis using False assms by (simp add: Join_def Clean_def clean_elems_def plain_name_def)
qed

end
