(* ===== verification/Go_Mux.thy ===== *)
theory Go_Mux
  imports Go_Path
begin

text \<open>
  Go's \<open>http.ServeMux\<close> as the services use it: patterns of an optional method and a path, where a
  path that ends in a slash stands for the whole subtree; registration panics on patterns that
  conflict; a request goes to the most specific pattern that matches it, and is redirected or
  refused if there is none.  Host names and wildcards, which no service uses, are left out.
\<close>

section \<open>Patterns\<close>

record pat =
  pMethod :: string
  pPath :: string

definition starts_slash :: "string \<Rightarrow> bool" where "starts_slash p \<longleftrightarrow> hd_opt p = Some CHR ''/''"
definition ends_slash :: "string \<Rightarrow> bool" where "ends_slash p \<longleftrightarrow> hd_opt (rev p) = Some CHR ''/''"

text \<open>A method, if any, and a path; \<open>None\<close> for what is not such a pattern.\<close>

definition parse_pattern :: "string \<Rightarrow> pat option" where
  "parse_pattern s =
     (let m = takeWhile (\<lambda>c. c \<noteq> CHR '' '') s;
          rest = (if m = s then s else dropWhile (\<lambda>c. c = CHR '' '') (drop (length m) s))
      in if starts_slash rest \<and> CHR ''{'' \<notin> set rest
         then Some \<lparr>pMethod = (if m = s then '''' else m), pPath = rest\<rparr> else None)"

definition method_matches :: "string \<Rightarrow> string \<Rightarrow> bool" where
  "method_matches m verb \<longleftrightarrow> m = '''' \<or> verb = m \<or> m = ''GET'' \<and> verb = ''HEAD''"

definition path_matches :: "string \<Rightarrow> string \<Rightarrow> bool" where
  "path_matches p path \<longleftrightarrow> (if ends_slash p then prefix p path else path = p)"

definition pat_matches :: "string \<Rightarrow> string \<Rightarrow> pat \<Rightarrow> bool" where
  "pat_matches verb path p \<longleftrightarrow> method_matches (pMethod p) verb \<and> path_matches (pPath p) path"

section \<open>Precedence and conflicts\<close>

datatype relationship = Equivalent | MoreGeneral | MoreSpecific | Disjoint | Overlaps

definition compareMethods :: "string \<Rightarrow> string \<Rightarrow> relationship" where
  "compareMethods a b =
     (if a = b then Equivalent
      else if a = '''' then MoreGeneral
      else if b = '''' then MoreSpecific
      else if a = ''GET'' \<and> b = ''HEAD'' then MoreGeneral
      else if b = ''GET'' \<and> a = ''HEAD'' then MoreSpecific
      else Disjoint)"

definition comparePaths :: "string \<Rightarrow> string \<Rightarrow> relationship" where
  "comparePaths a b =
     (if a = b then Equivalent
      else if ends_slash a \<and> prefix a b then MoreGeneral
      else if ends_slash b \<and> prefix b a then MoreSpecific
      else Disjoint)"

definition combineRelationships :: "relationship \<Rightarrow> relationship \<Rightarrow> relationship" where
  "combineRelationships r1 r2 =
     (if r1 = Equivalent then r2
      else if r2 = Equivalent then r1
      else if r1 = Disjoint \<or> r2 = Disjoint then Disjoint
      else if r1 = r2 then r1 else Overlaps)"

definition compare_pats :: "pat \<Rightarrow> pat \<Rightarrow> relationship" where
  "compare_pats p q = combineRelationships (compareMethods (pMethod p) (pMethod q)) (comparePaths (pPath p) (pPath q))"

definition conflicts :: "pat \<Rightarrow> pat \<Rightarrow> bool" where
  "conflicts p q \<longleftrightarrow> compare_pats p q = Equivalent \<or> compare_pats p q = Overlaps"

type_synonym 'h mux = "(pat \<times> 'h) list"

text \<open>\<open>mux.HandleFunc\<close>; \<open>None\<close> is its panic.\<close>

definition HandleFunc :: "string \<Rightarrow> 'h \<Rightarrow> 'h mux \<Rightarrow> 'h mux option" where
  "HandleFunc s h mux = (case parse_pattern s of
     None \<Rightarrow> None
   | Some p \<Rightarrow> if \<exists>(q, _) \<in> set mux. conflicts p q then None else Some (mux @ [(p, h)]))"

fun HandleFuncs :: "(string \<times> 'h) list \<Rightarrow> 'h mux \<Rightarrow> 'h mux option" where
  "HandleFuncs [] mux = Some mux"
| "HandleFuncs ((s, h) # ps) mux = do { mux \<leftarrow> HandleFunc s h mux; HandleFuncs ps mux }"

section \<open>Dispatch\<close>

definition more_or_equal :: "pat \<Rightarrow> pat \<Rightarrow> bool" where
  "more_or_equal p q \<longleftrightarrow> compare_pats p q = Equivalent \<or> compare_pats p q = MoreSpecific"

definition mux_match :: "string \<Rightarrow> string \<Rightarrow> 'h mux \<Rightarrow> (pat \<times> 'h) option" where
  "mux_match verb path mux = (let ms = filter (\<lambda>x. pat_matches verb path (fst x)) mux in
     find (\<lambda>x. list_all (\<lambda>y. more_or_equal (fst x) (fst y)) ms) ms)"

datatype 'h dispatch = Serve 'h | Redirect string | MethodNotAllowed | NotFoundPage

definition cleanPath :: "string \<Rightarrow> string" where
  "cleanPath p = (if p = '''' then ''/'' else
     let p = (if starts_slash p then p else CHR ''/'' # p); np = Clean p
     in if ends_slash p \<and> np \<noteq> ''/'' then np @ ''/'' else np)"

text \<open>A match is exact unless the pattern is a subtree and the path goes on below it.\<close>

definition exactMatch :: "(pat \<times> 'h) option \<Rightarrow> string \<Rightarrow> bool" where
  "exactMatch n path = (case n of None \<Rightarrow> False | Some (p, _) \<Rightarrow> pPath p = path)"

definition mux_dispatch :: "string \<Rightarrow> string \<Rightarrow> 'h mux \<Rightarrow> 'h dispatch" where
  "mux_dispatch verb path mux =
     (let cp = (if verb = ''CONNECT'' then path else cleanPath path); n = mux_match verb cp mux in
      if \<not> exactMatch n cp \<and> \<not> ends_slash cp \<and> cp \<noteq> '''' \<and> exactMatch (mux_match verb (cp @ ''/'') mux) (cp @ ''/'')
      then Redirect (cleanPath path @ ''/'')
      else if cp \<noteq> path then Redirect cp
      else (case n of
         Some (_, h) \<Rightarrow> Serve h
       | None \<Rightarrow> if \<exists>(p, _) \<in> set mux. path_matches (pPath p) cp \<or> \<not> ends_slash cp \<and> path_matches (pPath p) (cp @ ''/'')
                 then MethodNotAllowed else NotFoundPage))"

section \<open>A conflict-free mux is unambiguous\<close>

definition method_le :: "string \<Rightarrow> string \<Rightarrow> bool" where
  "method_le a b \<longleftrightarrow> a = b \<or> b = '''' \<or> a = ''HEAD'' \<and> b = ''GET''"

definition path_le :: "string \<Rightarrow> string \<Rightarrow> bool" where
  "path_le a b \<longleftrightarrow> a = b \<or> ends_slash b \<and> prefix b a"

lemma compareMethods_le:
  "compareMethods a b \<in> {Equivalent, MoreSpecific} \<longleftrightarrow> method_le a b"
  "compareMethods a b \<in> {Equivalent, MoreGeneral} \<longleftrightarrow> method_le b a"
  by (auto simp: compareMethods_def method_le_def)

lemma comparePaths_le:
  "comparePaths a b \<in> {Equivalent, MoreSpecific} \<longleftrightarrow> path_le a b"
  "comparePaths a b \<in> {Equivalent, MoreGeneral} \<longleftrightarrow> path_le b a"
  by (auto simp: comparePaths_def path_le_def dest: prefix_order.antisym)

lemma more_or_equal_iff: "more_or_equal p q \<longleftrightarrow> method_le (pMethod p) (pMethod q) \<and> path_le (pPath p) (pPath q)"
  unfolding compareMethods_le(1) [symmetric] comparePaths_le(1) [symmetric] more_or_equal_def compare_pats_def combineRelationships_def
  by auto

lemma more_or_equal_trans: "more_or_equal p q \<Longrightarrow> more_or_equal q r \<Longrightarrow> more_or_equal p r"
  unfolding more_or_equal_iff method_le_def path_le_def by (auto dest: prefix_order.trans)

lemma path_matches_le: "path_matches a path \<Longrightarrow> path_matches b path \<Longrightarrow> path_le a b \<or> path_le b a"
  unfolding path_matches_def path_le_def by (auto split: if_splits dest: prefix_same_cases)

lemma method_matches_le: "method_matches a verb \<Longrightarrow> method_matches b verb \<Longrightarrow> method_le a b \<or> method_le b a"
  unfolding method_matches_def method_le_def by auto

lemma combine_conflict:
  "r1 \<in> {Equivalent, MoreSpecific} \<Longrightarrow> r2 \<in> {Equivalent, MoreGeneral} \<Longrightarrow>
   combineRelationships r1 r2 \<notin> {Equivalent, Overlaps} \<Longrightarrow> r1 = Equivalent \<or> r2 = Equivalent"
  "r1 \<in> {Equivalent, MoreGeneral} \<Longrightarrow> r2 \<in> {Equivalent, MoreSpecific} \<Longrightarrow>
   combineRelationships r1 r2 \<notin> {Equivalent, Overlaps} \<Longrightarrow> r1 = Equivalent \<or> r2 = Equivalent"
  by (auto simp: combineRelationships_def)

text \<open>Of two patterns that match the same request and do not conflict, one is more specific.\<close>

lemma matching_comparable:
  assumes "pat_matches verb path p" "pat_matches verb path q" "\<not> conflicts p q"
  shows "more_or_equal p q \<or> more_or_equal q p"
proof -
  let ?m = "compareMethods (pMethod p) (pMethod q)" and ?a = "comparePaths (pPath p) (pPath q)"
  have nc: "combineRelationships ?m ?a \<notin> {Equivalent, Overlaps}" using assms(3) by (simp add: conflicts_def compare_pats_def)
  have m: "?m \<in> {Equivalent, MoreSpecific} \<or> ?m \<in> {Equivalent, MoreGeneral}"
    unfolding compareMethods_le by (rule method_matches_le [of _ verb]) (use assms(1,2) in \<open>simp_all add: pat_matches_def\<close>)
  have a: "?a \<in> {Equivalent, MoreSpecific} \<or> ?a \<in> {Equivalent, MoreGeneral}"
    unfolding comparePaths_le by (rule path_matches_le [of _ path]) (use assms(1,2) in \<open>simp_all add: pat_matches_def\<close>)
  have "more_or_equal p q \<longleftrightarrow> ?m \<in> {Equivalent, MoreSpecific} \<and> ?a \<in> {Equivalent, MoreSpecific}"
    "more_or_equal q p \<longleftrightarrow> ?m \<in> {Equivalent, MoreGeneral} \<and> ?a \<in> {Equivalent, MoreGeneral}"
    unfolding more_or_equal_iff compareMethods_le comparePaths_le by (rule refl)+
  then show ?thesis using m a combine_conflict [OF _ _ nc] by blast
qed

lemma total_least:
  assumes "\<And>x y z. R x y \<Longrightarrow> R y z \<Longrightarrow> R x z"
  shows "xs \<noteq> [] \<Longrightarrow> \<forall>x \<in> set xs. \<forall>y \<in> set xs. R x y \<or> R y x \<Longrightarrow> \<exists>x \<in> set xs. \<forall>y \<in> set xs. R x y"
proof (induction xs)
  case (Cons a xs)
  show ?case
  proof (cases "xs = []")
    case False
    then obtain x where x: "x \<in> set xs" "\<forall>y \<in> set xs. R x y" using Cons by auto
    have "R a a" "R a x \<or> R x a" using Cons.prems(2) x(1) by auto
    then show ?thesis
    proof (elim disjE)
      assume "R a x"
      then have "\<forall>y \<in> set xs. R a y" using x(2) assms by blast
      then show ?thesis using \<open>R a a\<close> by simp
    next
      assume "R x a"
      then show ?thesis using x by auto
    qed
  qed (use Cons.prems(2) in auto)
qed simp

definition mux_ok :: "'h mux \<Rightarrow> bool" where
  "mux_ok mux \<longleftrightarrow> (\<forall>x \<in> set mux. \<forall>y \<in> set mux. x \<noteq> y \<longrightarrow> \<not> conflicts (fst x) (fst y))"

lemma conflicts_sym: "conflicts p q = conflicts q p"
proof -
  have "compareMethods (pMethod p) (pMethod q) = Equivalent \<longleftrightarrow> compareMethods (pMethod q) (pMethod p) = Equivalent"
    "compareMethods (pMethod p) (pMethod q) = MoreSpecific \<longleftrightarrow> compareMethods (pMethod q) (pMethod p) = MoreGeneral"
    "compareMethods (pMethod p) (pMethod q) = MoreGeneral \<longleftrightarrow> compareMethods (pMethod q) (pMethod p) = MoreSpecific"
    "compareMethods (pMethod p) (pMethod q) = Disjoint \<longleftrightarrow> compareMethods (pMethod q) (pMethod p) = Disjoint"
    "compareMethods (pMethod p) (pMethod q) \<noteq> Overlaps" "compareMethods (pMethod q) (pMethod p) \<noteq> Overlaps"
    by (auto simp: compareMethods_def)
  moreover have "comparePaths (pPath p) (pPath q) = Equivalent \<longleftrightarrow> comparePaths (pPath q) (pPath p) = Equivalent"
    "comparePaths (pPath p) (pPath q) = MoreSpecific \<longleftrightarrow> comparePaths (pPath q) (pPath p) = MoreGeneral"
    "comparePaths (pPath p) (pPath q) = MoreGeneral \<longleftrightarrow> comparePaths (pPath q) (pPath p) = MoreSpecific"
    "comparePaths (pPath p) (pPath q) = Disjoint \<longleftrightarrow> comparePaths (pPath q) (pPath p) = Disjoint"
    "comparePaths (pPath p) (pPath q) \<noteq> Overlaps" "comparePaths (pPath q) (pPath p) \<noteq> Overlaps"
    by (auto simp: comparePaths_def dest: prefix_order.antisym)
  ultimately show ?thesis unfolding conflicts_def compare_pats_def combineRelationships_def
    by (cases "compareMethods (pMethod p) (pMethod q)"; cases "comparePaths (pPath p) (pPath q)") simp_all
qed

lemma HandleFunc_ok:
  assumes "HandleFunc s h mux = Some mux'" "mux_ok mux"
  shows "mux_ok mux'"
proof -
  obtain p where p: "\<forall>y \<in> set mux. \<not> conflicts p (fst y)" "mux' = mux @ [(p, h)]"
    using assms(1) by (fastforce simp: HandleFunc_def split: option.splits if_splits)
  have "\<not> conflicts (fst x) (fst y)" if "x \<in> set mux'" "y \<in> set mux'" "x \<noteq> y" for x y
    using p assms(2) that conflicts_sym [of "fst x" p] unfolding mux_ok_def by (cases "y = (p, h)"; cases "x = (p, h)") auto
  then show ?thesis unfolding mux_ok_def by blast
qed

lemma HandleFuncs_ok: "HandleFuncs ps mux = Some mux' \<Longrightarrow> mux_ok mux \<Longrightarrow> mux_ok mux'"
  by (induction ps mux rule: HandleFuncs.induct) (auto simp: bind_eq_Some_conv intro: HandleFunc_ok)

lemma mux_match_spec:
  assumes "mux_match verb path mux = Some x"
  shows "x \<in> set mux" "pat_matches verb path (fst x)" "y \<in> set mux \<Longrightarrow> pat_matches verb path (fst y) \<Longrightarrow> more_or_equal (fst x) (fst y)"
proof -
  have "find P xs = Some x \<Longrightarrow> x \<in> set xs \<and> P x" for P and xs :: "(pat \<times> 'a) list"
    by (induction xs) (auto split: if_splits)
  from this [OF assms [unfolded mux_match_def Let_def]]
  show "x \<in> set mux" "pat_matches verb path (fst x)" "y \<in> set mux \<Longrightarrow> pat_matches verb path (fst y) \<Longrightarrow> more_or_equal (fst x) (fst y)"
    unfolding list_all_iff set_filter by blast+
qed

lemma mux_match_total:
  assumes "mux_ok mux" "x \<in> set mux" "pat_matches verb path (fst x)"
  shows "mux_match verb path mux \<noteq> None"
proof -
  let ?ms = "filter (\<lambda>x. pat_matches verb path (fst x)) mux"
  have "?ms \<noteq> []" using assms(2,3) by (auto simp: filter_empty_conv)
  moreover have "\<forall>x \<in> set ?ms. \<forall>y \<in> set ?ms. more_or_equal (fst x) (fst y) \<or> more_or_equal (fst y) (fst x)"
  proof (intro ballI)
    fix x y assume xy: "x \<in> set ?ms" "y \<in> set ?ms"
    show "more_or_equal (fst x) (fst y) \<or> more_or_equal (fst y) (fst x)"
    proof (cases "x = y")
      case False
      then show ?thesis using xy assms(1) matching_comparable [of verb path "fst x" "fst y"] by (simp add: mux_ok_def)
    qed (simp add: more_or_equal_iff method_le_def path_le_def)
  qed
  ultimately have "\<exists>x \<in> set ?ms. \<forall>y \<in> set ?ms. more_or_equal (fst x) (fst y)"
    using total_least [of "\<lambda>x y. more_or_equal (fst x) (fst y)" ?ms] more_or_equal_trans by blast
  then show ?thesis unfolding mux_match_def Let_def find_None_iff by (auto simp: list_all_iff)
qed

end
