(* ===== verification/Api_Engine.thy ===== *)
theory Api_Engine
  imports OrderBook_Props
begin

text \<open>
  The interface between the API server and the order book: a locale with the laws that the
  server relies on, and its interpretation on \<open>NewOrder\<close>, \<open>Process\<close>, \<open>Cancel\<close> and
  \<open>GetDepth\<close>.
\<close>

text \<open>
  The matching loop relies on these laws of the book only.  \<open>pending s p\<close>: the order \<open>p\<close>
  was allocated and not yet processed; \<open>room s p\<close>: resting it does not overflow a level.
\<close>

locale engine =
  fixes ok :: "'s \<Rightarrow> bool" and pending :: "'s \<Rightarrow> oref \<Rightarrow> bool" and room :: "'s \<Rightarrow> oref \<Rightarrow> bool"
    and alloc :: "string \<Rightarrow> side \<Rightarrow> order_type \<Rightarrow> u64 \<Rightarrow> u64 \<Rightarrow> int \<Rightarrow> 's \<Rightarrow> oref \<times> 's"
    and process :: "oref \<Rightarrow> 's \<Rightarrow> ('s \<times> trade list) option"
    and cancel :: "string \<Rightarrow> 's \<Rightarrow> ('s \<times> bool) option"
    and depth :: "int \<Rightarrow> 's \<Rightarrow> (price_level list \<times> price_level list) option"
  assumes alloc_law: "ok s \<Longrightarrow> alloc i sd ty pr q now s = (p, s') \<Longrightarrow>
      ok s' \<and> pending s' p \<and> \<not> pending s p \<and> (\<forall>r. pending s r \<longrightarrow> pending s' r) \<and> depth n s' = depth n s"
    and process_law: "ok s \<Longrightarrow> pending s p \<Longrightarrow> room s p \<Longrightarrow>
      \<exists>s' ts. process p s = Some (s', ts) \<and> ok s' \<and> (\<forall>r. r \<noteq> p \<longrightarrow> pending s r \<longrightarrow> pending s' r)"
    and cancel_law: "ok s \<Longrightarrow> \<exists>s' b. cancel i s = Some (s', b) \<and> ok s' \<and> (\<forall>r. pending s r \<longrightarrow> pending s' r) \<and> (\<not> b \<longrightarrow> s' = s)"
    and depth_law: "ok s \<Longrightarrow> 0 \<le> n \<Longrightarrow> \<exists>d. depth n s = Some d"
begin

lemma cancel_pending:
  "ok s \<Longrightarrow> cancel i s = Some (s', b) \<Longrightarrow> ok s' \<and> (\<forall>r. pending s r \<longrightarrow> pending s' r) \<and> (\<not> b \<longrightarrow> s' = s)"
  using cancel_law [of s i] by auto

lemma process_pending:
  "ok s \<Longrightarrow> pending s p \<Longrightarrow> room s p \<Longrightarrow> process p s = Some (s', ts) \<Longrightarrow>
   ok s' \<and> (\<forall>r. r \<noteq> p \<longrightarrow> pending s r \<longrightarrow> pending s' r)"
  using process_law [of s p] by auto

end

definition pending_order :: "orderbook \<Rightarrow> oref \<Rightarrow> bool" where
  "pending_order s p \<longleftrightarrow> (\<exists>x. new_order s p x)"

definition order_room :: "orderbook \<Rightarrow> oref \<Rightarrow> bool" where
  "order_room s p \<longleftrightarrow> (case oheap s p of None \<Rightarrow> False | Some x \<Rightarrow> has_room x s)"

lemma depth_loop_frame: "lheap s' = lheap s \<Longrightarrow> depth_loop s' n ls = depth_loop s n ls"
proof (induction s n ls rule: depth_loop.induct)
  case (3 s n l ls)
  then show ?case by (cases "lheap s l") simp_all
qed simp_all

lemma GetDepth_NewOrder: "NewOrder i sd ty pr q now s = (p, s') \<Longrightarrow> GetDepth n s' = GetDepth n (s :: orderbook)"
  using depth_loop_frame [of s' s] by (auto simp: NewOrder_def GetDepth_def)

lemma pending_not_live: "book_ok s f \<Longrightarrow> pending_order s p \<Longrightarrow> p \<notin> live f"
  using not_live by (auto simp: pending_order_def new_order_def)

interpretation book: engine "reachable False" pending_order order_room NewOrder Process Cancel GetDepth
proof
  fix s s' :: orderbook and i sd ty pr q now p n
  assume r: "reachable False s" and a: "NewOrder i sd ty pr q now s = (p, s')"
  obtain f where b: "book_ok s f" using r by (rule reachable_ok)
  note n = NewOrder_ok [OF b a]
  have "oheap s p = None" using a book_okD(5) [OF b] by (auto simp: NewOrder_def dom_def)
  moreover have "oheap s' r = oheap s r" if "r \<noteq> p" for r using a that by (auto simp: NewOrder_def)
  ultimately have "pending_order s' r" if "pending_order s r" for r
    using that by (cases "r = p") (simp_all add: pending_order_def new_order_def)
  moreover have "pending_order s' p" using n(4) unfolding pending_order_def by blast
  moreover have "\<not> pending_order s p" using \<open>oheap s p = None\<close> by (simp add: pending_order_def new_order_def)
  ultimately show "reachable False s' \<and> pending_order s' p \<and> \<not> pending_order s p \<and>
      (\<forall>r. pending_order s r \<longrightarrow> pending_order s' r) \<and> GetDepth n s' = GetDepth n s"
    using reachable.alloc [OF r a] GetDepth_NewOrder [OF a] by blast
next
  fix s :: orderbook and p
  assume r: "reachable False s" and p: "pending_order s p" and rm: "order_room s p"
  obtain f where b: "book_ok s f" using r by (rule reachable_ok)
  obtain x where x: "new_order s p x" using p by (auto simp: pending_order_def)
  have hr: "has_room x s" using rm x by (simp add: order_room_def new_order_def)
  from Process_view [OF b x hr] obtain s' ts where P: "Process p s = Some (s', ts)"
     "\<forall>q. q \<noteq> p \<longrightarrow> q \<notin> live f \<longrightarrow> oheap s' q = oheap s q"
    by (elim exE conjE) (rule that; assumption)
  have "reachable False s'" using reachable.place [OF r x hr _ P(1)] by simp
  moreover have "pending_order s' q" if "q \<noteq> p" "pending_order s q" for q
    using that P(2) pending_not_live [OF b that(2)] by (auto simp: pending_order_def new_order_def)
  ultimately show "\<exists>s' ts. Process p s = Some (s', ts) \<and> reachable False s' \<and>
      (\<forall>r. r \<noteq> p \<longrightarrow> pending_order s r \<longrightarrow> pending_order s' r)"
    using P(1) by blast
next
  fix s :: orderbook and i
  assume r: "reachable False s"
  obtain f where b: "book_ok s f" using r by (rule reachable_ok)
  show "\<exists>s' ba. Cancel i s = Some (s', ba) \<and> reachable False s' \<and>
      (\<forall>r. pending_order s r \<longrightarrow> pending_order s' r) \<and> (\<not> ba \<longrightarrow> s' = s)"
  proof (cases "orders s i")
    case None
    then have "Cancel i s = Some (s, False)" by (simp add: Cancel_def)
    with r show ?thesis by auto
  next
    case (Some p)
    from Cancel_view [OF b Some] obtain s' l where c: "Cancel i s = Some (s', True)" "book_frame (live f) {l} s s'"
      by (elim exE conjE) (rule that; assumption)
    have "pending_order s' q" if "pending_order s q" for q
      using that c(2) pending_not_live [OF b that] by (auto simp: pending_order_def new_order_def book_frame_def)
    then show ?thesis using c(1) reachable.cancel [OF r c(1)] by blast
  qed
next
  fix s :: orderbook and n :: int
  assume r: "reachable False s" and n: "0 \<le> n"
  obtain f where b: "book_ok s f" using r by (rule reachable_ok)
  from GetDepth_ok [OF b n] show "\<exists>d. GetDepth n s = Some d" by blast
qed

end
