(* ===== verification/Api_Hub.thy ===== *)
theory Api_Hub
  imports Platform_Prelude
begin

text \<open>
  The WebSocket hub of \<open>pkg/api/hub.go\<close>.  A client is an address; its \<open>send\<close> channel
  is a buffer of 256 messages with a closed flag, and a send on a closed channel or a second
  \<open>close\<close> is a panic (\<open>None\<close>).  The messages are a parameter \<open>'m\<close>: the hub never
  looks into them.
\<close>

section \<open>State\<close>

type_synonym cref = nat

record 'm client =
  send :: "'m list"
  closed :: bool
  wire :: "'m list"
  reading :: bool
  writing :: bool

text \<open>
  \<open>wire\<close> is what \<open>writePump\<close> has written to the connection; \<open>reading\<close> and
  \<open>writing\<close> say whether the two pumps of the client still run.
\<close>

record 'm hub =
  clients :: "cref set"
  broadcast :: "'m list"
  chans :: "cref \<rightharpoonup> 'm client"

definition send_cap :: nat where "send_cap = 256"
definition broadcast_cap :: nat where "broadcast_cap = 4096"

definition NewHub :: "'m hub" where
  "NewHub = \<lparr>clients = {}, broadcast = [], chans = Map.empty\<rparr>"

section \<open>Operations\<close>

definition close_send :: "cref \<Rightarrow> 'm hub \<Rightarrow> 'm hub option" where
  "close_send c h = (case chans h c of
     None \<Rightarrow> None
   | Some x \<Rightarrow> if closed x then None else Some (h\<lparr>chans := (chans h)(c \<mapsto> x\<lparr>closed := True\<rparr>)\<rparr>))"

definition hub_register :: "cref \<Rightarrow> 'm hub \<Rightarrow> 'm hub" where
  "hub_register c h = h\<lparr>clients := insert c (clients h)\<rparr>"

definition hub_unregister :: "cref \<Rightarrow> 'm hub \<Rightarrow> 'm hub option" where
  "hub_unregister c h = (if c \<in> clients h then close_send c (h\<lparr>clients := clients h - {c}\<rparr>) else Some h)"

text \<open>One iteration of the broadcast loop: the \<open>select\<close> with a \<open>default\<close>.\<close>

definition hub_offer :: "cref \<Rightarrow> 'm \<Rightarrow> 'm hub \<Rightarrow> 'm hub option" where
  "hub_offer c m h = (case chans h c of
     None \<Rightarrow> None
   | Some x \<Rightarrow>
       if closed x then None
       else if length (send x) < send_cap then Some (h\<lparr>chans := (chans h)(c \<mapsto> x\<lparr>send := send x @ [m]\<rparr>)\<rparr>)
       else do { h \<leftarrow> close_send c h; Some (h\<lparr>clients := clients h - {c}\<rparr>) })"

text \<open>\<open>for client := range h.clients\<close>: Go visits the clients in an arbitrary order \<open>cs\<close>.\<close>

fun hub_offer_all :: "cref list \<Rightarrow> 'm \<Rightarrow> 'm hub \<Rightarrow> 'm hub option" where
  "hub_offer_all [] m h = Some h"
| "hub_offer_all (c # cs) m h = do { h \<leftarrow> hub_offer c m h; hub_offer_all cs m h }"

text \<open>\<open>case message := <-h.broadcast\<close>.\<close>

definition hub_broadcast :: "cref list \<Rightarrow> 'm hub \<Rightarrow> 'm hub option" where
  "hub_broadcast cs h = (case broadcast h of
     [] \<Rightarrow> Some h
   | m # ms \<Rightarrow> hub_offer_all cs m (h\<lparr>broadcast := ms\<rparr>))"

text \<open>\<open>ServeWs\<close> after a successful upgrade: a new client, registered, with both pumps started.\<close>

definition ServeWs :: "cref \<Rightarrow> 'm hub \<Rightarrow> 'm hub" where
  "ServeWs c h = hub_register c (h\<lparr>chans := (chans h)(c \<mapsto>
     \<lparr>send = [], closed = False, wire = [], reading = True, writing = True\<rparr>)\<rparr>)"

text \<open>\<open>readPump\<close> ends on a read error: its deferred function unregisters the client.\<close>

definition readPump_exit :: "cref \<Rightarrow> 'm hub \<Rightarrow> 'm hub option" where
  "readPump_exit c h = do {
     x \<leftarrow> chans h c;
     hub_unregister c (h\<lparr>chans := (chans h)(c \<mapsto> x\<lparr>reading := False\<rparr>)\<rparr>) }"

text \<open>
  One round of \<open>writePump\<close>: the next message is written, or the write fails and the pump ends;
  on a closed and drained channel the \<open>range\<close> loop ends.
\<close>

definition writePump :: "bool \<Rightarrow> cref \<Rightarrow> 'm hub \<Rightarrow> 'm hub option" where
  "writePump write_ok c h = do {
     x \<leftarrow> chans h c;
     Some (case send x of
       [] \<Rightarrow> if closed x then h\<lparr>chans := (chans h)(c \<mapsto> x\<lparr>writing := False\<rparr>)\<rparr> else h
     | m # ms \<Rightarrow>
         if write_ok then h\<lparr>chans := (chans h)(c \<mapsto> x\<lparr>send := ms, wire := wire x @ [m]\<rparr>)\<rparr>
         else h\<lparr>chans := (chans h)(c \<mapsto> x\<lparr>send := ms, writing := False\<rparr>)\<rparr>) }"

section \<open>The hub never panics\<close>

definition hub_inv :: "'m hub \<Rightarrow> bool" where
  "hub_inv h \<longleftrightarrow> finite (clients h) \<and> (\<forall>c. c \<in> clients h \<longleftrightarrow> (\<exists>x. chans h c = Some x \<and> \<not> closed x))"

lemma hub_inv_NewHub: "hub_inv NewHub"
  by (simp add: hub_inv_def NewHub_def)

text \<open>The effect of a broadcast on each client, independent of the order of the loop.\<close>

definition offered :: "'m \<Rightarrow> 'm client \<Rightarrow> 'm client" where
  "offered m x = (if length (send x) < send_cap then x\<lparr>send := send x @ [m]\<rparr> else x\<lparr>closed := True\<rparr>)"

definition offer_set :: "cref set \<Rightarrow> 'm \<Rightarrow> 'm hub \<Rightarrow> 'm hub" where
  "offer_set S m h = h\<lparr>clients := {c \<in> clients h. c \<in> S \<longrightarrow> (\<forall>x. chans h c = Some x \<longrightarrow> length (send x) < send_cap)},
     chans := (\<lambda>c. if c \<in> S then map_option (offered m) (chans h c) else chans h c)\<rparr>"

lemma hub_offer_set:
  assumes "hub_inv h" "c \<in> clients h"
  shows "hub_offer c m h = Some (offer_set {c} m h)" 
proof -
  obtain x where x: "chans h c = Some x" "\<not> closed x" using assms by (auto simp: hub_inv_def)
  show ?thesis
  proof (cases "length (send x) < send_cap")
    case True
    then have "{d \<in> clients h. d \<in> {c} \<longrightarrow> (\<forall>x. chans h d = Some x \<longrightarrow> length (send x) < send_cap)} = clients h"
      using x by auto
    then show ?thesis using x True by (simp add: hub_offer_def offer_set_def offered_def fun_upd_def cong: if_cong)
  next
    case False
    then have "{d \<in> clients h. d \<in> {c} \<longrightarrow> (\<forall>x. chans h d = Some x \<longrightarrow> length (send x) < send_cap)} = clients h - {c}"
      using x by auto
    then show ?thesis using x False
      by (simp add: hub_offer_def offer_set_def offered_def close_send_def fun_upd_def cong: if_cong)
  qed
qed

lemma offer_set_inv: "hub_inv h \<Longrightarrow> S \<subseteq> clients h \<Longrightarrow> hub_inv (offer_set S m h)"
  unfolding hub_inv_def offer_set_def offered_def by (fastforce split: if_splits)

lemma offer_set_insert:
  "c \<notin> S \<Longrightarrow> offer_set S m (offer_set {c} m h) = offer_set (insert c S) m h"
  by (rule hub.equality) (auto simp: offer_set_def fun_eq_iff)

lemma hub_offer_all_set:
  "hub_inv h \<Longrightarrow> distinct cs \<Longrightarrow> set cs \<subseteq> clients h \<Longrightarrow> hub_offer_all cs m h = Some (offer_set (set cs) m h)"
proof (induction cs arbitrary: h)
  case Nil
  then show ?case by (simp add: offer_set_def)
next
  case (Cons c cs)
  have "hub_inv (offer_set {c} m h)" using Cons.prems by (auto intro: offer_set_inv)
  moreover have "set cs \<subseteq> clients (offer_set {c} m h)" using Cons.prems by (auto simp: offer_set_def)
  ultimately show ?case
    using Cons hub_offer_set [of h c m] by (simp add: offer_set_insert)
qed


lemma hub_broadcast_set:
  "hub_inv h \<Longrightarrow> distinct cs \<Longrightarrow> set cs = clients h \<Longrightarrow> broadcast h = m # ms \<Longrightarrow>
   hub_broadcast cs h = Some (offer_set (clients h) m (h\<lparr>broadcast := ms\<rparr>))"
  using hub_offer_all_set [of "h\<lparr>broadcast := ms\<rparr>" cs m] by (simp add: hub_broadcast_def hub_inv_def)

lemma hub_unregister_ok:
  assumes "hub_inv h"
  shows "\<exists>h'. hub_unregister c h = Some h' \<and> hub_inv h' \<and> broadcast h' = broadcast h \<and>
     chans h' = (chans h)(c := map_option (\<lambda>x. if c \<in> clients h then x\<lparr>closed := True\<rparr> else x) (chans h c))"
proof (cases "c \<in> clients h")
  case True
  then obtain x where x: "chans h c = Some x" "\<not> closed x" using assms by (auto simp: hub_inv_def)
  then have "hub_unregister c h = Some (h\<lparr>clients := clients h - {c}, chans := (chans h)(c \<mapsto> x\<lparr>closed := True\<rparr>)\<rparr>)"
    using True by (simp add: hub_unregister_def close_send_def)
  moreover have "hub_inv (h\<lparr>clients := clients h - {c}, chans := (chans h)(c \<mapsto> x\<lparr>closed := True\<rparr>)\<rparr>)"
    using assms by (auto simp: hub_inv_def)
  ultimately show ?thesis using x True by simp
next
  case False
  then show ?thesis using assms by (cases "chans h c") (auto simp: hub_unregister_def)
qed

section \<open>Runs of the hub\<close>

text \<open>
  The select loop with its clients: \<open>log\<close> are the messages the hub took from \<open>broadcast\<close> so
  far, and \<open>j c\<close> is how many of them there were when client \<open>c\<close> registered.
\<close>

inductive hub_run :: "'m hub \<Rightarrow> 'm list \<Rightarrow> (cref \<Rightarrow> nat) \<Rightarrow> bool" where
  init: "hub_run NewHub [] (\<lambda>_. 0)"
| serve: "hub_run h log j \<Longrightarrow> chans h c = None \<Longrightarrow> hub_run (ServeWs c h) log (j(c := length log))"
| publish: "hub_run h log j \<Longrightarrow> length (broadcast h) < broadcast_cap \<Longrightarrow>
    hub_run (h\<lparr>broadcast := broadcast h @ [m]\<rparr>) log j"
| bcast: "hub_run h log j \<Longrightarrow> broadcast h = m # ms \<Longrightarrow> distinct cs \<Longrightarrow> set cs = clients h \<Longrightarrow>
    hub_broadcast cs h = Some h' \<Longrightarrow> hub_run h' (log @ [m]) j"
| hangup: "hub_run h log j \<Longrightarrow> chans h c = Some x \<Longrightarrow> reading x \<Longrightarrow> readPump_exit c h = Some h' \<Longrightarrow> hub_run h' log j"
| flush: "hub_run h log j \<Longrightarrow> chans h c = Some x \<Longrightarrow> writing x \<Longrightarrow> writePump ok c h = Some h' \<Longrightarrow> hub_run h' log j"

text \<open>A step of the hub or of one of its clients, other than a publication.\<close>

inductive hub_step :: "'m hub \<Rightarrow> 'm hub \<Rightarrow> bool" where
  serve: "chans h c = None \<Longrightarrow> hub_step h (ServeWs c h)"
| bcast: "broadcast h = m # ms \<Longrightarrow> distinct cs \<Longrightarrow> set cs = clients h \<Longrightarrow> hub_broadcast cs h = Some h' \<Longrightarrow> hub_step h h'"
| hangup: "chans h c = Some x \<Longrightarrow> reading x \<Longrightarrow> readPump_exit c h = Some h' \<Longrightarrow> hub_step h h'"
| flush: "chans h c = Some x \<Longrightarrow> writing x \<Longrightarrow> writePump ok c h = Some h' \<Longrightarrow> hub_step h h'"

lemma hub_step_run: "hub_step h h' \<Longrightarrow> hub_run h log j \<Longrightarrow> \<exists>log' j'. hub_run h' log' j'"
  by (induction rule: hub_step.induct) (blast intro: hub_run.intros)+

text \<open>What a client has seen, given the messages \<open>ms\<close> broadcast since it registered.\<close>

definition stream_ok :: "'m list \<Rightarrow> 'm client \<Rightarrow> bool" where
  "stream_ok ms x \<longleftrightarrow> prefix (wire x) ms \<and> (writing x \<longrightarrow> prefix (wire x @ send x) ms) \<and>
     (writing x \<and> \<not> closed x \<longrightarrow> wire x @ send x = ms) \<and> length (send x) \<le> send_cap"

lemma stream_ok_flags [simp]:
  "stream_ok ms (x\<lparr>reading := b\<rparr>) = stream_ok ms x"
  by (simp add: stream_ok_def)

lemma stream_ok_close: "stream_ok ms x \<Longrightarrow> stream_ok ms (x\<lparr>closed := True\<rparr>)"
  by (simp add: stream_ok_def)

lemma stream_ok_more: "stream_ok ms x \<Longrightarrow> closed x \<or> \<not> writing x \<Longrightarrow> stream_ok (ms @ [m]) x"
  by (auto simp: stream_ok_def)

lemma stream_ok_offered: "stream_ok ms x \<Longrightarrow> \<not> closed x \<Longrightarrow> stream_ok (ms @ [m]) (offered m x)"
  by (auto simp: stream_ok_def offered_def)

lemma stream_ok_write:
  assumes "stream_ok ms x" "send x = m # q" "writing x"
  shows "stream_ok ms (x\<lparr>send := q, wire := wire x @ [m]\<rparr>)" "stream_ok ms (x\<lparr>send := q, writing := False\<rparr>)"
proof -
  have p: "prefix ((wire x @ [m]) @ q) ms" using assms by (simp add: stream_ok_def)
  from append_prefixD [OF p] p show "stream_ok ms (x\<lparr>send := q, wire := wire x @ [m]\<rparr>)" "stream_ok ms (x\<lparr>send := q, writing := False\<rparr>)"
    using assms by (auto simp: stream_ok_def)
qed

definition hub_streams :: "'m hub \<Rightarrow> 'm list \<Rightarrow> (cref \<Rightarrow> nat) \<Rightarrow> bool" where
  "hub_streams h log j \<longleftrightarrow> hub_inv h \<and> (\<forall>c x. chans h c = Some x \<longrightarrow> j c \<le> length log \<and> stream_ok (drop (j c) log) x)"

lemma hub_streamsI:
  assumes "hub_inv h" "\<And>c x. chans h c = Some x \<Longrightarrow> j c \<le> length log \<and> stream_ok (drop (j c) log) x"
  shows "hub_streams h log j"
  using assms by (simp add: hub_streams_def)

lemma hub_streams_hangup:
  assumes s: "hub_streams h log j" and e: "readPump_exit c h = Some h'"
  shows "hub_streams h' log j"
proof -
  obtain x where x: "chans h c = Some x" using e by (cases "chans h c") (auto simp: readPump_exit_def)
  define h1 where "h1 = h\<lparr>chans := (chans h)(c \<mapsto> x\<lparr>reading := False\<rparr>)\<rparr>"
  have "hub_inv h1" using s x by (auto simp: hub_streams_def hub_inv_def h1_def)
  from hub_unregister_ok [OF this, of c] obtain h2 where h2: "hub_unregister c h1 = Some h2" "hub_inv h2"
    "chans h2 = (chans h1)(c := map_option (\<lambda>x. if c \<in> clients h1 then x\<lparr>closed := True\<rparr> else x) (chans h1 c))" by blast
  moreover have "h' = h2" using e x h2(1) by (simp add: readPump_exit_def h1_def)
  ultimately show ?thesis
    using s x by (auto simp: hub_streams_def h1_def stream_ok_close split: if_splits)
qed

lemma hub_streams_write:
  assumes s: "hub_streams h log j" and x: "chans h c = Some x" "writing x" and e: "writePump ok c h = Some h'"
  shows "hub_streams h' log j"
proof -
  have sx: "j c \<le> length log" "stream_ok (drop (j c) log) x" using s x by (auto simp: hub_streams_def)
  have "\<exists>y. h' = h\<lparr>chans := (chans h)(c \<mapsto> y)\<rparr> \<and> closed y = closed x \<and> stream_ok (drop (j c) log) y"
  proof (cases "send x")
    case Nil
    then show ?thesis
      using e x sx by (intro exI [of _ "if closed x then x\<lparr>writing := False\<rparr> else x"])
        (auto simp: writePump_def stream_ok_def fun_upd_idem)
  next
    case (Cons m q)
    show ?thesis
      using e x Cons stream_ok_write [OF sx(2) Cons x(2)]
      by (intro exI [of _ "if ok then x\<lparr>send := q, wire := wire x @ [m]\<rparr> else x\<lparr>send := q, writing := False\<rparr>"])
        (auto simp: writePump_def)
  qed
  then obtain y where y: "h' = h\<lparr>chans := (chans h)(c \<mapsto> y)\<rparr>" "closed y = closed x" "stream_ok (drop (j c) log) y" by blast
  then have "hub_inv h'" using s x(1) by (auto simp: hub_streams_def hub_inv_def)
  then show ?thesis using s y sx by (auto simp: hub_streams_def)
qed

lemma hub_streams_bcast:
  assumes s: "hub_streams h log j" and b: "broadcast h = m # ms" "distinct cs" "set cs = clients h" "hub_broadcast cs h = Some h'"
  shows "hub_streams h' (log @ [m]) j"
proof -
  have i: "hub_inv h" using s by (simp add: hub_streams_def)
  then have h': "h' = offer_set (clients h) m (h\<lparr>broadcast := ms\<rparr>)" using hub_broadcast_set [OF i b(2,3,1)] b(4) by simp
  show ?thesis
  proof (rule hub_streamsI)
    show "hub_inv h'" unfolding h' by (rule offer_set_inv) (use i in \<open>simp_all add: hub_inv_def\<close>)
    fix c y assume y: "chans h' c = Some y"
    then obtain x where x: "chans h c = Some x" "y = (if c \<in> clients h then offered m x else x)"
      by (auto simp: h' offer_set_def split: if_splits)
    then have sx: "j c \<le> length log" "stream_ok (drop (j c) log) x" using s by (auto simp: hub_streams_def)
    moreover have "c \<in> clients h \<longleftrightarrow> \<not> closed x" using i x(1) by (auto simp: hub_inv_def)
    ultimately show "j c \<le> length (log @ [m]) \<and> stream_ok (drop (j c) (log @ [m])) y"
      using x(2) stream_ok_offered [OF sx(2)] stream_ok_more [OF sx(2)] by auto
  qed
qed

lemma hub_run_streams: "hub_run h log j \<Longrightarrow> hub_streams h log j"
proof (induction rule: hub_run.induct)
  case init
  show ?case by (simp add: hub_streams_def hub_inv_NewHub) (simp add: NewHub_def)
next
  case (serve h log j c)
  then show ?case
    by (auto simp: hub_streams_def hub_inv_def ServeWs_def hub_register_def stream_ok_def)
next
  case (publish h log j m)
  then show ?case by (simp add: hub_streams_def hub_inv_def)
next
  case (bcast h log j m ms cs h')
  then show ?case by (blast intro: hub_streams_bcast)
next
  case (hangup h log j c x h')
  then show ?case by (blast intro: hub_streams_hangup)
next
  case (flush h log j c x ok h')
  then show ?case by (blast intro: hub_streams_write)
qed


section \<open>Properties\<close>

text \<open>A hub with one client and one message published but not yet broadcast.\<close>

definition ex_hub :: "nat hub" where
  "ex_hub = (ServeWs 0 NewHub)\<lparr>broadcast := [7]\<rparr>"

lemma ex_hub_run: "hub_run ex_hub [] (\<lambda>_. 0)"
proof -
  have "hub_run (ServeWs 0 (NewHub :: nat hub)) [] ((\<lambda>_. 0)(0 := length ([] :: nat list)))"
    by (intro hub_run.serve hub_run.init) (simp add: NewHub_def)
  then have "hub_run (ServeWs 0 (NewHub :: nat hub)) [] (\<lambda>_. 0)" by (simp add: fun_upd_idem)
  from hub_run.publish [OF this, of 7] show ?thesis
    by (simp add: ex_hub_def ServeWs_def hub_register_def NewHub_def broadcast_cap_def)
qed

lemma ex_hub_clients: "clients ex_hub = {0}" "broadcast ex_hub = [7]"
  "chans ex_hub = [0 \<mapsto> \<lparr>send = [], closed = False, wire = [], reading = True, writing = True\<rparr>]"
  by (simp_all add: ex_hub_def ServeWs_def hub_register_def NewHub_def)

text \<open>
  The hub never panics: in every run a broadcast, in whatever order Go visits the clients,
  sends on open channels only and closes none twice, and the \<open>Unregister\<close> of a client that
  hangs up closes its channel at most once, even when the hub has already dropped it.
\<close>

theorem hub_no_panic:
  assumes "hub_run h log j"
  shows "(\<forall>cs. distinct cs \<and> set cs = clients h \<longrightarrow> (\<exists>h'. hub_broadcast cs h = Some h')) \<and>
     (\<forall>c. chans h c \<noteq> None \<longrightarrow> (\<exists>h'. readPump_exit c h = Some h'))"
proof -
  have i: "hub_inv h" using hub_run_streams [OF assms] by (simp add: hub_streams_def)
  have "\<exists>h'. hub_broadcast cs h = Some h'" if "distinct cs" "set cs = clients h" for cs
    using hub_broadcast_set [OF i that] by (cases "broadcast h") (auto simp: hub_broadcast_def)
  moreover have "\<exists>h'. readPump_exit c h = Some h'" if "chans h c = Some x" for c x
  proof -
    have "hub_inv (h\<lparr>chans := (chans h)(c \<mapsto> x\<lparr>reading := False\<rparr>)\<rparr>)" using i that by (auto simp: hub_inv_def)
    from hub_unregister_ok [OF this, of c] show ?thesis using that by (auto simp: readPump_exit_def)
  qed
  ultimately show ?thesis by blast
qed

theorem hub_no_panic_witness:
  "(\<exists>h'. hub_broadcast [0] ex_hub = Some h') \<and> (\<exists>h'. readPump_exit 0 ex_hub = Some h')"
  using hub_no_panic [OF ex_hub_run] by (simp add: ex_hub_clients)

text \<open>
  C22. Every client sees the broadcast stream in order and without gaps: what \<open>writePump\<close> has
  written is a prefix of the messages broadcast since the client registered, and as long as it
  is registered and its pump runs, written and buffered messages together are exactly that
  stream.  Messages are lost only together with the connection.
\<close>

theorem hub_stream:
  assumes "hub_run h log j" "chans h c = Some x"
  shows "prefix (wire x) (drop (j c) log) \<and> length (send x) \<le> send_cap \<and>
     (c \<in> clients h \<and> writing x \<longrightarrow> wire x @ send x = drop (j c) log)"
proof -
  have "stream_ok (drop (j c) log) x" "hub_inv h" using hub_run_streams [OF assms(1)] assms(2) by (auto simp: hub_streams_def)
  moreover have "c \<in> clients h \<longrightarrow> \<not> closed x" using \<open>hub_inv h\<close> assms(2) by (auto simp: hub_inv_def)
  ultimately show ?thesis by (auto simp: stream_ok_def)
qed

theorem hub_stream_witness:
  "\<exists>h' x. hub_broadcast [0] ex_hub = Some h' \<and> chans h' 0 = Some x \<and> wire x @ send x = [7]"
proof -
  obtain h' where h': "hub_broadcast [0] ex_hub = Some h'" "h' = offer_set {0} 7 (ex_hub\<lparr>broadcast := []\<rparr>)"
    using hub_broadcast_set [of ex_hub "[0]" 7 "[]"] hub_run_streams [OF ex_hub_run] by (simp add: hub_streams_def ex_hub_clients)
  have r: "hub_run h' ([] @ [7]) (\<lambda>_. 0)"
    using hub_run.bcast [OF ex_hub_run _ _ _ h'(1)] by (simp add: ex_hub_clients)
  have x: "chans h' 0 = Some \<lparr>send = [7], closed = False, wire = [], reading = True, writing = True\<rparr>" "0 \<in> clients h'"
    by (auto simp: h'(2) offer_set_def ex_hub_clients offered_def send_cap_def)
  from hub_stream [OF r x(1)] h'(1) x show ?thesis by simp
qed

text \<open>
  The order in which Go's \<open>range\<close> visits the client map does not matter: any two orders
  give the same hub.
\<close>

theorem hub_broadcast_order:
  assumes "hub_run h log j" "distinct cs" "set cs = clients h" "distinct ds" "set ds = clients h"
  shows "hub_broadcast cs h = hub_broadcast ds h"
proof (cases "broadcast h")
  case (Cons m ms)
  have "hub_inv h" using hub_run_streams [OF assms(1)] by (simp add: hub_streams_def)
  then show ?thesis using hub_broadcast_set [OF _ _ _ Cons] assms by simp
qed (simp add: hub_broadcast_def)

lemma ex_hub2_run: "hub_run (ServeWs 1 ex_hub) [] ((\<lambda>_. 0)(1 := 0))"
  using hub_run.serve [OF ex_hub_run, of 1] by (simp add: ex_hub_clients)

theorem hub_broadcast_order_witness: "hub_broadcast [0, 1] (ServeWs 1 ex_hub) = hub_broadcast [1, 0] (ServeWs 1 ex_hub)"
  by (rule hub_broadcast_order [OF ex_hub2_run]) (auto simp: ServeWs_def hub_register_def ex_hub_clients)

end
