(* ===== verification/Api_Server.thy ===== *)
theory Api_Server
  imports Api_Engine Api_Hub Go_Path
begin

text \<open>
  The API server of \<open>pkg/api/server.go\<close>: HTTP handlers that allocate orders and wait on a
  result channel, the single matching loop that owns the book, the depth cache, the counter of
  processed orders and the hub it publishes to.  A step of the server is one atomic action of
  one goroutine, so every interleaving of handlers, loop and hub is a run.
\<close>

section \<open>State\<close>

datatype request_type = PlaceRequest | CancelRequest

record order_request =
  qType :: request_type
  qOrder :: "oref option"
  qCancelID :: string
  qResult :: nat

record response =
  rSuccess :: bool
  rTrades :: "trade list"
  rError :: string

datatype ws_data = TradeData "trade list" | DepthData "price_level list \<times> price_level list"

record ws_message =
  wsType :: string
  wsData :: ws_data

record placeOrderReq =
  bID :: string
  bSide :: int
  bType :: int
  bPrice :: u64
  bQuantity :: u64

text \<open>
  A handler goroutine is known by a number, which also names its result channel (capacity one).
  It is about to send its request, waits for the response, or has written its reply.
\<close>

datatype http_reply =
    HttpError nat string
  | HttpJson nat response
  | HttpDepth "price_level list \<times> price_level list"

datatype handler = Sending order_request | Waiting request_type | Replied http_reply

text \<open>
  The matching loop is at its \<open>select\<close>, or in \<open>broadcastEvent\<close> where it may block; the flag
  says that \<open>bookChanged\<close> is reset afterwards.
\<close>

datatype loop_pc = Selecting | Broadcasting ws_message bool

record server =
  ob :: orderbook
  inputChan :: "order_request list"
  hub :: "ws_message hub"
  depthCache :: "price_level list \<times> price_level list"
  bookChanged :: bool
  loopPc :: loop_pc
  resChan :: "nat \<rightharpoonup> response"
  handlers :: "nat \<rightharpoonup> handler"
  ordersProcessed :: "string \<times> string \<Rightarrow> nat"

definition input_cap :: nat where "input_cap = 100000"

definition NewServer :: server where
  "NewServer = \<lparr>ob = NewOrderBook, inputChan = [], hub = NewHub, depthCache = ([], []), bookChanged = False,
     loopPc = Selecting, resChan = Map.empty, handlers = Map.empty, ordersProcessed = (\<lambda>_. 0)\<rparr>"

section \<open>The matching loop\<close>

definition order_label :: "order_type \<Rightarrow> string" where
  "order_label t = (if t = 1 then ''market'' else ''limit'')"

text \<open>\<open>case PlaceRequest\<close> of the loop.\<close>

definition loop_place :: "order_request \<Rightarrow> server \<Rightarrow> server option" where
  "loop_place req s = do {
     p \<leftarrow> qOrder req;
     (ob', trades) \<leftarrow> Process p (ob s);
     x \<leftarrow> oheap ob' p;
     let lab = (Side_String (oSide x), order_label (oType x));
     Some (s\<lparr>ob := ob', ordersProcessed := (ordersProcessed s)(lab := ordersProcessed s lab + 1),
        resChan := (resChan s)(qResult req \<mapsto> \<lparr>rSuccess = True, rTrades = trades, rError = ''''\<rparr>),
        bookChanged := True,
        loopPc := (if trades \<noteq> [] then Broadcasting \<lparr>wsType = ''trade'', wsData = TradeData trades\<rparr> False
                   else Selecting)\<rparr>) }"

text \<open>\<open>case CancelRequest\<close> of the loop.\<close>

definition loop_cancel :: "order_request \<Rightarrow> server \<Rightarrow> server option" where
  "loop_cancel req s = do {
     (ob', success) \<leftarrow> Cancel (qCancelID req) (ob s);
     let s = s\<lparr>ob := ob'\<rparr>;
     Some (if success then
        s\<lparr>resChan := (resChan s)(qResult req \<mapsto> \<lparr>rSuccess = True, rTrades = [], rError = ''''\<rparr>), bookChanged := True\<rparr>
      else
        s\<lparr>resChan := (resChan s)(qResult req \<mapsto> \<lparr>rSuccess = False, rTrades = [], rError = ''order not found''\<rparr>)\<rparr>) }"

definition loop_request :: "order_request \<Rightarrow> server \<Rightarrow> server option" where
  "loop_request req s = (case qType req of PlaceRequest \<Rightarrow> loop_place req s | CancelRequest \<Rightarrow> loop_cancel req s)"

text \<open>\<open>case <-ticker.C\<close> of the loop.\<close>

definition loop_tick :: "server \<Rightarrow> server option" where
  "loop_tick s = (if bookChanged s then do {
       d \<leftarrow> GetDepth 50 (ob s);
       Some (s\<lparr>depthCache := d, loopPc := Broadcasting \<lparr>wsType = ''depth'', wsData = DepthData d\<rparr> True\<rparr>) }
     else Some s)"

text \<open>\<open>s.hub.broadcast <- bytes\<close>, once there is room in the channel.\<close>

definition broadcastEvent :: "ws_message \<Rightarrow> bool \<Rightarrow> server \<Rightarrow> server" where
  "broadcastEvent m reset s = s\<lparr>hub := (hub s)\<lparr>broadcast := broadcast (hub s) @ [m]\<rparr>, loopPc := Selecting,
     bookChanged := (if reset then False else bookChanged s)\<rparr>"

section \<open>The HTTP handlers\<close>

definition set_handler :: "nat \<Rightarrow> handler \<Rightarrow> server \<Rightarrow> server" where
  "set_handler h x s = s\<lparr>handlers := (handlers s)(h \<mapsto> x)\<rparr>"

text \<open>\<open>handlePlaceOrder\<close> up to its send; \<open>None\<close> is a body that does not decode.\<close>

definition handlePlaceOrder :: "nat \<Rightarrow> placeOrderReq option \<Rightarrow> int \<Rightarrow> server \<Rightarrow> server" where
  "handlePlaceOrder h body now s = (case body of
     None \<Rightarrow> set_handler h (Replied (HttpError 400 ''invalid request body'')) s
   | Some b \<Rightarrow>
       if bID b = '''' \<or> bQuantity b = 0 then set_handler h (Replied (HttpError 400 ''missing required fields'')) s
       else (case NewOrder (bID b) (bSide b) (bType b) (bPrice b) (bQuantity b) now (ob s) of (p, ob') \<Rightarrow>
         set_handler h (Sending \<lparr>qType = PlaceRequest, qOrder = Some p, qCancelID = '''', qResult = h\<rparr>) (s\<lparr>ob := ob'\<rparr>)))"

definition handleCancelOrder :: "nat \<Rightarrow> string \<Rightarrow> server \<Rightarrow> server" where
  "handleCancelOrder h path s = (let parts = Split CHR ''/'' path in
     if length parts < 5 then set_handler h (Replied (HttpError 400 ''missing order ID'')) s
     else set_handler h (Sending \<lparr>qType = CancelRequest, qOrder = None, qCancelID = parts ! 4, qResult = h\<rparr>) s)"

definition handleGetOrderBook :: "nat \<Rightarrow> server \<Rightarrow> server" where
  "handleGetOrderBook h s = set_handler h (Replied (HttpDepth (depthCache s))) s"

text \<open>\<open>s.inputChan <- OrderRequest{...}\<close>.\<close>

definition enqueue :: "nat \<Rightarrow> order_request \<Rightarrow> server \<Rightarrow> server" where
  "enqueue h req s = set_handler h (Waiting (qType req)) (s\<lparr>inputChan := inputChan s @ [req]\<rparr>)"

text \<open>\<open>resp := <-resChan\<close> and the reply, at the end of the two handlers.\<close>

definition place_reply :: "nat \<Rightarrow> response \<Rightarrow> server \<Rightarrow> server" where
  "place_reply h resp s = set_handler h (Replied (HttpJson 200 resp)) (s\<lparr>resChan := (resChan s)(h := None)\<rparr>)"

definition cancel_reply :: "nat \<Rightarrow> response \<Rightarrow> server \<Rightarrow> server" where
  "cancel_reply h resp s = set_handler h (Replied (HttpJson (if \<not> rSuccess resp then 404 else 200) resp))
     (s\<lparr>resChan := (resChan s)(h := None)\<rparr>)"

definition write_reply :: "nat \<Rightarrow> request_type \<Rightarrow> response \<Rightarrow> server \<Rightarrow> server" where
  "write_reply h t r s = (case t of PlaceRequest \<Rightarrow> place_reply h r s | CancelRequest \<Rightarrow> cancel_reply h r s)"

lemma write_reply_eq:
  "write_reply h t r s = set_handler h (Replied (HttpJson (if t = CancelRequest \<and> \<not> rSuccess r then 404 else 200) r))
     (s\<lparr>resChan := (resChan s)(h := None)\<rparr>)"
  by (cases t) (simp_all add: write_reply_def place_reply_def cancel_reply_def)

text \<open>\<open>RegisterRoutes\<close>: which handler the mux calls for a method and a clean path.\<close>

datatype route = RPlace | RCancel | RBook | RWs

definition RegisterRoutes :: "string \<Rightarrow> string \<Rightarrow> route option" where
  "RegisterRoutes verb path =
     (if verb = ''POST'' \<and> path = ''/api/v1/orders'' then Some RPlace
      else if verb = ''DELETE'' \<and> prefix ''/api/v1/orders/'' path then Some RCancel
      else if verb \<in> {''GET'', ''HEAD''} \<and> path = ''/api/v1/orderbook'' then Some RBook
      else if verb \<in> {''GET'', ''HEAD''} \<and> path = ''/ws/market-data'' then Some RWs
      else None)"

section \<open>Steps\<close>

text \<open>
  The steps of the handlers, of the matching loop that \<open>Start\<close> spawns, and of the hub.  A request
  that makes the loop panic or spin has no step: \<open>loop_request\<close> is \<open>None\<close> there.
\<close>

inductive server_step :: "server \<Rightarrow> server \<Rightarrow> bool" where
  place: "handlers s h = None \<Longrightarrow> server_step s (handlePlaceOrder h body now s)"
| cancel: "handlers s h = None \<Longrightarrow> server_step s (handleCancelOrder h path s)"
| book: "handlers s h = None \<Longrightarrow> server_step s (handleGetOrderBook h s)"
| enqueue: "handlers s h = Some (Sending req) \<Longrightarrow> length (inputChan s) < input_cap \<Longrightarrow> server_step s (enqueue h req s)"
| reply: "handlers s h = Some (Waiting t) \<Longrightarrow> resChan s h = Some r \<Longrightarrow> server_step s (write_reply h t r s)"
| request: "loopPc s = Selecting \<Longrightarrow> inputChan s = req # reqs \<Longrightarrow> resChan s (qResult req) = None \<Longrightarrow>
    loop_request req (s\<lparr>inputChan := reqs\<rparr>) = Some s' \<Longrightarrow> server_step s s'"
| tick: "loopPc s = Selecting \<Longrightarrow> loop_tick s = Some s' \<Longrightarrow> server_step s s'"
| publish: "loopPc s = Broadcasting m reset \<Longrightarrow> length (broadcast (hub s)) < broadcast_cap \<Longrightarrow>
    server_step s (broadcastEvent m reset s)"
| hub: "hub_step (hub s) h' \<Longrightarrow> server_step s (s\<lparr>hub := h'\<rparr>)"

section \<open>Runs\<close>

text \<open>
  Runs in which no level overflows: a step that takes an order from the input channel finds room
  for it at its level.  Every other step is unrestricted.
\<close>

definition request_room :: "order_request \<Rightarrow> orderbook \<Rightarrow> bool" where
  "request_room req b \<longleftrightarrow> (qType req = PlaceRequest \<longrightarrow> (\<forall>p. qOrder req = Some p \<longrightarrow> order_room b p))"

definition step_room :: "server \<Rightarrow> server \<Rightarrow> bool" where
  "step_room s s' \<longleftrightarrow> (\<forall>req. inputChan s = req # inputChan s' \<longrightarrow> request_room req (ob s))"

inductive server_reachable :: "server \<Rightarrow> bool" where
  init: "server_reachable NewServer"
| step: "server_reachable s \<Longrightarrow> server_step s s' \<Longrightarrow> step_room s s' \<Longrightarrow> server_reachable s'"

lemma loop_request_input: "loop_request req s = Some s' \<Longrightarrow> inputChan s' = inputChan s"
  by (auto simp: loop_request_def loop_place_def loop_cancel_def Let_def split: request_type.splits option.splits prod.splits bind_splits)

lemma step_room_request:
  "inputChan s = req # reqs \<Longrightarrow> loop_request req (s\<lparr>inputChan := reqs\<rparr>) = Some s' \<Longrightarrow> step_room s s' = request_room req (ob s)"
  by (drule loop_request_input) (simp add: step_room_def)

lemma step_room_other: "length (inputChan s) \<le> length (inputChan s') \<Longrightarrow> step_room s s'"
  by (auto simp: step_room_def)

lemma handler_input [simp]:
  "inputChan (set_handler h x s) = inputChan s"
  "inputChan (handlePlaceOrder h body now s) = inputChan s"
  "inputChan (handleCancelOrder h path s) = inputChan s"
  "inputChan (handleGetOrderBook h s) = inputChan s"
  "inputChan (enqueue h req s) = inputChan s @ [req]"
  "inputChan (write_reply h t r s) = inputChan s"
  by (simp_all add: set_handler_def handlePlaceOrder_def handleCancelOrder_def handleGetOrderBook_def enqueue_def
      write_reply_eq NewOrder_def Let_def split: option.split)

lemma server_reachable_keep:
  "server_reachable s \<Longrightarrow> server_step s s' \<Longrightarrow> length (inputChan s) \<le> length (inputChan s') \<Longrightarrow> server_reachable s'"
  using server_reachable.step step_room_other by blast

end
