(* ===== verification/Submission.thy ===== *)
theory Submission
  imports Go_Path
begin

text \<open>
  The submission service of \<open>pkg/submission/handler.go\<close>.  Submissions are heap objects: the
  store maps identifiers to their addresses, and the goroutine that clones a repository mutates
  the object the store and the handlers point to.  A step of the service is one atomic action of
  a handler or of a cloning goroutine.  Identifiers come from the \<open>uuid\<close> package, whose
  documented behaviour is a premise of the steps: a new identifier is not in use and is a plain
  file name.
\<close>

section \<open>State\<close>

datatype submission_status = StatusPending | StatusCompiling | StatusSuccess | StatusFailed

record submission =
  sID :: string
  sContestantID :: string
  sStatus :: submission_status
  sImageTag :: string
  sLogs :: string
  sCreatedAt :: int

type_synonym sref = nat

datatype sub_reply = SubError nat string | SubJson nat submission

text \<open>A handler is about to encode the submission at an address, or has replied.\<close>

datatype sub_handler = Encoding nat sref | SubReplied sub_reply

text \<open>
  The goroutine of a Git submission has not begun, waits for the command it has started, or has set
  the final status and is about to set the logs.
\<close>

datatype clone_pc = CloneQueued string | Cloning "string list" | CloneLogs string

record sub_service =
  store :: "string \<rightharpoonup> sref"
  subs :: "sref \<rightharpoonup> submission"
  uploadDir :: string
  disk :: "string \<rightharpoonup> string"
  clones :: "sref \<rightharpoonup> clone_pc"
  subHandlers :: "nat \<rightharpoonup> sub_handler"

definition NewStore :: "string \<rightharpoonup> sref" where
  "NewStore = Map.empty"

definition NewHandler :: "string \<Rightarrow> sub_service" where
  "NewHandler dir = \<lparr>store = NewStore, subs = Map.empty, uploadDir = dir, disk = Map.empty,
     clones = Map.empty, subHandlers = Map.empty\<rparr>"

section \<open>Operations\<close>

definition Save :: "sref \<Rightarrow> sub_service \<Rightarrow> sub_service option" where
  "Save p s = do { x \<leftarrow> subs s p; Some (s\<lparr>store := (store s)(sID x \<mapsto> p)\<rparr>) }"

definition Get :: "string \<Rightarrow> sub_service \<Rightarrow> sref option" where
  "Get i s = store s i"

definition sub_answer :: "nat \<Rightarrow> sub_handler \<Rightarrow> sub_service \<Rightarrow> sub_service" where
  "sub_answer h r s = s\<lparr>subHandlers := (subHandlers s)(h \<mapsto> r)\<rparr>"

definition new_submission :: "string \<Rightarrow> string \<Rightarrow> int \<Rightarrow> submission" where
  "new_submission i contestantID now = \<lparr>sID = i, sContestantID = contestantID, sStatus = StatusPending,
     sImageTag = '''', sLogs = '''', sCreatedAt = now\<rparr>"

text \<open>
  \<open>handleUpload\<close>: \<open>file\<close> is the name and the contents of the form file, if there is one; \<open>p\<close>
  is the address of the new object, \<open>i\<close> its identifier, \<open>create_ok\<close> whether \<open>os.Create\<close>
  succeeds and \<open>n\<close> the number of bytes \<open>io.Copy\<close> manages to copy, which is not checked.
\<close>

definition handleUpload ::
  "nat \<Rightarrow> string \<Rightarrow> (string \<times> string) option \<Rightarrow> sref \<Rightarrow> string \<Rightarrow> int \<Rightarrow> bool \<Rightarrow> nat \<Rightarrow> sub_service \<Rightarrow> sub_service option" where
  "handleUpload h contestantID file p i now create_ok n s =
     (if contestantID = '''' then Some (sub_answer h (SubReplied (SubError 400 ''missing X-Contestant-ID header'')) s)
      else (case file of
        None \<Rightarrow> Some (sub_answer h (SubReplied (SubError 400 ''missing source file'')) s)
      | Some (filename, content) \<Rightarrow> do {
          let s = s\<lparr>subs := (subs s)(p \<mapsto> new_submission i contestantID now)\<rparr>;
          s \<leftarrow> Save p s;
          let destPath = Join (uploadDir s) (i @ Ext filename);
          Some (if \<not> create_ok then sub_answer h (SubReplied (SubError 500 ''could not save file'')) s
            else sub_answer h (Encoding 202 p) (s\<lparr>disk := (disk s)(destPath \<mapsto> take n content)\<rparr>)) }))"

text \<open>\<open>handleGitSubmission\<close>: \<open>body\<close> is the contestant and the URL, if the body decodes.\<close>

definition handleGitSubmission ::
  "nat \<Rightarrow> (string \<times> string) option \<Rightarrow> sref \<Rightarrow> string \<Rightarrow> int \<Rightarrow> sub_service \<Rightarrow> sub_service option" where
  "handleGitSubmission h body p i now s =
     (case body of
        None \<Rightarrow> Some (sub_answer h (SubReplied (SubError 400 ''invalid request body'')) s)
      | Some (contestantID, gitURL) \<Rightarrow>
          if gitURL = '''' then Some (sub_answer h (SubReplied (SubError 400 ''invalid request body'')) s)
          else do {
            let s = s\<lparr>subs := (subs s)(p \<mapsto> new_submission i contestantID now)\<rparr>;
            s \<leftarrow> Save p s;
            Some (sub_answer h (Encoding 202 p) (s\<lparr>clones := (clones s)(p \<mapsto> CloneQueued gitURL)\<rparr>)) })"

text \<open>The cloning goroutine: before, at and after the end of the command it runs.\<close>

definition git_clone :: "string \<Rightarrow> string \<Rightarrow> string list" where
  "git_clone gitURL destDir = [''git'', ''clone'', ''--depth=1'', gitURL, destDir]"

definition clone_start :: "sref \<Rightarrow> string \<Rightarrow> sub_service \<Rightarrow> sub_service option" where
  "clone_start p url s = do {
     x \<leftarrow> subs s p;
     let s = s\<lparr>subs := (subs s)(p \<mapsto> x\<lparr>sStatus := StatusCompiling\<rparr>)\<rparr>;
     s \<leftarrow> Save p s;
     Some (s\<lparr>clones := (clones s)(p \<mapsto> Cloning (git_clone url (Join (uploadDir s) (sID x))))\<rparr>) }"

definition clone_exit :: "sref \<Rightarrow> string option \<Rightarrow> string \<Rightarrow> sub_service \<Rightarrow> sub_service option" where
  "clone_exit p err out s = do {
     x \<leftarrow> subs s p;
     Some (case err of
       Some e \<Rightarrow> s\<lparr>subs := (subs s)(p \<mapsto> x\<lparr>sStatus := StatusFailed\<rparr>),
          clones := (clones s)(p \<mapsto> CloneLogs (''git clone failed: '' @ e @ [CHR 0x0A] @ out))\<rparr>
     | None \<Rightarrow> s\<lparr>subs := (subs s)(p \<mapsto> x\<lparr>sStatus := StatusSuccess\<rparr>), clones := (clones s)(p \<mapsto> CloneLogs out)\<rparr>) }"

definition clone_logs :: "sref \<Rightarrow> string \<Rightarrow> sub_service \<Rightarrow> sub_service option" where
  "clone_logs p logs s = do {
     x \<leftarrow> subs s p;
     let s = s\<lparr>subs := (subs s)(p \<mapsto> x\<lparr>sLogs := logs\<rparr>)\<rparr>;
     s \<leftarrow> Save p s;
     Some (s\<lparr>clones := (clones s)(p := None)\<rparr>) }"

definition handleGetStatus :: "nat \<Rightarrow> string \<Rightarrow> sub_service \<Rightarrow> sub_service" where
  "handleGetStatus h path s = (case Get (Base path) s of
     None \<Rightarrow> sub_answer h (SubReplied (SubError 404 ''submission not found'')) s
   | Some p \<Rightarrow> sub_answer h (Encoding 200 p) s)"

text \<open>\<open>json.NewEncoder(w).Encode(sub)\<close> reads the object as it is by then.\<close>

definition sub_encode :: "nat \<Rightarrow> nat \<Rightarrow> sref \<Rightarrow> sub_service \<Rightarrow> sub_service option" where
  "sub_encode h code p s = do { x \<leftarrow> subs s p; Some (sub_answer h (SubReplied (SubJson code x)) s) }"

datatype sub_route = SubUpload | SubStatus | SubGit

definition sub_RegisterRoutes :: "string \<Rightarrow> string \<Rightarrow> sub_route option" where
  "sub_RegisterRoutes verb path =
     (if verb = ''POST'' \<and> path = ''/api/v1/submissions'' then Some SubUpload
      else if verb \<in> {''GET'', ''HEAD''} \<and> prefix ''/api/v1/submissions/'' path then Some SubStatus
      else if verb = ''POST'' \<and> path = ''/api/v1/submissions/git'' then Some SubGit
      else None)"

section \<open>Runs\<close>

definition fresh :: "sref \<Rightarrow> string \<Rightarrow> sub_service \<Rightarrow> bool" where
  "fresh p i s \<longleftrightarrow> subs s p = None \<and> store s i = None \<and> plain_name i"

inductive sub_step :: "sub_service \<Rightarrow> sub_service \<Rightarrow> bool" where
  upload: "subHandlers s h = None \<Longrightarrow> fresh p i s \<Longrightarrow> handleUpload h cid file p i now ok n s = Some s' \<Longrightarrow> sub_step s s'"
| git: "subHandlers s h = None \<Longrightarrow> fresh p i s \<Longrightarrow> handleGitSubmission h body p i now s = Some s' \<Longrightarrow> sub_step s s'"
| status: "subHandlers s h = None \<Longrightarrow> sub_step s (handleGetStatus h path s)"
| encode: "subHandlers s h = Some (Encoding code p) \<Longrightarrow> sub_encode h code p s = Some s' \<Longrightarrow> sub_step s s'"
| start: "clones s p = Some (CloneQueued url) \<Longrightarrow> clone_start p url s = Some s' \<Longrightarrow> sub_step s s'"
| exit: "clones s p = Some (Cloning dir) \<Longrightarrow> clone_exit p err out s = Some s' \<Longrightarrow> sub_step s s'"
| logs: "clones s p = Some (CloneLogs l) \<Longrightarrow> clone_logs p l s = Some s' \<Longrightarrow> sub_step s s'"

inductive sub_reachable :: "sub_service \<Rightarrow> bool" where
  init: "sub_reachable (NewHandler dir)"
| step: "sub_reachable s \<Longrightarrow> sub_step s s' \<Longrightarrow> sub_reachable s'"

section \<open>Invariant\<close>

text \<open>The status that each point of the cloning goroutine goes with.\<close>

fun pc_status :: "clone_pc option \<Rightarrow> submission_status set" where
  "pc_status (Some (CloneQueued url)) = {StatusPending}"
| "pc_status (Some (Cloning dir)) = {StatusCompiling}"
| "pc_status (Some (CloneLogs l)) = {StatusSuccess, StatusFailed}"
| "pc_status None = {StatusPending, StatusSuccess, StatusFailed}"

definition same_identity :: "submission \<Rightarrow> submission \<Rightarrow> bool" where
  "same_identity x y \<longleftrightarrow> sID y = sID x \<and> sContestantID y = sContestantID x \<and> sCreatedAt y = sCreatedAt x"

text \<open>The next status of a submission in one step, and the order in which the statuses follow.\<close>

fun status_next :: "submission_status \<Rightarrow> submission_status set" where
  "status_next StatusPending = {StatusCompiling}"
| "status_next StatusCompiling = {StatusSuccess, StatusFailed}"
| "status_next StatusSuccess = {}"
| "status_next StatusFailed = {}"

instantiation submission_status :: order
begin

definition less_eq_submission_status :: "submission_status \<Rightarrow> submission_status \<Rightarrow> bool" where
  "a \<le> b \<longleftrightarrow> a = b \<or> a = StatusPending \<or> a = StatusCompiling \<and> b \<in> {StatusSuccess, StatusFailed}"

definition less_submission_status :: "submission_status \<Rightarrow> submission_status \<Rightarrow> bool" where
  "(a :: submission_status) < b \<longleftrightarrow> a \<le> b \<and> a \<noteq> b"

instance
  by standard (auto simp: less_eq_submission_status_def less_submission_status_def)

end

lemma status_next_less: "b \<in> status_next a \<Longrightarrow> a < b"
  by (cases a) (auto simp: less_submission_status_def less_eq_submission_status_def)

lemma status_final: "StatusSuccess \<le> a \<longleftrightarrow> a = StatusSuccess" "StatusFailed \<le> a \<longleftrightarrow> a = StatusFailed"
  by (auto simp: less_eq_submission_status_def)

definition advanced :: "submission \<Rightarrow> submission \<Rightarrow> bool" where
  "advanced x y \<longleftrightarrow> same_identity x y \<and> sStatus x \<le> sStatus y"

lemma advanced_refl [simp]: "advanced x x"
  by (simp add: advanced_def same_identity_def)

lemma advanced_trans: "advanced x y \<Longrightarrow> advanced y z \<Longrightarrow> advanced x z"
  by (auto simp: advanced_def same_identity_def intro: order_trans)

lemma advanced_step:
  assumes "advanced x y" "same_identity y z" "sStatus z = sStatus y \<or> sStatus z \<in> status_next (sStatus y)"
  shows "advanced x z"
  by (rule advanced_trans [OF assms(1)]) (use assms(2,3) status_next_less in \<open>auto simp: advanced_def less_imp_le\<close>)

definition handler_ok :: "(sref \<rightharpoonup> submission) \<Rightarrow> sub_handler \<Rightarrow> bool" where
  "handler_ok m r \<longleftrightarrow> (case r of Encoding code p \<Rightarrow> m p \<noteq> None
     | SubReplied (SubJson code x) \<Rightarrow> (\<exists>p y. m p = Some y \<and> advanced x y) | _ \<Rightarrow> True)"

definition sub_inv :: "sub_service \<Rightarrow> bool" where
  "sub_inv s \<longleftrightarrow> (\<forall>i p. store s i = Some p \<longleftrightarrow> (\<exists>x. subs s p = Some x \<and> sID x = i)) \<and>
     (\<forall>p x. subs s p = Some x \<longrightarrow> sStatus x \<in> pc_status (clones s p)) \<and>
     (\<forall>p. subs s p = None \<longrightarrow> clones s p = None) \<and>
     (\<forall>h r. subHandlers s h = Some r \<longrightarrow> handler_ok (subs s) r)"

lemma sub_invD:
  assumes "sub_inv s"
  shows "store s i = Some p \<longleftrightarrow> (\<exists>x. subs s p = Some x \<and> sID x = i)"
    "subs s p = Some x \<Longrightarrow> sStatus x \<in> pc_status (clones s p)"
    "subs s p = None \<Longrightarrow> clones s p = None"
    "subHandlers s h = Some r \<Longrightarrow> handler_ok (subs s) r"
  using assms by (simp_all add: sub_inv_def)

text \<open>
  What one step does to the objects: nothing, a new object, or an update of one object by its
  goroutine.
\<close>

datatype sub_effect =
    Same
  | Created sref string string int "clone_pc option"
  | Updated sref submission submission "clone_pc option"

fun has_effect :: "sub_effect \<Rightarrow> sub_service \<Rightarrow> sub_service \<Rightarrow> bool" where
  "has_effect Same s s' \<longleftrightarrow> subs s' = subs s \<and> store s' = store s \<and> clones s' = clones s"
| "has_effect (Created p i cid now pc) s s' \<longleftrightarrow> fresh p i s \<and> subs s' = (subs s)(p \<mapsto> new_submission i cid now) \<and>
     store s' = (store s)(i \<mapsto> p) \<and> clones s' = (clones s)(p := pc) \<and> (pc = None \<or> (\<exists>url. pc = Some (CloneQueued url)))"
| "has_effect (Updated p x y pc) s s' \<longleftrightarrow> subs s p = Some x \<and> clones s p \<noteq> None \<and> subs s' = (subs s)(p \<mapsto> y) \<and> store s' = store s \<and>
     clones s' = (clones s)(p := pc) \<and> same_identity x y \<and> (sStatus y = sStatus x \<or> sStatus y \<in> status_next (sStatus x)) \<and>
     sStatus y \<in> pc_status pc"

lemma Save_store: "sub_inv s \<Longrightarrow> subs s p = Some x \<Longrightarrow> sID y = sID x \<Longrightarrow> (store s)(sID y \<mapsto> p) = store s"
  by (metis (no_types, lifting) fun_upd_triv sub_inv_def)

lemma step_new:
  assumes "sub_inv s" "subHandlers s h = None" "fresh p i s"
    "handleUpload h cid file p i now ok n s = Some s' \<or> handleGitSubmission h body p i now s = Some s'"
  shows "\<exists>e r. has_effect e s s' \<and> subHandlers s' = (subHandlers s)(h \<mapsto> r) \<and> handler_ok (subs s') r"
  using assms(4)
proof
  assume u: "handleUpload h cid file p i now ok n s = Some s'"
  show ?thesis
  proof (cases "cid = '''' \<or> file = None")
    case True
    then show ?thesis using u
      by (intro exI [of _ Same]) (auto simp: handleUpload_def sub_answer_def handler_ok_def split: option.splits if_splits)
  next
    case False
    then show ?thesis using u assms(3) sub_invD(3) [OF assms(1), of p]
      by (intro exI [of _ "Created p i cid now None"])
        (auto simp: handleUpload_def sub_answer_def handler_ok_def Save_def new_submission_def Let_def fun_eq_iff fresh_def
          split: option.splits if_splits)
  qed
next
  assume g: "handleGitSubmission h body p i now s = Some s'"
  show ?thesis
  proof (cases "body = None \<or> snd (the body) = ''''")
    case True
    then show ?thesis using g
      by (intro exI [of _ Same] exI [of _ "SubReplied (SubError 400 ''invalid request body'')"])
        (auto simp: handleGitSubmission_def sub_answer_def handler_ok_def split: option.splits if_splits)
  next
    case False
    then obtain c url where b: "body = Some (c, url)" "url \<noteq> ''''" by auto
    then show ?thesis using g assms(3)
      by (intro exI [of _ "Created p i c now (Some (CloneQueued url))"])
        (auto simp: handleGitSubmission_def sub_answer_def handler_ok_def Save_def new_submission_def Let_def)
  qed
qed

lemma step_clone:
  assumes "sub_inv s" "clones s p = Some pc"
    "(\<exists>url. pc = CloneQueued url \<and> clone_start p url s = Some s') \<or>
     (\<exists>dir. pc = Cloning dir \<and> clone_exit p err out s = Some s') \<or> (\<exists>l. pc = CloneLogs l \<and> clone_logs p l s = Some s')"
  shows "\<exists>x y pc'. has_effect (Updated p x y pc') s s' \<and> subHandlers s' = subHandlers s"
proof -
  obtain x where x: "subs s p = Some x" using sub_invD(3) [OF assms(1), of p] assms(2) by (cases "subs s p") auto
  have st: "sStatus x \<in> pc_status (Some pc)" using sub_invD(2) [OF assms(1) x] assms(2) by simp
  note save = Save_store [OF assms(1) x]
  note defs = clone_start_def clone_exit_def clone_logs_def Save_def same_identity_def Let_def
  show ?thesis using assms(3)
  proof (elim disjE exE conjE)
    fix url assume "pc = CloneQueued url" "clone_start p url s = Some s'"
    then show ?thesis using x st assms(2) save [of x]
      by (intro exI [of _ x] exI [of _ "x\<lparr>sStatus := StatusCompiling\<rparr>"] exI [of _ "Some (Cloning (git_clone url (Join (uploadDir s) (sID x))))"])
        (auto simp: defs)
  next
    fix dir assume e: "pc = Cloning dir" "clone_exit p err out s = Some s'"
    let ?st = "if err = None then StatusSuccess else StatusFailed"
    show ?thesis using x st assms(2) e
      by (intro exI [of _ x] exI [of _ "x\<lparr>sStatus := ?st\<rparr>"] exI [of _ "clones s' p"]) (auto simp: defs split: option.splits)
  next
    fix l assume "pc = CloneLogs l" "clone_logs p l s = Some s'"
    then show ?thesis using x st assms(2) save [of x]
      by (intro exI [of _ x] exI [of _ "x\<lparr>sLogs := l\<rparr>"] exI [of _ None]) (auto simp: defs)
  qed
qed

lemma answer_effect:
  "handler_ok (subs s) r \<Longrightarrow> has_effect Same s (sub_answer h r s) \<and> subHandlers (sub_answer h r s) = (subHandlers s)(h \<mapsto> r) \<and>
     handler_ok (subs (sub_answer h r s)) r"
  by (simp add: sub_answer_def)

lemma step_effect:
  assumes "sub_inv s" "sub_step s s'"
  shows "\<exists>e. has_effect e s s' \<and> (subHandlers s' = subHandlers s \<or>
     (\<exists>h r. subHandlers s' = (subHandlers s)(h \<mapsto> r) \<and> handler_ok (subs s') r))"
  using assms(2)
proof cases
  case (upload h p i cid f now ok n)
  then show ?thesis using step_new [OF assms(1), of h p i] by blast
next
  case (git h p i body now)
  then show ?thesis using step_new [OF assms(1), of h p i] by blast
next
  case (status h path)
  let ?r = "case store s (Base path) of None \<Rightarrow> SubReplied (SubError 404 ''submission not found'') | Some p \<Rightarrow> Encoding 200 p"
  have "s' = sub_answer h ?r s" using status(1) by (simp add: handleGetStatus_def Get_def split: option.splits)
  moreover have "handler_ok (subs s) ?r"
    using sub_invD(1) [OF assms(1), of "Base path"] by (auto simp: handler_ok_def split: option.splits)
  ultimately show ?thesis using answer_effect by blast
next
  case (encode h code p)
  then obtain x where "s' = sub_answer h (SubReplied (SubJson code x)) s" "subs s p = Some x"
    by (auto simp: sub_encode_def split: bind_splits)
  moreover from this have "handler_ok (subs s) (SubReplied (SubJson code x))" by (force simp: handler_ok_def)
  ultimately show ?thesis using answer_effect by blast
next
  case (start p url)
  then show ?thesis using step_clone [OF assms(1), of p "CloneQueued url"] by blast
next
  case (exit p dir err out)
  then show ?thesis using step_clone [OF assms(1), of p "Cloning dir"] by blast
next
  case (logs p l)
  then show ?thesis using step_clone [OF assms(1), of p "CloneLogs l"] by blast
qed

text \<open>Every object is kept by a step, and moves on by at most one status.\<close>

lemma effect_keeps:
  assumes "has_effect e s s'" "subs s p = Some x"
  shows "\<exists>y. subs s' p = Some y \<and> same_identity x y \<and> (sStatus y = sStatus x \<or> sStatus y \<in> status_next (sStatus x)) \<and>
     (clones s p = None \<longrightarrow> y = x \<and> clones s' p = None)"
  using assms by (cases e; intro exI [of _ "the (subs s' p)"]) (auto simp: same_identity_def fresh_def split: if_splits)

lemma effect_handler:
  assumes "has_effect e s s'" "handler_ok (subs s) r"
  shows "handler_ok (subs s') r"
proof -
  have "\<exists>p y. subs s' p = Some y \<and> advanced x y" if "subs s p = Some y" "advanced x y" for p x y
    using effect_keeps [OF assms(1) that(1)] advanced_step [OF that(2)] by blast
  moreover have "subs s' p \<noteq> None" if "subs s p = Some y" for p y using effect_keeps [OF assms(1) that] by blast
  ultimately show ?thesis using assms(2) by (auto simp: handler_ok_def split: sub_handler.splits sub_reply.splits)
qed

lemma effect_inv:
  assumes "sub_inv s" "has_effect e s s'"
  shows "(\<forall>i p. store s' i = Some p \<longleftrightarrow> (\<exists>x. subs s' p = Some x \<and> sID x = i)) \<and>
   (\<forall>p x. subs s' p = Some x \<longrightarrow> sStatus x \<in> pc_status (clones s' p)) \<and> (\<forall>p. subs s' p = None \<longrightarrow> clones s' p = None)"
proof -
  have new: "sID x \<noteq> i" if "store s i = None" "subs s p = Some x" for i p x
    using sub_invD(1) [OF assms(1), of i p] that by auto
  show ?thesis using assms(2) sub_invD(1-3) [OF assms(1)]
    by (cases e) (auto simp: fresh_def same_identity_def new_submission_def split: if_splits dest: new)
qed

lemma sub_reachable_inv: "sub_reachable s \<Longrightarrow> sub_inv s"
proof (induction rule: sub_reachable.induct)
  case (init dir)
  show ?case by (simp add: sub_inv_def NewHandler_def NewStore_def)
next
  case (step s s')
  obtain e where e: "has_effect e s s'" and h: "subHandlers s' = subHandlers s \<or>
     (\<exists>h r. subHandlers s' = (subHandlers s)(h \<mapsto> r) \<and> handler_ok (subs s') r)"
    using step_effect [OF step.IH step.hyps(2)] by blast
  have "handler_ok (subs s') r" if "subHandlers s' h = Some r" for h r
    using h that effect_handler [OF e] sub_invD(4) [OF step.IH] by (auto split: if_splits)
  then show ?case using effect_inv [OF step.IH e] by (simp add: sub_inv_def)
qed

text \<open>A run of the service, from one state to a later one.\<close>

inductive sub_later :: "sub_service \<Rightarrow> sub_service \<Rightarrow> bool" for s where
  refl: "sub_later s s"
| step: "sub_later s s' \<Longrightarrow> sub_step s' s'' \<Longrightarrow> sub_later s s''"

lemma sub_later_reachable: "sub_later s s' \<Longrightarrow> sub_reachable s \<Longrightarrow> sub_reachable s'"
  by (induction rule: sub_later.induct) (auto intro: sub_reachable.step)

lemma step_keeps:
  assumes "sub_reachable s" "sub_step s s'" "subs s p = Some x"
  shows "\<exists>y. subs s' p = Some y \<and> same_identity x y \<and> (sStatus y = sStatus x \<or> sStatus y \<in> status_next (sStatus x)) \<and>
     (clones s p = None \<longrightarrow> y = x \<and> clones s' p = None)"
  using step_effect [OF sub_reachable_inv [OF assms(1)] assms(2)] effect_keeps [OF _ assms(3)] by blast

lemma sub_later_keeps:
  assumes "sub_later s s'" "sub_reachable s" "subs s p = Some x"
  shows "\<exists>y. subs s' p = Some y \<and> advanced x y \<and> (clones s p = None \<longrightarrow> y = x \<and> clones s' p = None)"
  using assms(1)
proof (induction rule: sub_later.induct)
  case refl
  then show ?case using assms(3) by simp
next
  case (step s' s'')
  from step.IH obtain y where y: "subs s' p = Some y" "advanced x y" "clones s p = None \<longrightarrow> y = x \<and> clones s' p = None"
    by (elim exE conjE) (rule that; assumption)
  obtain z where z: "subs s'' p = Some z" "same_identity y z" "sStatus z = sStatus y \<or> sStatus z \<in> status_next (sStatus y)"
    "clones s' p = None \<longrightarrow> z = y \<and> clones s'' p = None"
    using step_keeps [OF sub_later_reachable [OF step.hyps(1) assms(2)] step.hyps(2) y(1)]
    by (elim exE conjE) (rule that; assumption)
  then show ?case using y(3) advanced_step [OF y(2) z(2,3)] by auto
qed

lemma sub_later_first: "sub_later s' s'' \<Longrightarrow> sub_step s s' \<Longrightarrow> sub_later s s''"
  by (induction rule: sub_later.induct) (auto intro: sub_later.intros)

text \<open>A cloning goroutine can always run to its end, which leaves a final status.\<close>

definition can_finish :: "sref \<Rightarrow> sub_service \<Rightarrow> bool" where
  "can_finish p s \<longleftrightarrow> (\<exists>s' y. sub_later s s' \<and> subs s' p = Some y \<and> clones s' p = None \<and> sStatus y \<in> {StatusSuccess, StatusFailed})"

lemma can_finish_step: "sub_step s s' \<Longrightarrow> can_finish p s' \<Longrightarrow> can_finish p s"
  unfolding can_finish_def by (blast intro: sub_later_first)

lemma can_finish_logs:
  assumes "clones s p = Some (CloneLogs l)" "subs s p = Some x" "sStatus x \<in> {StatusSuccess, StatusFailed}"
  shows "can_finish p s"
proof -
  obtain s' where s': "clone_logs p l s = Some s'" "subs s' p = Some (x\<lparr>sLogs := l\<rparr>)" "clones s' p = None"
    using assms(2) by (simp add: clone_logs_def Save_def)
  then have "can_finish p s'" using assms(3) by (auto simp: can_finish_def intro: sub_later.refl)
  then show ?thesis using can_finish_step sub_step.logs [OF assms(1) s'(1)] by blast
qed

lemma can_finish_cloning:
  assumes "clones s p = Some (Cloning d)" "subs s p = Some x"
  shows "can_finish p s"
proof -
  obtain s' where s': "clone_exit p None [] s = Some s'" "subs s' p = Some (x\<lparr>sStatus := StatusSuccess\<rparr>)"
    "clones s' p = Some (CloneLogs [])"
    using assms(2) by (simp add: clone_exit_def)
  then have "can_finish p s'" using can_finish_logs by simp
  then show ?thesis using can_finish_step sub_step.exit [OF assms(1) s'(1)] by blast
qed

lemma clone_can_finish:
  assumes "sub_inv s" "subs s p = Some x" "clones s p = Some pc"
  shows "can_finish p s"
proof (cases pc)
  case (CloneQueued url)
  obtain s' d y where s': "clone_start p url s = Some s'" "subs s' p = Some y" "clones s' p = Some (Cloning d)"
    using assms(2) by (simp add: clone_start_def Save_def)
  then show ?thesis
    using can_finish_step sub_step.start [OF _ s'(1)] can_finish_cloning [OF s'(3,2)] assms(3) CloneQueued by blast
next
  case (Cloning d)
  then show ?thesis using can_finish_cloning assms by blast
next
  case (CloneLogs l)
  then show ?thesis using can_finish_logs assms sub_invD(2) [OF assms(1,2)] by simp
qed

section \<open>Example\<close>

definition ex_git :: sub_service where
  "ex_git = the (handleGitSubmission 1 (Some (''team'', ''https://x/y'')) 0 ''u1'' 5 (NewHandler ''./uploads''))"

lemma ex_git_step: "sub_step (NewHandler ''./uploads'') ex_git"
  by (rule sub_step.git [where h = 1 and p = 0 and i = "''u1''" and body = "Some (''team'', ''https://x/y'')" and now = 5])
      (simp_all add: ex_git_def NewHandler_def NewStore_def fresh_def plain_name_def handleGitSubmission_def Save_def)

lemma ex_git_reachable: "sub_reachable ex_git"
  by (rule sub_reachable.step [OF sub_reachable.init ex_git_step])

lemma ex_git_state: "subs ex_git 0 = Some (new_submission ''u1'' ''team'' 5)" "clones ex_git 0 = Some (CloneQueued ''https://x/y'')"
  "store ex_git = [''u1'' \<mapsto> 0]" "subHandlers ex_git = [1 \<mapsto> Encoding 202 0]"
  by (simp_all add: ex_git_def NewHandler_def NewStore_def handleGitSubmission_def Save_def sub_answer_def new_submission_def)

section \<open>Properties\<close>

text \<open>
  The URL of a Git submission is the fourth word of the command with no \<open>--\<close> before it: a URL that
  begins with a dash is accepted like any other and reaches \<open>git\<close> in the place of an option.
\<close>

lemma git_option_accepted:
  assumes "fresh p i s" "url \<noteq> ''''"
  shows "\<exists>s' s'' dest. handleGitSubmission h (Some (cid, url)) p i now s = Some s' \<and> subHandlers s' h = Some (Encoding 202 p) \<and>
     clone_start p url s' = Some s'' \<and> clones s'' p = Some (Cloning [''git'', ''clone'', ''--depth=1'', url, dest])"
  using assms by (simp add: handleGitSubmission_def sub_answer_def Save_def clone_start_def git_clone_def new_submission_def)



text \<open>
  An accepted submission can be looked up from then on: if a handler has answered with a
  submission, then in every later state a \<open>GET\<close> for its identifier is routed to
  \<open>handleGetStatus\<close>, finds it and answers 200 with the same identifier, contestant and creation
  time and a status the first one can lead to, and a path whose last element is not the
  identifier of a stored submission is answered 404.
\<close>

theorem accepted_is_found:
  assumes "sub_reachable s" "subHandlers s h = Some (SubReplied (SubJson code x))" "sub_later s s'"
    and "CHR ''/'' \<notin> set (sID x)" "sID x \<noteq> ''''"
  shows "let path = ''/api/v1/submissions/'' @ sID x in
     sub_RegisterRoutes ''GET'' path = Some SubStatus \<and>
     (\<exists>p y. handleGetStatus g path s' = sub_answer g (Encoding 200 p) s' \<and>
        sub_encode g 200 p s' = Some (sub_answer g (SubReplied (SubJson 200 y)) s') \<and> advanced x y) \<and>
     (\<forall>q. (\<forall>p y. subs s' p = Some y \<longrightarrow> sID y \<noteq> Base q) \<longrightarrow>
        handleGetStatus g q s' = sub_answer g (SubReplied (SubError 404 ''submission not found'')) s')"
proof -
  have i: "sub_inv s'" using sub_reachable_inv sub_later_reachable [OF assms(3,1)] .
  obtain p y where "subs s p = Some y" "advanced x y"
    using sub_invD(4) [OF sub_reachable_inv [OF assms(1)] assms(2)] by (auto simp: handler_ok_def)
  then obtain z where z: "subs s' p = Some z" "advanced x z"
    using sub_later_keeps [OF assms(3,1), of p y] advanced_trans [of x y] by blast
  have b: "Base (''/api/v1/submissions/'' @ sID x) = sID x"
    using Base_last [OF assms(4,5), of "''/api/v1/submissions''"] by simp
  have "sID z = sID x" using z(2) by (simp add: advanced_def same_identity_def)
  then have "store s' (sID x) = Some p" using sub_invD(1) [OF i, of "sID x" p] z(1) by blast
  then have "handleGetStatus g (''/api/v1/submissions/'' @ sID x) s' = sub_answer g (Encoding 200 p) s'"
    unfolding handleGetStatus_def Get_def b by simp
  moreover have "sub_encode g 200 p s' = Some (sub_answer g (SubReplied (SubJson 200 z)) s')" using z by (simp add: sub_encode_def)
  moreover have "handleGetStatus g q s' = sub_answer g (SubReplied (SubError 404 ''submission not found'')) s'"
    if "\<forall>p y. subs s' p = Some y \<longrightarrow> sID y \<noteq> Base q" for q
  proof -
    have "store s' (Base q) = None" using that sub_invD(1) [OF i, of "Base q"] by (cases "store s' (Base q)") blast+
    then show ?thesis by (simp add: handleGetStatus_def Get_def)
  qed
  moreover have "sub_RegisterRoutes ''GET'' (''/api/v1/submissions/'' @ sID x) = Some SubStatus" by (simp add: sub_RegisterRoutes_def)
  ultimately show ?thesis using z(2) unfolding Let_def by blast
qed

lemma ex_git_encoded: "sub_later ex_git (sub_answer 1 (SubReplied (SubJson 202 (new_submission ''u1'' ''team'' 5))) ex_git)"
  by (rule sub_later.step [OF sub_later.refl], rule sub_step.encode [where h = 1 and code = 202 and p = 0])
    (simp_all add: ex_git_state sub_encode_def)

theorem accepted_is_found_witness:
  "\<exists>s p y. sub_reachable s \<and> handleGetStatus 2 ''/api/v1/submissions/u1'' s = sub_answer 2 (Encoding 200 p) s \<and>
     sub_encode 2 200 p s = Some (sub_answer 2 (SubReplied (SubJson 200 y)) s) \<and> sContestantID y = ''team''"
proof -
  let ?x = "new_submission ''u1'' ''team'' 5" and ?s = "sub_answer 1 (SubReplied (SubJson 202 (new_submission ''u1'' ''team'' 5))) ex_git"
  have r: "sub_reachable ?s" using sub_later_reachable [OF ex_git_encoded ex_git_reachable] .
  have h: "subHandlers ?s 1 = Some (SubReplied (SubJson 202 ?x))" by (simp add: sub_answer_def)
  have i: "sID ?x = ''u1''" "sContestantID ?x = ''team''" by (simp_all add: new_submission_def)
  from accepted_is_found [OF r h sub_later.refl, of 2] obtain p y where
    "handleGetStatus 2 ''/api/v1/submissions/u1'' ?s = sub_answer 2 (Encoding 200 p) ?s"
    "sub_encode 2 200 p ?s = Some (sub_answer 2 (SubReplied (SubJson 200 y)) ?s)" "advanced ?x y"
    unfolding i Let_def by auto
  then show ?thesis using r i(2) by (auto simp: advanced_def same_identity_def)
qed



text \<open>
  Nothing builds an uploaded archive: a submission stored by \<open>handleUpload\<close>, even when it
  then reports that the file could not be saved, stays as it is, pending, in every later state.
\<close>

theorem upload_stays_pending:
  assumes "sub_reachable s" "subHandlers s h = None" "fresh p i s" "handleUpload h cid (Some f) p i now ok n s = Some s'"
    "cid \<noteq> ''''" "sub_later s' s''"
  shows "subs s'' p = Some (new_submission i cid now) \<and> sStatus (new_submission i cid now) = StatusPending"
proof -
  have r: "sub_reachable s'" using sub_reachable.step [OF assms(1) sub_step.upload [OF assms(2,3,4)]] .
  have "clones s p = None" using sub_invD(3) [OF sub_reachable_inv [OF assms(1)], of p] assms(3) by (simp add: fresh_def)
  then have n: "subs s' p = Some (new_submission i cid now) \<and> clones s' p = None"
    using assms(4,5) by (cases f) (auto simp: handleUpload_def Save_def sub_answer_def new_submission_def Let_def)
  then have "\<exists>y. subs s'' p = Some y \<and> y = new_submission i cid now"
    using sub_later_keeps [OF assms(6) r, of p "new_submission i cid now"] by blast
  then show ?thesis by (simp add: new_submission_def)
qed

theorem upload_stays_pending_witness:
  "\<exists>s'. handleUpload 1 ''team'' (Some (''a.zip'', ''x'')) 0 ''u1'' 5 False 0 (NewHandler ''d'') = Some s' \<and>
     subs s' 0 = Some (new_submission ''u1'' ''team'' 5)"
proof -
  let ?s = "NewHandler ''d''"
  obtain s' where s': "handleUpload 1 ''team'' (Some (''a.zip'', ''x'')) 0 ''u1'' 5 False 0 ?s = Some s'"
    by (simp add: handleUpload_def Save_def)
  have "subHandlers ?s 1 = None" "fresh 0 ''u1'' ?s" by (simp_all add: fresh_def NewHandler_def NewStore_def plain_name_def)
  from upload_stays_pending [OF sub_reachable.init this s' _ sub_later.refl] s' show ?thesis by simp
qed

end
