(* ===== verification/Routes.thy ===== *)
theory Routes
  imports Go_Mux Api_Server Submission
begin

text \<open>
  The routers of the three HTTP services, built by registering their patterns with \<open>ServeMux\<close>:
  \<open>Server.RegisterRoutes\<close> (\<open>pkg/api/server.go\<close>), \<open>Handler.RegisterRoutes\<close>
  (\<open>pkg/submission/handler.go\<close>) with the health check of \<open>cmd/submission-service\<close>, and the
  routes of \<open>cmd/leaderboard-service\<close>.  Dispatching through the mux is what the handler
  tables of \<open>Api_Server\<close> and \<open>Submission\<close> say.
\<close>

section \<open>Registered patterns\<close>

definition api_mux :: "route mux option" where
  "api_mux = HandleFuncs
     [(''POST /api/v1/orders'', RPlace),
      (''DELETE /api/v1/orders/'', RCancel),
      (''GET /api/v1/orderbook'', RBook),
      (''GET /ws/market-data'', RWs)] []"

datatype sub_endpoint = SubRoute sub_route | SubHealth

definition submission_mux :: "sub_endpoint mux option" where
  "submission_mux = HandleFuncs
     [(''POST /api/v1/submissions'', SubRoute SubUpload),
      (''GET /api/v1/submissions/'', SubRoute SubStatus),
      (''POST /api/v1/submissions/git'', SubRoute SubGit),
      (''GET /health'', SubHealth)] []"

definition submission_endpoint :: "string \<Rightarrow> string \<Rightarrow> sub_endpoint option" where
  "submission_endpoint verb path = (case sub_RegisterRoutes verb path of
     Some r \<Rightarrow> Some (SubRoute r)
   | None \<Rightarrow> if verb \<in> {''GET'', ''HEAD''} \<and> path = ''/health'' then Some SubHealth else None)"

datatype lb_endpoint = LbBoard | LbLive | LbHealth | LbDebugRun | LbFiles

definition leaderboard_mux :: "lb_endpoint mux option" where
  "leaderboard_mux = HandleFuncs
     [(''GET /api/v1/leaderboard'', LbBoard),
      (''GET /ws/leaderboard/live'', LbLive),
      (''GET /health'', LbHealth),
      (''POST /api/v1/debug/run'', LbDebugRun),
      (''/'', LbFiles)] []"

definition leaderboard_endpoint :: "string \<Rightarrow> string \<Rightarrow> lb_endpoint" where
  "leaderboard_endpoint verb path =
     (if verb \<in> {''GET'', ''HEAD''} \<and> path = ''/api/v1/leaderboard'' then LbBoard
      else if verb \<in> {''GET'', ''HEAD''} \<and> path = ''/ws/leaderboard/live'' then LbLive
      else if verb \<in> {''GET'', ''HEAD''} \<and> path = ''/health'' then LbHealth
      else if verb = ''POST'' \<and> path = ''/api/v1/debug/run'' then LbDebugRun
      else LbFiles)"

section \<open>Dispatch\<close>

lemma mux_match_best:
  assumes "mux_ok mux" "x \<in> set mux" "pat_matches verb path (fst x)"
    and "\<And>y. y \<in> set mux \<Longrightarrow> pat_matches verb path (fst y) \<Longrightarrow> more_or_equal (fst y) (fst x) \<Longrightarrow> y = x"
  shows "mux_match verb path mux = Some x"
proof -
  obtain z where z: "mux_match verb path mux = Some z" using mux_match_total [OF assms(1-3)] by blast
  note s = mux_match_spec [OF z]
  show ?thesis using z assms(4) [OF s(1,2) s(3) [OF assms(2,3)]] by simp
qed

lemma Clean_rooted: "rooted p \<Longrightarrow> starts_slash (Clean p)"
  by (simp add: Clean_def render_def Let_def starts_slash_def hd_opt_def)

lemma cleanPath_rooted: "cleanPath path = path \<Longrightarrow> starts_slash path"
proof -
  have "starts_slash (cleanPath path)"
  proof (cases "path = ''''")
    case False
    let ?p = "if starts_slash path then path else CHR ''/'' # path"
    have "starts_slash (Clean ?p)" by (rule Clean_rooted) (simp add: rooted_def starts_slash_def hd_opt_def)
    then show ?thesis using False by (auto simp: cleanPath_def Let_def starts_slash_def hd_opt_def split: list.splits)
  qed (simp add: cleanPath_def starts_slash_def hd_opt_def)
  then show "starts_slash path" if "cleanPath path = path" using that by simp
qed

text \<open>The three registrations succeed.\<close>

definition pt :: "string \<Rightarrow> string \<Rightarrow> pat" where "pt m p = \<lparr>pMethod = m, pPath = p\<rparr>"

lemma api_mux_eq: "api_mux = Some
   [(pt ''POST'' ''/api/v1/orders'', RPlace), (pt ''DELETE'' ''/api/v1/orders/'', RCancel),
    (pt ''GET'' ''/api/v1/orderbook'', RBook), (pt ''GET'' ''/ws/market-data'', RWs)]"
  by code_simp

lemma submission_mux_eq: "submission_mux = Some
   [(pt ''POST'' ''/api/v1/submissions'', SubRoute SubUpload), (pt ''GET'' ''/api/v1/submissions/'', SubRoute SubStatus),
    (pt ''POST'' ''/api/v1/submissions/git'', SubRoute SubGit), (pt ''GET'' ''/health'', SubHealth)]"
  by code_simp

lemma leaderboard_mux_eq: "leaderboard_mux = Some
   [(pt ''GET'' ''/api/v1/leaderboard'', LbBoard), (pt ''GET'' ''/ws/leaderboard/live'', LbLive), (pt ''GET'' ''/health'', LbHealth),
    (pt ''POST'' ''/api/v1/debug/run'', LbDebugRun), (pt '''' ''/'', LbFiles)]"
  by code_simp

lemma mux_ok_Nil: "mux_ok []"
  by (simp add: mux_ok_def)

lemma pt_simps [simp]: "pMethod (pt m p) = m" "pPath (pt m p) = p"
  by (simp_all add: pt_def)

text \<open>A pattern without a trailing slash matches one path only, and exactly.\<close>

lemma dispatch_serve:
  assumes "cleanPath path = path" "mux_match verb path mux = Some (p, h)"
    and "pPath p = path \<or> ends_slash path \<or> (\<forall>(q, k) \<in> set mux. pPath q \<noteq> path @ ''/'')"
  shows "mux_dispatch verb path mux = Serve h"
proof -
  have "exactMatch (mux_match verb path mux) path \<or> ends_slash path \<or> \<not> exactMatch (mux_match verb (path @ ''/'') mux) (path @ ''/'')"
    using assms(2,3) mux_match_spec(1) [of verb "path @ ''/''" mux] by (auto simp: exactMatch_def split: option.splits)
  then show ?thesis using assms(1,2) unfolding mux_dispatch_def by (auto simp: Let_def)
qed

lemma dispatch_serveD:
  assumes "mux_dispatch verb path mux = Serve h"
  shows "\<exists>p. (p, h) \<in> set mux \<and> pat_matches verb path p"
proof -
  let ?cp = "if verb = ''CONNECT'' then path else cleanPath path"
  have "?cp = path" "\<exists>p. mux_match verb ?cp mux = Some (p, h)"
    using assms unfolding mux_dispatch_def Let_def by (auto split: if_splits option.splits prod.splits)
  then obtain p where "mux_match verb path mux = Some (p, h)" by auto
  from mux_match_spec(1,2) [OF this] show ?thesis by auto
qed

lemma ends_slash_lits [simp]:
  "ends_slash ''/api/v1/orders/''" "\<not> ends_slash ''/api/v1/orders''" "\<not> ends_slash ''/api/v1/orderbook''" "\<not> ends_slash ''/ws/market-data''"
  "ends_slash ''/api/v1/submissions/''" "\<not> ends_slash ''/api/v1/submissions''" "\<not> ends_slash ''/api/v1/submissions/git''"
  "\<not> ends_slash ''/health''" "\<not> ends_slash ''/api/v1/leaderboard''" "\<not> ends_slash ''/ws/leaderboard/live''"
  "\<not> ends_slash ''/api/v1/debug/run''" "ends_slash ''/''"
  by (simp_all add: ends_slash_def)

lemmas match_defs = pat_matches_def method_matches_def path_matches_def

text \<open>
  When each pattern matches exactly the requests that a table \<open>T\<close> gives to its handler, then
  dispatch follows the table.
\<close>

lemma dispatch_table:
  assumes "cleanPath path = path" "mux_ok mux"
    and table: "\<And>x. x \<in> set mux \<Longrightarrow> pat_matches verb path (fst x) \<longleftrightarrow> T = Some (snd x)"
    and all: "\<And>r. T = Some r \<Longrightarrow> r \<in> snd ` set mux" and inj: "inj_on snd (set mux)"
    and tree: "\<And>x. x \<in> set mux \<Longrightarrow> ends_slash (pPath (fst x)) \<Longrightarrow> pPath (fst x) = t" "\<And>u. t = u @ ''/'' \<Longrightarrow> path = u \<Longrightarrow> \<not> prefix t path"
  shows "mux_dispatch verb path mux = Serve r \<longleftrightarrow> T = Some r"
proof
  assume "mux_dispatch verb path mux = Serve r"
  from dispatch_serveD [OF this] show "T = Some r" using table by force
next
  assume r: "T = Some r"
  obtain x where x: "x \<in> set mux" "snd x = r" using all [OF r] by auto
  have px: "pat_matches verb path (fst x)" using table [OF x(1)] r x(2) by simp
  have "mux_match verb path mux = Some x"
    by (rule mux_match_best [OF assms(2) x(1) px]) (use table r x inj in \<open>auto simp: inj_on_def\<close>)
  then have "mux_match verb path mux = Some (fst x, r)" using x(2) by auto
  then show "mux_dispatch verb path mux = Serve r"
  proof (rule dispatch_serve [OF assms(1)])
    have "pPath (fst x) = path" if q: "y \<in> set mux" "pPath (fst y) = path @ ''/''" for y
    proof (cases "ends_slash (pPath (fst x))")
      case True
      have "ends_slash (pPath (fst y))" using q(2) by (simp add: ends_slash_def)
      then have "t = path @ ''/''" using tree(1) [OF q(1)] q(2) by simp
      then have "\<not> prefix t path" using tree(2) by blast
      then show ?thesis using px True tree(1) [OF x(1)] by (simp add: match_defs)
    qed (use px in \<open>simp add: match_defs\<close>)
    then show "pPath (fst x) = path \<or> ends_slash path \<or> (\<forall>(q, k) \<in> set mux. pPath q \<noteq> path @ ''/'')" by fastforce
  qed
qed

lemma api_matches:
  "pat_matches verb path (pt ''POST'' ''/api/v1/orders'') \<longleftrightarrow> RegisterRoutes verb path = Some RPlace"
  "pat_matches verb path (pt ''DELETE'' ''/api/v1/orders/'') \<longleftrightarrow> RegisterRoutes verb path = Some RCancel"
  "pat_matches verb path (pt ''GET'' ''/api/v1/orderbook'') \<longleftrightarrow> RegisterRoutes verb path = Some RBook"
  "pat_matches verb path (pt ''GET'' ''/ws/market-data'') \<longleftrightarrow> RegisterRoutes verb path = Some RWs"
  by (simp add: match_defs RegisterRoutes_def, blast?)+

lemma not_prefix_self: "\<not> prefix (u @ [c]) u"
  by (metis length_append_singleton lessI not_less prefix_length_le)

lemma api_dispatch:
  assumes "cleanPath path = path" "api_mux = Some mux"
  shows "mux_dispatch verb path mux = Serve r \<longleftrightarrow> RegisterRoutes verb path = Some r"
proof (rule dispatch_table [OF assms(1), where t = "''/api/v1/orders/''"])
  have m: "mux = [(pt ''POST'' ''/api/v1/orders'', RPlace), (pt ''DELETE'' ''/api/v1/orders/'', RCancel),
      (pt ''GET'' ''/api/v1/orderbook'', RBook), (pt ''GET'' ''/ws/market-data'', RWs)]" using assms(2) unfolding api_mux_eq by simp
  show "mux_ok mux" by (rule HandleFuncs_ok [OF assms(2) [unfolded api_mux_def] mux_ok_Nil])
  show "pat_matches verb path (fst x) \<longleftrightarrow> RegisterRoutes verb path = Some (snd x)" if "x \<in> set mux" for x
    using that unfolding m by (auto simp: api_matches)
  show "RegisterRoutes verb path = Some r \<Longrightarrow> r \<in> snd ` set mux" for r unfolding m by (cases r) simp_all
  show "inj_on snd (set mux)" unfolding m by (simp add: inj_on_def)
  show "pPath (fst x) = ''/api/v1/orders/''" if "x \<in> set mux" "ends_slash (pPath (fst x))" for x
    using that unfolding m by auto
  show "\<not> prefix ''/api/v1/orders/'' path" if "''/api/v1/orders/'' = u @ ''/''" "path = u" for u
    unfolding that by (rule not_prefix_self)
qed

lemma submission_matches:
  "pat_matches verb path (pt ''POST'' ''/api/v1/submissions'') \<longleftrightarrow> submission_endpoint verb path = Some (SubRoute SubUpload)"
  "pat_matches verb path (pt ''GET'' ''/api/v1/submissions/'') \<longleftrightarrow> submission_endpoint verb path = Some (SubRoute SubStatus)"
  "pat_matches verb path (pt ''POST'' ''/api/v1/submissions/git'') \<longleftrightarrow> submission_endpoint verb path = Some (SubRoute SubGit)"
  "pat_matches verb path (pt ''GET'' ''/health'') \<longleftrightarrow> submission_endpoint verb path = Some SubHealth"
  by (simp add: match_defs submission_endpoint_def sub_RegisterRoutes_def, blast?)+

lemma submission_dispatch:
  assumes "cleanPath path = path" "submission_mux = Some mux"
  shows "mux_dispatch verb path mux = Serve r \<longleftrightarrow> submission_endpoint verb path = Some r"
proof (rule dispatch_table [OF assms(1), where t = "''/api/v1/submissions/''"])
  have m: "mux = [(pt ''POST'' ''/api/v1/submissions'', SubRoute SubUpload), (pt ''GET'' ''/api/v1/submissions/'', SubRoute SubStatus),
      (pt ''POST'' ''/api/v1/submissions/git'', SubRoute SubGit), (pt ''GET'' ''/health'', SubHealth)]"
    using assms(2) unfolding submission_mux_eq by simp
  show "mux_ok mux" by (rule HandleFuncs_ok [OF assms(2) [unfolded submission_mux_def] mux_ok_Nil])
  show "pat_matches verb path (fst x) \<longleftrightarrow> submission_endpoint verb path = Some (snd x)" if "x \<in> set mux" for x
    using that unfolding m by (auto simp: submission_matches)
  show "submission_endpoint verb path = Some r \<Longrightarrow> r \<in> snd ` set mux" for r
  proof (cases r)
    case (SubRoute q)
    then show ?thesis unfolding m by (cases q) simp_all
  qed (simp add: m)
  show "inj_on snd (set mux)" unfolding m by (simp add: inj_on_def)
  show "pPath (fst x) = ''/api/v1/submissions/''" if "x \<in> set mux" "ends_slash (pPath (fst x))" for x
    using that unfolding m by auto
  show "\<not> prefix ''/api/v1/submissions/'' path" if "''/api/v1/submissions/'' = u @ ''/''" "path = u" for u
    unfolding that by (rule not_prefix_self)
qed

text \<open>In the leaderboard service the file server takes what no other pattern matches.\<close>

lemma root_matches: "cleanPath path = path \<Longrightarrow> pat_matches verb path (pt '''' ''/'')"
  using cleanPath_rooted [of path] by (cases path) (auto simp: match_defs starts_slash_def)

lemma leaderboard_matches:
  "pat_matches verb path (pt ''GET'' ''/api/v1/leaderboard'') \<longleftrightarrow> leaderboard_endpoint verb path = LbBoard"
  "pat_matches verb path (pt ''GET'' ''/ws/leaderboard/live'') \<longleftrightarrow> leaderboard_endpoint verb path = LbLive"
  "pat_matches verb path (pt ''GET'' ''/health'') \<longleftrightarrow> leaderboard_endpoint verb path = LbHealth"
  "pat_matches verb path (pt ''POST'' ''/api/v1/debug/run'') \<longleftrightarrow> leaderboard_endpoint verb path = LbDebugRun"
  by (cases "path = ''/api/v1/leaderboard''"; cases "path = ''/ws/leaderboard/live''"; cases "path = ''/health''"; simp add: match_defs leaderboard_endpoint_def)+

lemma leaderboard_dispatch:
  assumes "cleanPath path = path" "leaderboard_mux = Some mux"
  shows "mux_dispatch verb path mux = Serve (leaderboard_endpoint verb path)"
proof -
  have m: "mux = [(pt ''GET'' ''/api/v1/leaderboard'', LbBoard), (pt ''GET'' ''/ws/leaderboard/live'', LbLive), (pt ''GET'' ''/health'', LbHealth),
      (pt ''POST'' ''/api/v1/debug/run'', LbDebugRun), (pt '''' ''/'', LbFiles)]" using assms(2) unfolding leaderboard_mux_eq by simp
  have ok: "mux_ok mux" by (rule HandleFuncs_ok [OF assms(2) [unfolded leaderboard_mux_def] mux_ok_Nil])
  have spec: "pat_matches verb path (fst y) \<longleftrightarrow> leaderboard_endpoint verb path = snd y" if "y \<in> set mux" "snd y \<noteq> LbFiles" for y
    using that unfolding m by (auto simp: leaderboard_matches)
  have "\<exists>x \<in> set mux. snd x = e" for e unfolding m by (cases e) simp_all
  then obtain x where x: "x \<in> set mux" "snd x = leaderboard_endpoint verb path" by blast
  have px: "pat_matches verb path (fst x)"
  proof (cases "snd x = LbFiles")
    case True
    then have "fst x = pt '''' ''/''" using x(1) unfolding m by auto
    then show ?thesis using root_matches [OF assms(1)] by simp
  qed (use spec x in simp)
  have "mux_match verb path mux = Some x"
  proof (rule mux_match_best [OF ok x(1) px])
    fix y assume y: "y \<in> set mux" "pat_matches verb path (fst y)" "more_or_equal (fst y) (fst x)"
    have s: "snd y = snd x"
    proof (cases "snd y = LbFiles")
      case True
      then have "pPath (fst x) = ''/''" using y(1,3) x(1) unfolding m by (auto simp: more_or_equal_iff path_le_def)
      then show ?thesis using True x(1) unfolding m by auto
    qed (use spec y x(2) in simp)
    show "y = x" using s x(1) y(1) unfolding m by auto
  qed
  then have "mux_match verb path mux = Some (fst x, leaderboard_endpoint verb path)" using x(2) by (metis prod.collapse)
  then show ?thesis
  proof (rule dispatch_serve [OF assms(1)])
    have "q \<noteq> path @ ''/''" if "q \<in> pPath ` fst ` set mux" for q
    proof
      assume e: "q = path @ ''/''"
      then have "ends_slash q" by (simp add: ends_slash_def)
      then have "path = ''''" using that e unfolding m by auto
      then show False using cleanPath_rooted [OF assms(1)] by (simp add: starts_slash_def)
    qed
    then show "pPath (fst x) = path \<or> ends_slash path \<or> (\<forall>(q, k) \<in> set mux. pPath q \<noteq> path @ ''/'')" by fastforce
  qed
qed

section \<open>Properties\<close>

text \<open>
  C34. The routers do what the handler tables say: registering the patterns of the three services
  causes no conflict, so none of them panics at its start, and for every method and every clean
  path the mux serves exactly the handler of the table; in the leaderboard service every request
  that is not for one of its endpoints, other methods on their paths included, goes to the
  dashboard's file server.
\<close>

theorem routes_exact:
  assumes "cleanPath path = path"
  shows "\<exists>a s l. api_mux = Some a \<and> submission_mux = Some s \<and> leaderboard_mux = Some l \<and>
     (mux_dispatch verb path a = Serve r \<longleftrightarrow> RegisterRoutes verb path = Some r) \<and>
     (mux_dispatch verb path s = Serve e \<longleftrightarrow> submission_endpoint verb path = Some e) \<and>
     mux_dispatch verb path l = Serve (leaderboard_endpoint verb path)"
  using api_dispatch [OF assms api_mux_eq] submission_dispatch [OF assms submission_mux_eq] leaderboard_dispatch [OF assms leaderboard_mux_eq]
    api_mux_eq submission_mux_eq leaderboard_mux_eq by blast

theorem routes_exact_witness:
  "\<exists>a l. api_mux = Some a \<and> leaderboard_mux = Some l \<and> mux_dispatch ''DELETE'' ''/api/v1/orders/a1'' a = Serve RCancel \<and>
     mux_dispatch ''DELETE'' ''/api/v1/orders/a1'' l = Serve LbFiles"
proof -
  have "cleanPath ''/api/v1/orders/a1'' = ''/api/v1/orders/a1''" by code_simp
  from routes_exact [OF this, of "''DELETE''" RCancel SubHealth] show ?thesis
    by (auto simp: RegisterRoutes_def leaderboard_endpoint_def)
qed

text \<open>
  Without its trailing slash the path of a subtree is redirected, or refused when the method is
  another one.
\<close>

lemma trailing_slash:
  "map_option (mux_dispatch ''GET'' ''/api/v1/submissions'') submission_mux = Some (Redirect ''/api/v1/submissions/'')"
  "map_option (mux_dispatch ''GET'' ''/api/v1/orders'') api_mux = Some MethodNotAllowed"
  "map_option (mux_dispatch ''GET'' ''/api/v2/orders'') api_mux = Some NotFoundPage"
  by code_simp+

end
