(* ===== verification/Web_Dashboard.thy ===== *)
theory Web_Dashboard
  imports Leaderboard_Service Routes
begin

text \<open>
  The dashboard of \<open>web/app.js\<close> and \<open>web/index.html\<close> as a state with the handlers of its WebSocket
  and of its fetches: the standings, the rows of the table, the chart and the activity feed.  The
  number and time formats of the browser and its JSON parser are parameters, and so is whether the
  chart library, which the page loads from another host, is there.
\<close>

section \<open>Escaping\<close>

text \<open>\<open>str.replace(/c/g, r)\<close>.\<close>

definition replace_all :: "char \<Rightarrow> string \<Rightarrow> string \<Rightarrow> string" where
  "replace_all c r s = concat (map (\<lambda>x. if x = c then r else [x]) s)"

definition escapeHTML :: "string \<Rightarrow> string" where
  "escapeHTML str =
     replace_all (CHR 39) ''&#039;''
       (replace_all (CHR 34) ''&quot;''
         (replace_all CHR ''>'' ''&gt;''
           (replace_all CHR ''<'' ''&lt;''
             (replace_all CHR ''&'' ''&amp;'' str))))"

section \<open>State and handlers\<close>

record feed_item =
  itemClass :: string
  itemHTML :: string

text \<open>The nodes of the feed: the items, and the white space between the tags of the page.\<close>

datatype feed_node = FeedText string | FeedItem feed_item

fun is_item :: "feed_node \<Rightarrow> bool" where
  "is_item (FeedItem x) = True"
| "is_item (FeedText t) = False"

record row =
  rowId :: string
  rowHTML :: string

record chart =
  chLabels :: "string list"
  chTPS :: "f64 list"
  chLatency :: "f64 list"

record dashboard =
  dot :: string
  connText :: string
  leaderboardData :: "leaderboard_entry list"
  leaderboardBody :: "row list"
  chart :: "chart option"
  activityFeed :: "feed_node list"
  fetching :: nat
  sockets :: nat
  reconnects :: nat

text \<open>
  \<open>fetching\<close> counts the fetches under way, \<open>sockets\<close> the connections that are not closed and
  \<open>reconnects\<close> the pending reconnection timers.
  The formats: \<open>toLocaleString\<close> of a number, \<open>Math.round\<close>, and of a rank.
\<close>

record formats =
  locale_num :: "f64 \<Rightarrow> string"
  round_num :: "f64 \<Rightarrow> string"
  show_rank :: "nat \<Rightarrow> string"

text \<open>A line break and the indentation after it in a template.\<close>

definition brk :: "nat \<Rightarrow> string" where
  "brk n = CHR 0x0A # replicate n CHR 0x20"

definition addActivityLog :: "string \<Rightarrow> string \<Rightarrow> string \<Rightarrow> string \<Rightarrow> dashboard \<Rightarrow> dashboard" where
  "addActivityLog time sender msg type d =
     (let item = \<lparr>itemClass = ''feed-item '' @ type,
            itemHTML = brk 8 @ ''<span class=\"feed-time\">'' @ time @ ''</span>'' @
              brk 8 @ ''<span class=\"feed-msg\"><strong>'' @ escapeHTML sender @ '':</strong> '' @ escapeHTML msg @ ''</span>'' @ brk 4\<rparr>;
          feed = FeedItem item # activityFeed d
      in d\<lparr>activityFeed := (if 30 < length (filter is_item feed) then butlast feed else feed)\<rparr>)"

definition table_row :: "formats \<Rightarrow> nat \<Rightarrow> leaderboard_entry \<Rightarrow> row" where
  "table_row f i entry =
     (let rank = i + 1;
          rankClass = ''rank-val'' @ (if rank \<le> 3 then '' rank-'' @ show_rank f rank else '''')
      in \<lparr>rowId = ''sub-'' @ eSubmissionID entry,
          rowHTML =
            brk 12 @ ''<td class=\"'' @ rankClass @ ''\">'' @ show_rank f rank @ ''</td>'' @
            brk 12 @ ''<td class=\"team-name\">'' @ escapeHTML (eContestantID entry) @ ''</td>'' @
            brk 12 @ ''<td class=\"metric-val\">'' @ locale_num f (eTPS entry) @ '' orders/sec</td>'' @
            brk 12 @ ''<td class=\"latency-val\">'' @ locale_num f (eP99Latency entry) @ '' ms</td>'' @
            brk 12 @ ''<td class=\"success-val\">'' @ locale_num f (eSuccessRate entry) @ ''%</td>'' @
            brk 12 @ ''<td class=\"score-val\">'' @ round_num f (eScore entry) @ ''</td>'' @ brk 8\<rparr>)"

definition placeholder_row :: row where
  "placeholder_row = \<lparr>rowId = '''', rowHTML = brk 16 @ ''<td colspan=\"6\">No submissions recorded yet. Be the first!</td>'' @ brk 12\<rparr>"

definition updateLeaderboardTable :: "formats \<Rightarrow> dashboard \<Rightarrow> dashboard" where
  "updateLeaderboardTable f d = d\<lparr>leaderboardBody :=
     (if leaderboardData d = [] then [placeholder_row]
      else map (\<lambda>(i, e). table_row f i e) (List.enumerate 0 (leaderboardData d)))\<rparr>"

definition updateChartData :: "dashboard \<Rightarrow> dashboard" where
  "updateChartData d = (if chart d = None then d else let topTeams = take 5 (leaderboardData d) in
     d\<lparr>chart := Some \<lparr>chLabels = map eContestantID topTeams, chTPS = map eTPS topTeams, chLatency = map eP99Latency topTeams\<rparr>\<rparr>)"

text \<open>\<open>initChart\<close> throws when the library is missing.\<close>

definition initChart :: "bool \<Rightarrow> dashboard \<Rightarrow> dashboard option" where
  "initChart library d = (if library then Some (d\<lparr>chart := Some \<lparr>chLabels = [], chTPS = [], chLatency = []\<rparr>\<rparr>) else None)"

text \<open>The fetch is started, and later fails or comes back with a status and a body.\<close>

definition fetchLeaderboard :: "dashboard \<Rightarrow> dashboard" where
  "fetchLeaderboard d = d\<lparr>fetching := fetching d + 1\<rparr>"

definition fetch_returns :: "formats \<Rightarrow> string \<Rightarrow> lb_reply option \<Rightarrow> dashboard \<Rightarrow> dashboard" where
  "fetch_returns f time response d = (let d = d\<lparr>fetching := fetching d - 1\<rparr> in case response of
     Some (LbEntries es) \<Rightarrow> updateChartData (updateLeaderboardTable f (d\<lparr>leaderboardData := es\<rparr>))
   | _ \<Rightarrow> addActivityLog time ''System'' ''Failed to load initial leaderboard from server.'' ''system'' d)"

definition connectWebSocket :: "dashboard \<Rightarrow> dashboard" where
  "connectWebSocket d = d\<lparr>sockets := sockets d + 1\<rparr>"

definition onopen :: "string \<Rightarrow> dashboard \<Rightarrow> dashboard" where
  "onopen time d = addActivityLog time ''System'' ''Live update connection established.'' ''success''
     (d\<lparr>dot := ''dot connected'', connText := ''LIVE CONNECTED''\<rparr>)"

definition onclose :: "string \<Rightarrow> dashboard \<Rightarrow> dashboard" where
  "onclose time d = (let d = addActivityLog time ''System'' ''Live update connection lost. Reconnecting...'' ''system''
       (d\<lparr>dot := ''dot disconnected'', connText := ''RECONNECTING...''\<rparr>)
     in d\<lparr>sockets := sockets d - 1, reconnects := reconnects d + 1\<rparr>)"

text \<open>
  \<open>onmessage\<close>: a frame that \<open>JSON.parse\<close> refuses is only reported on the console; an update of
  type \<open>new_run\<close>, the only type that is published, is logged and the standings are fetched anew.
\<close>

definition onmessage :: "formats \<Rightarrow> (string \<Rightarrow> run_event option) \<Rightarrow> string \<Rightarrow> string \<Rightarrow> dashboard \<Rightarrow> dashboard" where
  "onmessage f JSON_parse time dat d = (case JSON_parse dat of
     None \<Rightarrow> d
   | Some (_, contestant, sc) \<Rightarrow>
       fetchLeaderboard (addActivityLog time contestant
         (''Team '' @ contestant @ '' completed a new run! New Score: '' @ round_num f sc) ''success'' d))"

text \<open>The page as \<open>index.html\<close> has it, and after the handler of \<open>DOMContentLoaded\<close>.\<close>

definition loading_row :: row where
  "loading_row = \<lparr>rowId = '''', rowHTML = brk 32 @ ''<td colspan=\"6\">Loading live leaderboard data...</td>'' @ brk 28\<rparr>"

definition first_item :: feed_item where
  "first_item = \<lparr>itemClass = ''feed-item system'',
     itemHTML = brk 28 @ ''<span class=\"feed-time\">System</span>'' @
       brk 28 @ ''<span class=\"feed-msg\">Subscribing to active benchmark events...</span>'' @ brk 24\<rparr>"

definition page_html :: dashboard where
  "page_html = \<lparr>dot = ''dot disconnected'', connText = ''DISCONNECTED'', leaderboardData = [], leaderboardBody = [loading_row],
     chart = None, activityFeed = [FeedText (brk 24), FeedItem first_item, FeedText (brk 20)], fetching = 0, sockets = 0, reconnects = 0\<rparr>"

definition page_loaded :: "bool \<Rightarrow> dashboard" where
  "page_loaded library = (case initChart library page_html of
     None \<Rightarrow> page_html
   | Some d \<Rightarrow> connectWebSocket (fetchLeaderboard d))"

inductive dash_run :: "formats \<Rightarrow> (string \<Rightarrow> run_event option) \<Rightarrow> bool \<Rightarrow> dashboard \<Rightarrow> bool" for f JSON_parse library where
  load: "dash_run f JSON_parse library (page_loaded library)"
| opened: "dash_run f JSON_parse library d \<Longrightarrow> 0 < sockets d \<Longrightarrow> dash_run f JSON_parse library (onopen time d)"
| closed: "dash_run f JSON_parse library d \<Longrightarrow> 0 < sockets d \<Longrightarrow> dash_run f JSON_parse library (onclose time d)"
| message: "dash_run f JSON_parse library d \<Longrightarrow> 0 < sockets d \<Longrightarrow> dash_run f JSON_parse library (onmessage f JSON_parse time dat d)"
| fetched: "dash_run f JSON_parse library d \<Longrightarrow> 0 < fetching d \<Longrightarrow> dash_run f JSON_parse library (fetch_returns f time response d)"
| timer: "dash_run f JSON_parse library d \<Longrightarrow> 0 < reconnects d \<Longrightarrow>
    dash_run f JSON_parse library (connectWebSocket (d\<lparr>reconnects := reconnects d - 1\<rparr>))"

section \<open>Addresses and elements\<close>

definition apiUrl :: string where "apiUrl = ''/api/v1/leaderboard''"

definition wsPath :: string where "wsPath = ''/ws/leaderboard/live''"

definition wsUrl :: "string \<Rightarrow> string \<Rightarrow> string" where
  "wsUrl protocol host = (if protocol = ''https:'' then ''wss:'' else ''ws:'') @ ''//'' @ host @ wsPath"

text \<open>The identifiers that the page defines and those that the script looks up.\<close>

definition page_ids :: "string list" where
  "page_ids = [''connection-dot'', ''connection-text'', ''leaderboard-table'', ''leaderboard-body'', ''performance-chart'', ''activity-feed'']"

definition script_ids :: "string list" where
  "script_ids = [''connection-dot'', ''connection-text'', ''leaderboard-body'', ''activity-feed'', ''performance-chart'']"

text \<open>Every element the script looks up exists, and the service that serves the page serves its requests.\<close>

lemma page_wiring:
  "set script_ids \<subseteq> set page_ids" "leaderboard_endpoint ''GET'' apiUrl = LbBoard" "leaderboard_endpoint ''GET'' wsPath = LbLive"
  by (simp_all add: script_ids_def page_ids_def leaderboard_endpoint_def apiUrl_def wsPath_def)

section \<open>Escaping is faithful and leaves no markup\<close>

definition entity :: "char \<Rightarrow> string" where
  "entity c = (if c = CHR ''&'' then ''&amp;'' else if c = CHR ''<'' then ''&lt;'' else if c = CHR ''>'' then ''&gt;''
     else if c = CHR 34 then ''&quot;'' else if c = CHR 39 then ''&#039;'' else [c])"

lemma replace_all_simps [simp]:
  "replace_all c r [] = []" "replace_all c r (x # xs) = (if x = c then r else [x]) @ replace_all c r xs"
  "replace_all c r (xs @ ys) = replace_all c r xs @ replace_all c r ys"
  by (simp_all add: replace_all_def)

text \<open>The five passes, ampersands first, amount to replacing each character once.\<close>

lemma escapeHTML_simps: "escapeHTML [] = []" "escapeHTML (c # s) = entity c @ escapeHTML s"
  by (simp_all add: escapeHTML_def entity_def)

text \<open>How a browser reads the text back.\<close>

fun html_text :: "string \<Rightarrow> string" where
  "html_text [] = []"
| "html_text (c # cs) =
     (if c = CHR ''&'' then
        (if prefix ''amp;'' cs then CHR ''&'' # html_text (drop 4 cs)
         else if prefix ''lt;'' cs then CHR ''<'' # html_text (drop 3 cs)
         else if prefix ''gt;'' cs then CHR ''>'' # html_text (drop 3 cs)
         else if prefix ''quot;'' cs then CHR 34 # html_text (drop 5 cs)
         else if prefix ''#039;'' cs then CHR 39 # html_text (drop 5 cs)
         else c # html_text cs)
      else c # html_text cs)"

lemma html_text_entity: "html_text (entity c @ t) = c # html_text t"
  by (simp add: entity_def)

definition markup :: "char set" where
  "markup = {CHR ''<'', CHR ''>'', CHR 34, CHR 39}"

lemma entity_safe: "set (entity c) \<inter> markup = {}"
  by (simp add: entity_def markup_def)

lemma escapeHTML_safe: "set (escapeHTML s) \<inter> markup = {}"
  by (induction s) (simp_all add: escapeHTML_simps Int_Un_distrib2 entity_safe)

lemma escapeHTML_count: "c \<in> markup \<Longrightarrow> count_list (escapeHTML s) c = 0"
  using escapeHTML_safe [of s] by (auto simp: count_list_0_iff)

section \<open>Invariants of the page\<close>

text \<open>
  The feed: when an item too many is there, the last node is removed, which at first is not an
  item but white space of the page.  The two pieces of white space make the feed grow to 32 items.
\<close>

definition page_nodes :: "feed_node list" where
  "page_nodes = [FeedText (brk 24), FeedItem first_item, FeedText (brk 20)]"

text \<open>The feed after \<open>n\<close> entries, up to the 32 at which it stays.\<close>

definition feed_state :: "nat \<Rightarrow> feed_node list \<Rightarrow> bool" where
  "feed_state n feed \<longleftrightarrow> n \<le> 32 \<and> (\<exists>items. length items = n \<and> feed = map FeedItem items @ take (32 - n) page_nodes)"

lemma is_item_map [simp]: "filter is_item (map FeedItem items) = map FeedItem items"
  by (induction items) simp_all

lemma page_nodes_take:
  "3 \<le> k \<Longrightarrow> take k page_nodes = page_nodes" "take 2 page_nodes = [FeedText (brk 24), FeedItem first_item]"
  "take (Suc 0) page_nodes = [FeedText (brk 24)]" "length (filter is_item page_nodes) = 1" "page_nodes \<noteq> []"
  "butlast page_nodes = take 2 page_nodes"
  by (simp_all add: page_nodes_def numeral_2_eq_2)

lemma feed_state_add:
  assumes "feed_state n feed"
  shows "feed_state (min 32 (n + 1)) (if 30 < length (filter is_item (FeedItem x # feed)) then butlast (FeedItem x # feed) else FeedItem x # feed)"
proof -
  obtain items where f: "length items = n" "feed = map FeedItem items @ take (32 - n) page_nodes" and n: "n \<le> 32"
    using assms unfolding feed_state_def by blast
  have st: "feed_state m (map FeedItem xs @ take (32 - m) page_nodes)" if "length xs = m" "m \<le> 32" for xs m
    using that unfolding feed_state_def by blast
  consider "n \<le> 28" | "n = 29" | "n = 30" | "n = 31" | "n = 32" using n by linarith
  then show ?thesis
  proof cases
    case 1
    then show ?thesis using st [of "x # items" "n + 1"] f by (simp add: page_nodes_take)
  next
    case 2
    then show ?thesis using st [of "x # items" 30] f by (simp add: page_nodes_take butlast_append)
  next
    case 3
    then show ?thesis using st [of "x # items" 31] f by (simp add: page_nodes_take butlast_append)
  next
    case 4
    then show ?thesis using st [of "x # items" 32] f by (simp add: page_nodes_take butlast_append)
  next
    case 5
    then have "items \<noteq> []" using f(1) by auto
    then show ?thesis using 5 st [of "x # butlast items" 32] f by (simp add: map_butlast)
  qed
qed

lemma feed_state_items: "feed_state n feed \<Longrightarrow> length (filter is_item feed) \<le> 32" "feed_state 32 feed \<Longrightarrow> length (filter is_item feed) = 32"
proof -
  show "length (filter is_item feed) = 32" if "feed_state 32 feed" using that by (auto simp: feed_state_def)
  assume "feed_state n feed"
  then obtain items where "length items = n" "feed = map FeedItem items @ take (32 - n) page_nodes" "n \<le> 32" by (auto simp: feed_state_def)
  moreover have "length (filter is_item (take (32 - n) page_nodes)) \<le> 32 - n"
    by (rule order.trans [OF length_filter_le]) (simp add: min.coboundedI2)
  ultimately show "length (filter is_item feed) \<le> 32" by simp
qed

lemma log_feed: "feed_state n (activityFeed d) \<Longrightarrow> feed_state (min 32 (n + 1)) (activityFeed (addActivityLog time a b t d))"
  using feed_state_add by (simp add: addActivityLog_def Let_def)

lemma log_frame [simp]:
  "leaderboardData (addActivityLog time a b t d) = leaderboardData d" "leaderboardBody (addActivityLog time a b t d) = leaderboardBody d"
  "chart (addActivityLog time a b t d) = chart d" "fetching (addActivityLog time a b t d) = fetching d"
  "sockets (addActivityLog time a b t d) = sockets d" "reconnects (addActivityLog time a b t d) = reconnects d"
  by (simp_all add: addActivityLog_def Let_def)

definition page_ok :: "formats \<Rightarrow> dashboard \<Rightarrow> bool" where
  "page_ok f d \<longleftrightarrow> (\<exists>n. feed_state n (activityFeed d)) \<and>
     (leaderboardBody d = [loading_row] \<and> leaderboardData d = [] \<or> leaderboardBody d = leaderboardBody (updateLeaderboardTable f d)) \<and>
     chart d = Some \<lparr>chLabels = map eContestantID (take 5 (leaderboardData d)), chTPS = map eTPS (take 5 (leaderboardData d)),
       chLatency = map eP99Latency (take 5 (leaderboardData d))\<rparr> \<and>
     sockets d + reconnects d = 1"

lemma page_ok_log: "page_ok f d \<Longrightarrow> page_ok f (addActivityLog time a b t d)"
  using log_feed [of _ d time a b t] unfolding page_ok_def by (auto simp: updateLeaderboardTable_def)

lemma page_ok_frame:
  "page_ok f d \<Longrightarrow> activityFeed d' = activityFeed d \<Longrightarrow> leaderboardData d' = leaderboardData d \<Longrightarrow> leaderboardBody d' = leaderboardBody d \<Longrightarrow>
   chart d' = chart d \<Longrightarrow> sockets d' + reconnects d' = sockets d + reconnects d \<Longrightarrow> page_ok f d'"
  by (auto simp: page_ok_def updateLeaderboardTable_def split: if_splits)

lemma page_loaded_feed: "feed_state 0 (activityFeed (page_loaded True))" "sockets (page_loaded True) = 1"
  by (simp_all add: feed_state_def page_nodes_def page_loaded_def initChart_def page_html_def connectWebSocket_def fetchLeaderboard_def)

lemma dash_run_ok: "dash_run f JSON_parse True d \<Longrightarrow> page_ok f d"
proof (induction rule: dash_run.induct)
  case load
  from page_loaded_feed show ?case by (auto simp add: page_loaded_def initChart_def page_html_def connectWebSocket_def fetchLeaderboard_def page_ok_def)
next
  case (opened d time)
  then show ?case unfolding onopen_def by (intro page_ok_log) (auto intro: page_ok_frame)
next
  case (closed d time)
  let ?d = "d\<lparr>dot := ''dot disconnected'', connText := ''RECONNECTING...''\<rparr>"
  have "page_ok f ?d" by (rule page_ok_frame [OF closed.IH]) simp_all
  from page_ok_log [OF this] show ?case unfolding onclose_def Let_def by (rule page_ok_frame) (use closed.hyps in simp_all)
next
  case (message d time dat)
  then show ?case unfolding onmessage_def fetchLeaderboard_def
    by (auto split: option.splits intro: page_ok_frame [OF page_ok_log])
next
  case (fetched d time response)
  have d: "page_ok f (d\<lparr>fetching := fetching d - 1\<rparr>)" by (rule page_ok_frame [OF fetched.IH]) simp_all
  show ?case
  proof (cases "\<exists>es. response = Some (LbEntries es)")
    case True
    then show ?thesis using d
      by (auto simp: fetch_returns_def Let_def page_ok_def updateChartData_def updateLeaderboardTable_def)
  next
    case False
    then have "fetch_returns f time response d =
        addActivityLog time ''System'' ''Failed to load initial leaderboard from server.'' ''system'' (d\<lparr>fetching := fetching d - 1\<rparr>)"
      by (auto simp: fetch_returns_def Let_def split: option.splits lb_reply.splits)
    then show ?thesis using page_ok_log [OF d] by simp
  qed
next
  case (timer d)
  show ?case unfolding connectWebSocket_def by (rule page_ok_frame [OF timer.IH]) (use timer.hyps in simp_all)
qed

text \<open>The bound of 32 is reached, although the script means to keep thirty items.\<close>

lemma feed_limit_missed: "\<exists>d. dash_run f JSON_parse True d \<and> length (filter is_item (activityFeed d)) = 32"
proof -
  have "\<exists>d. dash_run f JSON_parse True d \<and> sockets d = 1 \<and> feed_state n (activityFeed d)" if "n \<le> 32" for n
    using that
  proof (induction n)
    case 0
    then show ?case using dash_run.load page_loaded_feed by blast
  next
    case (Suc n)
    then obtain d where d: "dash_run f JSON_parse True d" "sockets d = 1" "feed_state n (activityFeed d)" by auto
    then have "dash_run f JSON_parse True (onopen t d)" for t by (intro dash_run.opened) simp_all
    moreover have "sockets (onopen t d) = 1" for t using d(2) by (simp add: onopen_def)
    moreover have "feed_state (min 32 (n + 1)) (activityFeed (onopen t d))" for t
      unfolding onopen_def by (rule log_feed) (simp add: d(3))
    ultimately show ?case using Suc.prems by (metis Suc_eq_plus1 min.absorb2)
  qed
  then show ?thesis using feed_state_items(2) by blast
qed

text \<open>Without the chart library the page stays as it was sent: nothing is fetched and nothing connected.\<close>

lemma no_library_no_page: "dash_run f JSON_parse False d \<Longrightarrow> d = page_html"
  by (induction rule: dash_run.induct) (simp_all add: page_loaded_def initChart_def page_html_def)

section \<open>Properties\<close>

text \<open>The formats of numbers contain no markup.\<close>

definition plain_formats :: "formats \<Rightarrow> bool" where
  "plain_formats f \<longleftrightarrow> (\<forall>x. CHR ''<'' \<notin> set (locale_num f x) \<union> set (round_num f x)) \<and> (\<forall>n. CHR ''<'' \<notin> set (show_rank f n))"

lemma count_brk: "count_list (brk n) CHR ''<'' = 0"
  by (simp add: brk_def count_list_0_iff)

lemma row_tags:
  assumes "plain_formats f"
  shows "count_list (rowHTML (table_row f i e)) CHR ''<'' = 12"
proof -
  have "count_list (locale_num f x) CHR ''<'' = 0" "count_list (round_num f x) CHR ''<'' = 0" "count_list (show_rank f n) CHR ''<'' = 0" for x n
    using assms by (simp_all add: plain_formats_def count_list_0_iff)
  moreover have "count_list (escapeHTML s) CHR ''<'' = 0" for s by (rule escapeHTML_count) (simp add: markup_def)
  ultimately show ?thesis by (simp add: table_row_def Let_def count_brk)
qed


definition ex_formats :: formats where
  "ex_formats = \<lparr>locale_num = (\<lambda>_. ''1,000''), round_num = (\<lambda>_. ''1000''), show_rank = (\<lambda>n. ''1'')\<rparr>"

definition ex_entry :: leaderboard_entry where
  "ex_entry = \<lparr>eSubmissionID = ''s1'', eContestantID = ''<b>&x'', eTPS = Fin False 1000, eP99Latency = Fin False 1, eSuccessRate = Fin False 1,
     eScore = Fin False 1000, eTimestamp = 0\<rparr>"


text \<open>
  C39. Updates that reach a dashboard in one frame are missed: the hub delivers two runs that were
  queued together in a single frame, as it is meant to, but \<open>JSON.parse\<close> refuses two JSON texts
  in one string, so the dashboard neither logs them nor fetches the new standings; in frames of
  their own each of them would have caused a fetch.
\<close>

theorem coalesced_updates_missed:
  assumes "\<forall>ms. 2 \<le> length ms \<longrightarrow> JSON_parse (frame_bytes (map Marshal ms)) = None"
    and "JSON_parse (Marshal ev1) = Some ev1" "JSON_parse (Marshal ev2) = Some ev2"
  shows "\<exists>h x. lb_run h [ev1, ev2] (\<lambda>_. 0) \<and> lchans h 0 = Some x \<and> lwriting x \<and> lframes x = [[ev1, ev2]] \<and>
     fold (\<lambda>fr. onmessage f JSON_parse time (frame_bytes (map Marshal fr))) (lframes x) d = d \<and>
     fetching (fold (\<lambda>fr. onmessage f JSON_parse time (frame_bytes (map Marshal fr))) [[ev1], [ev2]] d) = fetching d + 2"
proof -
  define c where "c s fr = \<lparr>lsend = s, lclosed = False, lframes = fr, lreading = True, lwriting = True, lpump = PumpSelect\<rparr>" for s :: "run_event list" and fr
  define h where "h s fr = (lb_NewHub :: run_event lhub)\<lparr>lclients := {0}, lchans := [0 \<mapsto> c s fr]\<rparr>" for s fr
  have "lb_run (h [] []) [] ((\<lambda>_. 0)(0 := length ([] :: run_event list)))"
    using lb_run.serve [OF lb_run.init, of 0] by (simp add: h_def c_def lb_ServeWs_def set_client_def lb_NewHub_def)
  then have r0: "lb_run (h [] []) [] (\<lambda>_. 0)" by (simp add: fun_upd_idem)
  have b: "lb_broadcast [0] m (h s []) = Some (h (s @ [m]) [])" if "length s < 2" for m s
    using that by (simp add: h_def c_def lb_offer_def set_client_def lsend_cap_def lb_NewHub_def)
  have cl: "set [0] = lclients (h s fr)" "distinct [0 :: nat]" "lchans (h s fr) 0 = Some (c s fr)" for s fr by (simp_all add: h_def)
  have r1: "lb_run (h [ev1] []) ([] @ [ev1]) (\<lambda>_. 0)" using lb_run.bcast [OF r0 cl(2,1) b] by simp
  have r2: "lb_run (h [ev1, ev2] []) [ev1, ev2] (\<lambda>_. 0)" using lb_run.bcast [OF r1 cl(2,1) b] by simp
  have "set_client 0 (c [] [[ev1, ev2]]) (h [ev1, ev2] []) = h [] [[ev1, ev2]]" by (simp add: h_def set_client_def)
  then have r3: "lb_run (h [] [[ev1, ev2]]) [ev1, ev2] (\<lambda>_. 0)" using lb_run_frame [OF r2 cl(3)] by (simp add: c_def)
  have "JSON_parse (frame_bytes (map Marshal [ev1, ev2])) = None" using assms(1) by (metis length_Cons list.size(3) numeral_2_eq_2 order_refl)
  then have "fold (\<lambda>fr. onmessage f JSON_parse time (frame_bytes (map Marshal fr))) [[ev1, ev2]] d = d" by (simp add: onmessage_def)
  moreover have "fetching (fold (\<lambda>fr. onmessage f JSON_parse time (frame_bytes (map Marshal fr))) [[ev1], [ev2]] d) = fetching d + 2"
    using assms(2,3) by (simp add: onmessage_def fetchLeaderboard_def split: prod.splits)
  ultimately show ?thesis using r3 cl(3) [of "[]" "[[ev1, ev2]]"]
    by (intro exI [of _ "h [] [[ev1, ev2]]"] exI [of _ "c [] [[ev1, ev2]]"]) (simp add: c_def)
qed

theorem coalesced_updates_missed_witness:
  "\<exists>h x. lb_run h [(''s1'', ''c1'', Fin False 1), (''s1'', ''c1'', Fin False 1)] (\<lambda>_. 0) \<and> lchans h 0 = Some x \<and>
     fold (\<lambda>fr. onmessage ex_formats (\<lambda>s. if s = ''{}'' then Some (''s1'', ''c1'', Fin False 1) else None) ''12:00''
       (frame_bytes (map (\<lambda>_. ''{}'') fr))) (lframes x) (page_loaded True) = page_loaded True"
proof -
  let ?J = "\<lambda>s. if s = ''{}'' then Some (''s1'', ''c1'', Fin False 1) else None" and ?M = "\<lambda>_ :: run_event. ''{}''"
  have "?J (frame_bytes (map ?M ms)) = None" if "2 \<le> length ms" for ms
    using that by (cases "map ?M ms" rule: frame_bytes.cases) (auto simp: Suc_le_length_iff numeral_2_eq_2)
  then show ?thesis
    using coalesced_updates_missed [of ?J ?M "(''s1'', ''c1'', Fin False 1)" "(''s1'', ''c1'', Fin False 1)" ex_formats "''12:00''" "page_loaded True"]
    by auto
qed

end
