(* ===== verification/Loadgen.thy ===== *)
theory Loadgen
  imports Api_Server "HOL-Library.Signed_Division" "HOL-Library.Multiset"
begin

text \<open>
  The load generator of \<open>pkg/loadgen\<close>: the orders of \<open>NoiseTraderBot\<close> and its handling of each
  response (\<open>profiles.go\<close>), and \<open>Orchestrator.Run\<close> (\<open>orchestrator.go\<close>) with its bots, metrics
  channel and collector as goroutines, whose interleavings are the runs of \<open>lg_step\<close>.  The
  random source is a parameter; \<open>Intn_ok\<close> is its documented range.
\<close>

lemma sdiv_nonneg: "0 \<le> x \<Longrightarrow> 0 < y \<Longrightarrow> x sdiv y = x div (y :: int)"
  by (cases "x = 0") (simp_all add: signed_divide_int_def)

section \<open>Orders\<close>

definition Intn_ok :: "(nat \<Rightarrow> 'g \<Rightarrow> nat \<times> 'g) \<Rightarrow> bool" where
  "Intn_ok Intn \<longleftrightarrow> (\<forall>n g. 0 < n \<longrightarrow> fst (Intn n g) < n)"

text \<open>The request has the fields and the JSON names of the request of the API server.\<close>

definition noise_order :: "(nat \<Rightarrow> 'g \<Rightarrow> nat \<times> 'g) \<Rightarrow> string \<Rightarrow> 'g \<Rightarrow> placeOrderReq \<times> 'g" where
  "noise_order Intn uuid g0 =
     (let (side, g1) = Intn 2 g0;
          (orderType, g2) = Intn 2 g1;
          (r, g3) = Intn 2000 g2;
          price = (if orderType = 1 then 0 else of_nat (10000 + r));
          (q, g4) = Intn 100 g3
      in (\<lparr>bID = uuid, bSide = int side, bType = int orderType, bPrice = price, bQuantity = of_nat (1 + q)\<rparr>, g4))"

section \<open>Bots\<close>

record latency_metric =
  mLatency :: int
  mIsSuccess :: bool

text \<open>What comes of a tick: the request cannot be built, \<open>Do\<close> fails, or a status arrives.\<close>

datatype http_result = NewRequestError | DoError | StatusCode nat

definition bot_metric :: "http_result \<Rightarrow> int \<Rightarrow> latency_metric option" where
  "bot_metric res latency = (case res of
     NewRequestError \<Rightarrow> None
   | DoError \<Rightarrow> Some \<lparr>mLatency = latency, mIsSuccess = False\<rparr>
   | StatusCode c \<Rightarrow> Some \<lparr>mLatency = latency, mIsSuccess = (c = 200)\<rparr>)"

text \<open>The interval of the ticker; a division by zero and an interval that is not positive panic.\<close>

definition ticker_interval :: "int \<Rightarrow> int option" where
  "ticker_interval TPS = (if TPS = 0 then None else
     let d = 10 ^ 9 sdiv TPS in if d \<le> 0 then None else Some d)"

section \<open>The orchestrator\<close>

record orchestrator =
  Endpoint :: string
  TotalTPS :: int
  Duration :: int
  NumBots :: int

definition tpsPerBot :: "orchestrator \<Rightarrow> int option" where
  "tpsPerBot orc = (if NumBots orc = 0 then None else
     let t = TotalTPS orc sdiv NumBots orc in Some (if t < 1 then 1 else t))"

record run_stats =
  totalRequests :: nat
  successCount :: nat
  totalLatency :: "64 word"

definition zero_stats :: run_stats where
  "zero_stats = \<lparr>totalRequests = 0, successCount = 0, totalLatency = 0\<rparr>"

text \<open>One iteration of the collector.\<close>

definition collect :: "latency_metric \<Rightarrow> run_stats \<Rightarrow> run_stats" where
  "collect m st = \<lparr>totalRequests = totalRequests st + 1,
     successCount = (if mIsSuccess m then successCount st + 1 else successCount st),
     totalLatency = totalLatency st + word_of_int (mLatency m)\<rparr>"

definition average_latency :: "run_stats \<Rightarrow> int option" where
  "average_latency st = (if 0 < totalRequests st then Some (sint (totalLatency st) sdiv int (totalRequests st)) else None)"

datatype bot_pc = Ticking | SendingMetric latency_metric | Exited

text \<open>
  \<open>expired\<close> is the context's deadline, \<open>metrics\<close> the buffer of \<open>metricsChan\<close> with its capacity,
  \<open>produced\<close> the measurements the bots have made so far, in any order.
\<close>

record load_run =
  bots :: "bot_pc list"
  expired :: bool
  metrics :: "latency_metric list"
  metricsCap :: nat
  metricsClosed :: bool
  stats :: run_stats
  metricsDone :: bool
  report :: "run_stats option"
  produced :: "latency_metric multiset"

text \<open>
  The start of \<open>Run\<close>: \<open>make\<close> with a negative size, the division by zero and a ticker without
  a positive interval, in a bot, panic and end the program.  A timeout that is not positive has
  expired from the beginning.
\<close>

definition run_start :: "orchestrator \<Rightarrow> load_run option" where
  "run_start orc = (let cap = sint (word_of_int (TotalTPS orc * 10) :: 64 word) in
     if cap < 0 then None
     else do {
       tps \<leftarrow> tpsPerBot orc;
       _ \<leftarrow> (if 0 < NumBots orc then ticker_interval tps else Some 0);
       Some \<lparr>bots = replicate (nat (NumBots orc)) Ticking, expired = (Duration orc \<le> 0), metrics = [], metricsCap = nat cap,
         metricsClosed = False, stats = zero_stats, metricsDone = False, report = None, produced = {#}\<rparr> })"

text \<open>A send on a closed channel panics.\<close>

definition send_metric :: "nat \<Rightarrow> latency_metric \<Rightarrow> load_run \<Rightarrow> load_run option" where
  "send_metric i m s = (if metricsClosed s then None
     else Some (s\<lparr>metrics := metrics s @ [m], bots := (bots s)[i := Ticking]\<rparr>))"

text \<open>The send to a collector that is waiting, which needs no room in the buffer.\<close>

definition hand_metric :: "nat \<Rightarrow> latency_metric \<Rightarrow> load_run \<Rightarrow> load_run option" where
  "hand_metric i m s = (if metricsClosed s then None
     else Some (s\<lparr>stats := collect m (stats s), bots := (bots s)[i := Ticking]\<rparr>))"

inductive lg_step :: "load_run \<Rightarrow> load_run \<Rightarrow> bool" where
  expire: "lg_step s (s\<lparr>expired := True\<rparr>)"
| skip: "i < length (bots s) \<Longrightarrow> bots s ! i = Ticking \<Longrightarrow> bot_metric res latency = None \<Longrightarrow> lg_step s s"
| tick: "i < length (bots s) \<Longrightarrow> bots s ! i = Ticking \<Longrightarrow> bot_metric res latency = Some m \<Longrightarrow>
    lg_step s (s\<lparr>bots := (bots s)[i := SendingMetric m], produced := add_mset m (produced s)\<rparr>)"
| send: "i < length (bots s) \<Longrightarrow> bots s ! i = SendingMetric m \<Longrightarrow> length (metrics s) < metricsCap s \<Longrightarrow>
    send_metric i m s = Some s' \<Longrightarrow> lg_step s s'"
| hand: "i < length (bots s) \<Longrightarrow> bots s ! i = SendingMetric m \<Longrightarrow> metrics s = [] \<Longrightarrow> \<not> metricsDone s \<Longrightarrow>
    hand_metric i m s = Some s' \<Longrightarrow> lg_step s s'"
| leave: "i < length (bots s) \<Longrightarrow> bots s ! i = Ticking \<Longrightarrow> expired s \<Longrightarrow> lg_step s (s\<lparr>bots := (bots s)[i := Exited]\<rparr>)"
| receive: "metrics s = m # ms \<Longrightarrow> lg_step s (s\<lparr>metrics := ms, stats := collect m (stats s)\<rparr>)"
| close: "\<forall>b \<in> set (bots s). b = Exited \<Longrightarrow> \<not> metricsClosed s \<Longrightarrow> lg_step s (s\<lparr>metricsClosed := True\<rparr>)"
| drained: "metricsClosed s \<Longrightarrow> metrics s = [] \<Longrightarrow> lg_step s (s\<lparr>metricsDone := True\<rparr>)"
| print: "metricsDone s \<Longrightarrow> report s = None \<Longrightarrow> lg_step s (s\<lparr>report := Some (stats s)\<rparr>)"

inductive lg_reachable :: "orchestrator \<Rightarrow> load_run \<Rightarrow> bool" for orc where
  init: "run_start orc = Some s \<Longrightarrow> lg_reachable orc s"
| step: "lg_reachable orc s \<Longrightarrow> lg_step s s' \<Longrightarrow> lg_reachable orc s'"

section \<open>The accounting invariant\<close>

text \<open>The statistics of a collection of measurements, whatever their order.\<close>

definition summary :: "latency_metric multiset \<Rightarrow> run_stats" where
  "summary M = \<lparr>totalRequests = size M, successCount = size (filter_mset mIsSuccess M),
     totalLatency = (\<Sum>m \<in># M. word_of_int (mLatency m))\<rparr>"

lemma collect_summary [simp]: "collect m (summary M) = summary (add_mset m M)"
  by (simp add: collect_def summary_def add.commute)

fun in_flight :: "bot_pc \<Rightarrow> latency_metric multiset" where
  "in_flight (SendingMetric m) = {#m#}"
| "in_flight _ = {#}"

definition flying :: "bot_pc list \<Rightarrow> latency_metric multiset" where
  "flying bs = sum_list (map in_flight bs)"

lemma flying_update:
  assumes "i < length bs"
  shows "flying (bs[i := b]) + in_flight (bs ! i) = flying bs + in_flight b"
proof -
  have "bs = take i bs @ bs ! i # drop (Suc i) bs" using assms by (rule id_take_nth_drop)
  then have "flying bs = flying (take i bs) + in_flight (bs ! i) + flying (drop (Suc i) bs)"
    unfolding flying_def by (metis (no_types, lifting) list.simps(9) map_append sum_list.Cons sum_list.append add.assoc)
  moreover have "flying (bs[i := b]) = flying (take i bs) + in_flight b + flying (drop (Suc i) bs)"
    using assms by (simp add: flying_def upd_conv_take_nth_drop)
  ultimately show ?thesis by simp
qed

lemma flying_ticking: "flying (replicate n Ticking) = {#}"
  by (induction n) (simp_all add: flying_def)

lemma flying_exited: "\<forall>b \<in> set bs. b = Exited \<Longrightarrow> flying bs = {#}"
  by (induction bs) (auto simp: flying_def)

text \<open>
  Every measurement is in flight in a bot, in the buffer or counted; the channel is closed only
  after all bots have gone, and the report is made only after the buffer has been drained.
\<close>

definition accounted :: "load_run \<Rightarrow> bool" where
  "accounted s \<longleftrightarrow> (\<exists>C. stats s = summary C \<and> produced s = C + mset (metrics s) + flying (bots s)) \<and>
     (metricsClosed s \<longrightarrow> (\<forall>b \<in> set (bots s). b = Exited)) \<and> (metricsDone s \<longrightarrow> metricsClosed s \<and> metrics s = []) \<and>
     (\<forall>st. report s = Some st \<longrightarrow> metricsDone s \<and> st = stats s)"

lemma accountedI:
  "stats s = summary C \<Longrightarrow> produced s = C + mset (metrics s) + flying (bots s) \<Longrightarrow>
   (metricsClosed s \<Longrightarrow> \<forall>b \<in> set (bots s). b = Exited) \<Longrightarrow> (metricsDone s \<Longrightarrow> metricsClosed s \<and> metrics s = []) \<Longrightarrow>
   (\<And>st. report s = Some st \<Longrightarrow> metricsDone s \<and> st = stats s) \<Longrightarrow> accounted s"
  by (auto simp: accounted_def)

lemma accounted_step:
  assumes "lg_step s s'" "accounted s"
  shows "accounted s'"
proof -
  obtain C where C: "stats s = summary C" "produced s = C + mset (metrics s) + flying (bots s)"
    using assms(2) unfolding accounted_def by blast
  have cl: "metricsClosed s \<Longrightarrow> \<forall>b \<in> set (bots s). b = Exited" and dn: "metricsDone s \<Longrightarrow> metricsClosed s \<and> metrics s = []"
    and rp: "\<And>st. report s = Some st \<Longrightarrow> metricsDone s \<and> st = stats s"
    using assms(2) unfolding accounted_def by blast+
  have open_bot: "\<not> metricsClosed s \<and> \<not> metricsDone s \<and> report s = None" if "i < length (bots s)" "bots s ! i \<noteq> Exited" for i
    using cl dn rp that by (cases "report s") (auto simp: nth_mem)
  show ?thesis using assms(1)
  proof cases
    case (tick i res latency m)
    then show ?thesis using C open_bot [of i] flying_update [OF tick(2), of "SendingMetric m"] by (intro accountedI [of _ C]) auto
  next
    case (send i m)
    then show ?thesis using C open_bot [of i] flying_update [OF send(1), of Ticking]
      by (intro accountedI [of _ C]) (auto simp: send_metric_def)
  next
    case (hand i m)
    then show ?thesis using C open_bot [of i] flying_update [OF hand(1), of Ticking]
      by (intro accountedI [of _ "add_mset m C"]) (auto simp: hand_metric_def)
  next
    case (leave i)
    then show ?thesis using C open_bot [of i] flying_update [OF leave(2), of Exited] by (intro accountedI [of _ C]) auto
  next
    case (receive m ms)
    then show ?thesis using C cl dn rp by (intro accountedI [of _ "add_mset m C"]) auto
  qed (use C cl dn rp in \<open>auto intro!: accountedI [of _ C]\<close>)
qed

lemma reachable_accounted: "lg_reachable orc s \<Longrightarrow> accounted s"
proof (induction rule: lg_reachable.induct)
  case (init s)
  then show ?case
    by (auto simp: run_start_def Let_def zero_stats_def summary_def flying_ticking flying_exited bind_eq_Some_conv
        intro!: accountedI [of _ "{#}"] split: if_splits)
qed (rule accounted_step)

section \<open>Progress\<close>

fun bot_work :: "bot_pc \<Rightarrow> nat" where
  "bot_work Ticking = 1"
| "bot_work (SendingMetric m) = 3"
| "bot_work Exited = 0"

definition work_left :: "load_run \<Rightarrow> nat" where
  "work_left s = sum_list (map bot_work (bots s)) + length (metrics s) + of_bool (\<not> metricsClosed s) +
     of_bool (\<not> metricsDone s) + of_bool (report s = None)"

lemma work_update:
  assumes "i < length bs" "bot_work b < bot_work (bs ! i)"
  shows "sum_list (map bot_work (bs[i := b])) + bot_work (bs ! i) = sum_list (map bot_work bs) + bot_work b"
proof -
  have "sum_list (map bot_work bs) = sum_list (map bot_work (take i bs)) + (bot_work (bs ! i) + sum_list (map bot_work (drop (Suc i) bs)))"
    by (subst id_take_nth_drop [OF assms(1)]) simp
  then show ?thesis using assms(1) by (simp add: upd_conv_take_nth_drop)
qed

lemma bot_progress:
  assumes "accounted s" "i < length (bots s)" "bots s ! i \<noteq> Exited" "expired s"
  shows "\<exists>s'. lg_step s s' \<and> expired s' \<and> work_left s' < work_left s"
proof (cases "bots s ! i")
  case Ticking
  then show ?thesis using assms work_update [of i "bots s" Exited]
    by (intro exI [of _ "s\<lparr>bots := (bots s)[i := Exited]\<rparr>"]) (auto simp: work_left_def intro: lg_step.leave)
next
  case (SendingMetric m)
  have op: "\<not> metricsClosed s" "\<not> metricsDone s" using assms(1,2,3) unfolding accounted_def by (auto simp: nth_mem)
  have w: "sum_list (map bot_work ((bots s)[i := Ticking])) + 2 = sum_list (map bot_work (bots s))"
    using SendingMetric assms(2) work_update [of i "bots s" Ticking] by simp
  show ?thesis
  proof (cases "metrics s")
    case Nil
    let ?s = "s\<lparr>stats := collect m (stats s), bots := (bots s)[i := Ticking]\<rparr>"
    have "lg_step s ?s" by (rule lg_step.hand [of i s m]) (use assms(2) SendingMetric Nil op in \<open>simp_all add: hand_metric_def\<close>)
    then show ?thesis using w assms(4) by (intro exI [of _ ?s]) (simp add: work_left_def)
  next
    case (Cons x xs)
    then show ?thesis using assms(4)
      by (intro exI [of _ "s\<lparr>metrics := xs, stats := collect x (stats s)\<rparr>"]) (simp add: work_left_def lg_step.receive)
  qed
qed (use assms in simp)

lemma run_progress:
  assumes "accounted s" "expired s" "report s = None"
  shows "\<exists>s'. lg_step s s' \<and> expired s' \<and> work_left s' < work_left s"
proof (cases "\<forall>b \<in> set (bots s). b = Exited")
  case False
  then obtain i where "i < length (bots s)" "bots s ! i \<noteq> Exited" by (auto simp: in_set_conv_nth)
  then show ?thesis using bot_progress assms by blast
next
  case ex: True
  show ?thesis
  proof (cases "metrics s")
    case (Cons x xs)
    then show ?thesis using assms(2)
      by (intro exI [of _ "s\<lparr>metrics := xs, stats := collect x (stats s)\<rparr>"]) (simp add: work_left_def lg_step.receive)
  next
    case Nil
    consider "\<not> metricsClosed s" | "metricsClosed s" "\<not> metricsDone s" | "metricsDone s" "metricsClosed s"
      using assms(1) unfolding accounted_def by blast
    then show ?thesis
    proof cases
      case 1
      then show ?thesis using ex assms(2) by (intro exI [of _ "s\<lparr>metricsClosed := True\<rparr>"]) (auto simp: work_left_def lg_step.close)
    next
      case 2
      then show ?thesis using Nil assms(2) by (intro exI [of _ "s\<lparr>metricsDone := True\<rparr>"]) (auto simp: work_left_def lg_step.drained)
    next
      case 3
      then show ?thesis using assms by (intro exI [of _ "s\<lparr>report := Some (stats s)\<rparr>"]) (auto simp: work_left_def lg_step.print)
    qed
  qed
qed

lemma run_finishes:
  "accounted s \<Longrightarrow> expired s \<Longrightarrow> \<exists>s'. lg_step\<^sup>*\<^sup>* s s' \<and> report s' \<noteq> None"
proof (induction "work_left s" arbitrary: s rule: less_induct)
  case less
  show ?case
  proof (cases "report s = None")
    case True
    obtain s' where s': "lg_step s s'" "expired s'" "work_left s' < work_left s" using run_progress [OF less.prems True] by blast
    obtain s'' where "lg_step\<^sup>*\<^sup>* s' s''" "report s'' \<noteq> None" using less.hyps [OF s'(3) accounted_step [OF s'(1) less.prems(1)] s'(2)] by blast
    then show ?thesis using s'(1) converse_rtranclp_into_rtranclp [of lg_step s s' s''] by blast
  qed blast
qed

section \<open>Properties\<close>

text \<open>
  The load generator and the API server fit together: whatever the random source draws, a
  bot's order passes the checks of \<open>handlePlaceOrder\<close>, so the handler goes on to send it to the
  matching loop; it is a buy or a sell, a market order without price or a limit order priced
  from 10000 to 11999, for 1 to 100 units.
\<close>

theorem bot_order_accepted:
  assumes "Intn_ok Intn" "uuid \<noteq> []"
  shows "\<exists>x. handlePlaceOrder h (Some (fst (noise_order Intn uuid g))) now s =
       set_handler h (Sending \<lparr>qType = PlaceRequest, qOrder = Some (onext (ob s)), qCancelID = [], qResult = h\<rparr>)
         (s\<lparr>ob := (ob s)\<lparr>oheap := (oheap (ob s))(onext (ob s) \<mapsto> x), onext := onext (ob s) + 1\<rparr>\<rparr>) \<and>
     oID x = uuid \<and> oSide x \<in> {Buy, Sell} \<and> 1 \<le> unat (RemainingQty x) \<and> unat (RemainingQty x) \<le> 100 \<and>
     (oType x = MarketOrder \<and> oPrice x = 0 \<or> oType x = LimitOrder \<and> 10000 \<le> unat (oPrice x) \<and> unat (oPrice x) < 12000)"
proof -
  obtain sd g1 where sd: "Intn 2 g = (sd, g1)" by fastforce
  obtain ty g2 where ty: "Intn 2 g1 = (ty, g2)" by fastforce
  obtain r g3 where r: "Intn 2000 g2 = (r, g3)" by fastforce
  obtain q g4 where q: "Intn 100 g3 = (q, g4)" by fastforce
  have l: "sd < 2" "ty < 2" "r < 2000" "q < 100"
    using assms(1) sd ty r q unfolding Intn_ok_def by (metis fst_conv zero_less_numeral)+
  let ?b = "fst (noise_order Intn uuid g)"
  have b: "?b = \<lparr>bID = uuid, bSide = int sd, bType = int ty, bPrice = (if ty = 1 then 0 else of_nat (10000 + r)), bQuantity = of_nat (1 + q)\<rparr>"
    by (simp add: noise_order_def Let_def sd ty r q)
  have u: "unat (of_nat (1 + q) :: u64) = 1 + q" "unat (of_nat (10000 + r) :: u64) = 10000 + r"
    using l unat_of_nat_u64 [of "1 + q"] unat_of_nat_u64 [of "10000 + r"] unfolding fits64_def by simp_all
  then have "(of_nat (1 + q) :: u64) \<noteq> 0" by (metis add_is_0 unat_0 zero_neq_one)
  moreover have "sd = 0 \<or> sd = 1" "ty = 0 \<or> ty = 1" using l by auto
  ultimately show ?thesis using assms(2) u l
    by (auto simp: handlePlaceOrder_def b NewOrder_def RemainingQty_def simp del: of_nat_add of_nat_Suc)
qed

theorem bot_order_accepted_witness:
  "let s = handlePlaceOrder 7 (Some (fst (noise_order (\<lambda>n g. (g mod n, g + 1)) ''7c9e'' (41 :: nat)))) 0 NewServer in
   handlers s 7 = Some (Sending \<lparr>qType = PlaceRequest, qOrder = Some 0, qCancelID = [], qResult = 7\<rparr>) \<and>
   (\<exists>x. oheap (ob s) 0 = Some x \<and> oID x = ''7c9e'')"
proof -
  have "Intn_ok (\<lambda>n g. (g mod n, g + 1 :: nat))" by (simp add: Intn_ok_def)
  from bot_order_accepted [OF this, of "''7c9e''" 7 41 0 NewServer] show ?thesis
    by (auto simp: set_handler_def NewServer_def NewOrderBook_def)
qed

lemma sum_word_of_int: "(\<Sum>x \<in># M. word_of_int (f x) :: 64 word) = word_of_int (\<Sum>x \<in># M. f x)"
  by (induction M) simp_all

lemma average_summary:
  assumes "0 \<le> (\<Sum>x \<in># M. mLatency x)" "(\<Sum>x \<in># M. mLatency x) < 2 ^ 63" "M \<noteq> {#}"
  shows "average_latency (summary M) = Some ((\<Sum>x \<in># M. mLatency x) div int (size M))"
  using assms(3) sint_of_int63 [OF assms(1,2)] sdiv_nonneg [OF assms(1), of "int (size M)"]
  by (simp add: average_latency_def summary_def sum_word_of_int nonempty_has_size)

text \<open>
  The report of a load test is exact: in every interleaving of bots, collector and main
  goroutine no bot ever sends on the closed channel, and the numbers printed count every request
  a bot measured exactly once, in total, as successes and in the summed latency; while that sum
  fits a \<open>Duration\<close> the average is its quotient.
\<close>

theorem load_report_exact:
  assumes "lg_reachable orc s"
  shows "(i < length (bots s) \<and> bots s ! i = SendingMetric m \<longrightarrow> send_metric i m s \<noteq> None \<and> hand_metric i m s \<noteq> None) \<and>
     (\<forall>st. report s = Some st \<longrightarrow> totalRequests st = size (produced s) \<and>
        successCount st = size (filter_mset mIsSuccess (produced s)) \<and>
        (0 \<le> (\<Sum>x \<in># produced s. mLatency x) \<and> (\<Sum>x \<in># produced s. mLatency x) < 2 ^ 63 \<and> produced s \<noteq> {#} \<longrightarrow>
           average_latency st = Some ((\<Sum>x \<in># produced s. mLatency x) div int (size (produced s)))))"
proof -
  note a = reachable_accounted [OF assms, unfolded accounted_def]
  have "\<not> metricsClosed s" if "i < length (bots s) \<and> bots s ! i = SendingMetric m" using a that nth_mem [of i "bots s"] by force
  moreover have "st = summary (produced s)" if st: "report s = Some st" for st
  proof -
    have "metrics s = []" "flying (bots s) = {#}" "st = stats s" using a st flying_exited [of "bots s"] by blast+
    then show ?thesis using a by auto
  qed
  ultimately show ?thesis using average_summary [of "produced s"]
    by (auto simp: send_metric_def hand_metric_def summary_def)
qed

definition ex_orc :: orchestrator where
  "ex_orc = \<lparr>Endpoint = ''http://localhost:8080'', TotalTPS = 1, Duration = 10 ^ 10, NumBots = 1\<rparr>"

definition ex_metric :: latency_metric where "ex_metric = \<lparr>mLatency = 250, mIsSuccess = True\<rparr>"

definition ex_load :: "bot_pc \<Rightarrow> bool \<Rightarrow> bool \<Rightarrow> bool \<Rightarrow> run_stats \<Rightarrow> latency_metric multiset \<Rightarrow> load_run" where
  "ex_load b ex cl dn st pr = \<lparr>bots = [b], expired = ex, metrics = [], metricsCap = 10, metricsClosed = cl, stats = st,
     metricsDone = dn, report = None, produced = pr\<rparr>"

abbreviation ex_st :: run_stats where "ex_st \<equiv> collect ex_metric zero_stats"

lemma ex_load_start: "run_start ex_orc = Some (ex_load Ticking False False False zero_stats {#})"
  by (simp add: run_start_def ex_orc_def ex_load_def tpsPerBot_def ticker_interval_def sdiv_nonneg sint_of_int63)

lemma ex_load_steps:
  "lg_step (ex_load Ticking False False False zero_stats {#}) (ex_load (SendingMetric ex_metric) False False False zero_stats {#ex_metric#})"
  "lg_step (ex_load (SendingMetric ex_metric) False False False zero_stats {#ex_metric#}) (ex_load Ticking False False False ex_st {#ex_metric#})"
  "lg_step (ex_load Ticking False False False ex_st {#ex_metric#}) (ex_load Ticking True False False ex_st {#ex_metric#})"
  "lg_step (ex_load Ticking True False False ex_st {#ex_metric#}) (ex_load Exited True False False ex_st {#ex_metric#})"
  "lg_step (ex_load Exited True False False ex_st {#ex_metric#}) (ex_load Exited True True False ex_st {#ex_metric#})"
  "lg_step (ex_load Exited True True False ex_st {#ex_metric#}) (ex_load Exited True True True ex_st {#ex_metric#})"
  "lg_step (ex_load Exited True True True ex_st {#ex_metric#}) ((ex_load Exited True True True ex_st {#ex_metric#})\<lparr>report := Some ex_st\<rparr>)"
  using lg_step.tick [of 0 "ex_load Ticking False False False zero_stats {#}" "StatusCode 200" 250 ex_metric]
    lg_step.hand [of 0 "ex_load (SendingMetric ex_metric) False False False zero_stats {#ex_metric#}" ex_metric]
    lg_step.expire [of "ex_load Ticking False False False ex_st {#ex_metric#}"]
    lg_step.leave [of 0 "ex_load Ticking True False False ex_st {#ex_metric#}"]
    lg_step.close [of "ex_load Exited True False False ex_st {#ex_metric#}"]
    lg_step.drained [of "ex_load Exited True True False ex_st {#ex_metric#}"]
    lg_step.print [of "ex_load Exited True True True ex_st {#ex_metric#}"]
  by (simp_all add: ex_load_def bot_metric_def ex_metric_def hand_metric_def)

lemma ex_load_reachable: "lg_reachable ex_orc (ex_load Exited True True True ex_st {#ex_metric#})"
  by (rule lg_reachable.step [OF _ ex_load_steps(6)], rule lg_reachable.step [OF _ ex_load_steps(5)],
      rule lg_reachable.step [OF _ ex_load_steps(4)], rule lg_reachable.step [OF _ ex_load_steps(3)],
      rule lg_reachable.step [OF _ ex_load_steps(2)], rule lg_reachable.step [OF _ ex_load_steps(1)],
      rule lg_reachable.init [OF ex_load_start])

theorem load_report_exact_witness:
  "lg_reachable ex_orc ((ex_load Exited True True True ex_st {#ex_metric#})\<lparr>report := Some ex_st\<rparr>) \<and>
   totalRequests ex_st = 1 \<and> average_latency ex_st = Some 250"
proof -
  have r: "lg_reachable ex_orc ((ex_load Exited True True True ex_st {#ex_metric#})\<lparr>report := Some ex_st\<rparr>)"
    by (rule lg_reachable.step [OF ex_load_reachable ex_load_steps(7)])
  with load_report_exact [OF r, of 0 ex_metric] show ?thesis by (simp add: ex_load_def ex_metric_def)
qed

text \<open>
  C33. A load test can always finish: for a positive number of bots and a target rate from zero to
  \<open>10\<^sup>9\<close> requests per second \<open>Run\<close> starts, and from every state it can get into, even one with all
  bots blocked on a full channel, there is a way on to the final report.  With no bots at all it
  panics.
\<close>

theorem load_run_finishes:
  assumes "0 < NumBots orc" "0 \<le> TotalTPS orc" "TotalTPS orc \<le> 10 ^ 9"
  shows "(\<exists>s. run_start orc = Some s) \<and> run_start (orc\<lparr>NumBots := 0\<rparr>) = None \<and>
     (\<forall>s. lg_reachable orc s \<longrightarrow> (\<exists>s'. lg_step\<^sup>*\<^sup>* s s' \<and> report s' \<noteq> None))"
proof (intro conjI allI impI)
  let ?t = "TotalTPS orc sdiv NumBots orc"
  have c: "sint (word_of_int (TotalTPS orc * 10) :: 64 word) = TotalTPS orc * 10" using assms by (intro sint_of_int63) simp_all
  have "?t = TotalTPS orc div NumBots orc" using assms by (simp add: sdiv_nonneg)
  also have "\<dots> \<le> TotalTPS orc" using assms div_le_dividend [of "nat (TotalTPS orc)" "nat (NumBots orc)"]
    by (simp add: nat_div_distrib [symmetric] zdiv_mono2 [of _ 1, simplified])
  finally have t: "?t \<le> 10 ^ 9" using assms(3) by simp
  have "1 \<le> 10 ^ 9 div max 1 ?t" using t zdiv_mono2 [of "10 ^ 9" "max 1 ?t" "10 ^ 9"] by simp
  then have "ticker_interval (max 1 ?t) \<noteq> None" by (simp add: ticker_interval_def sdiv_nonneg Let_def)
  moreover have "tpsPerBot orc = Some (max 1 ?t)" using assms(1) by (simp add: tpsPerBot_def Let_def max_def)
  ultimately show "\<exists>s. run_start orc = Some s" using c assms by (auto simp: run_start_def Let_def)
  show "run_start (orc\<lparr>NumBots := 0\<rparr>) = None" by (simp add: run_start_def tpsPerBot_def Let_def)
  fix s assume "lg_reachable orc s"
  then have "accounted (s\<lparr>expired := True\<rparr>)" using accounted_step [OF lg_step.expire] reachable_accounted by blast
  then obtain s' where "lg_step\<^sup>*\<^sup>* (s\<lparr>expired := True\<rparr>) s'" "report s' \<noteq> None" using run_finishes [of "s\<lparr>expired := True\<rparr>"] by auto
  then show "\<exists>s'. lg_step\<^sup>*\<^sup>* s s' \<and> report s' \<noteq> None"
    using converse_rtranclp_into_rtranclp [of lg_step, OF lg_step.expire [of s]] by blast
qed

theorem load_run_finishes_witness:
  "(\<exists>s. run_start ex_orc = Some s) \<and> (\<exists>s'. lg_step\<^sup>*\<^sup>* (ex_load Exited True True True ex_st {#ex_metric#}) s' \<and> report s' \<noteq> None)"
proof -
  have "0 < NumBots ex_orc" "0 \<le> TotalTPS ex_orc" "TotalTPS ex_orc \<le> 10 ^ 9" by (simp_all add: ex_orc_def)
  from load_run_finishes [OF this] show ?thesis using ex_load_reachable by blast
qed

end
