(* ===== verification/Api_Server_Props.thy ===== *)
theory Api_Server_Props
  imports Api_Server
begin

text \<open>
  The invariant of the API server under every interleaving of its goroutines, and the properties
  that follow: the matching loop serves every request without a panic, each handler gets exactly
  one answer, the depth cache is never wrong, and what a cancellation path names.
\<close>

section \<open>Invariants\<close>

text \<open>
  Requests and results: a request in the input channel belongs to a handler that waits and whose
  result channel is empty; a waiting handler has its request queued or its response ready, never
  both and never neither.
\<close>

definition chan_ok :: "order_request list \<Rightarrow> (nat \<rightharpoonup> handler) \<Rightarrow> (nat \<rightharpoonup> response) \<Rightarrow> bool" where
  "chan_ok q hs rc \<longleftrightarrow> distinct (map qResult q) \<and>
     (\<forall>r \<in> set q. hs (qResult r) = Some (Waiting (qType r)) \<and> rc (qResult r) = None) \<and>
     (\<forall>h r. hs h = Some (Sending r) \<longrightarrow> qResult r = h \<and> rc h = None) \<and>
     (\<forall>h. rc h \<noteq> None \<longrightarrow> (\<exists>t. hs h = Some (Waiting t))) \<and>
     (\<forall>h t. hs h = Some (Waiting t) \<longrightarrow> rc h \<noteq> None \<or> h \<in> qResult ` set q)"

text \<open>Orders: every outstanding place request has a pending order of its own.\<close>

definition outstanding :: "order_request list \<Rightarrow> (nat \<rightharpoonup> handler) \<Rightarrow> order_request \<Rightarrow> bool" where
  "outstanding q hs r \<longleftrightarrow> r \<in> set q \<or> (\<exists>h. hs h = Some (Sending r))"

definition orders_ok :: "orderbook \<Rightarrow> (order_request \<Rightarrow> bool) \<Rightarrow> bool" where
  "orders_ok b out \<longleftrightarrow>
     (\<forall>r. out r \<longrightarrow> qType r = PlaceRequest \<longrightarrow> (\<exists>p. qOrder r = Some p \<and> pending_order b p)) \<and>
     (\<forall>r r'. out r \<longrightarrow> out r' \<longrightarrow> qType r = PlaceRequest \<longrightarrow> qType r' = PlaceRequest \<longrightarrow> qOrder r = qOrder r' \<longrightarrow> r = r')"

text \<open>Depth cache: unless the book changed since the last tick, the cache is the book's depth.\<close>

definition cache_ok :: "server \<Rightarrow> bool" where
  "cache_ok s \<longleftrightarrow> (\<not> bookChanged s \<or> (\<exists>m. loopPc s = Broadcasting m True) \<longrightarrow> GetDepth 50 (ob s) = Some (depthCache s))"

definition server_inv :: "server \<Rightarrow> bool" where
  "server_inv s \<longleftrightarrow> reachable False (ob s) \<and> chan_ok (inputChan s) (handlers s) (resChan s) \<and>
     orders_ok (ob s) (outstanding (inputChan s) (handlers s)) \<and> cache_ok s \<and> (\<exists>log j. hub_run (hub s) log j)"

lemma chan_ok_fresh: "chan_ok q hs rc \<Longrightarrow> hs h = None \<Longrightarrow> rc h = None \<and> h \<notin> qResult ` set q"
  unfolding chan_ok_def by fastforce

lemma chan_ok_replied:
  assumes "chan_ok q hs rc" "hs h = None"
  shows "chan_ok q (hs(h \<mapsto> Replied x)) rc" "outstanding q (hs(h \<mapsto> Replied x)) = outstanding q hs"
proof -
  note f = chan_ok_fresh [OF assms]
  show "chan_ok q (hs(h \<mapsto> Replied x)) rc"
    using assms(1) f unfolding chan_ok_def by (auto simp: image_iff)
  show "outstanding q (hs(h \<mapsto> Replied x)) = outstanding q hs"
    using assms(2) unfolding outstanding_def fun_eq_iff by (metis fun_upd_apply handler.distinct(3) option.distinct(1) option.inject)
qed

lemma chan_ok_sending:
  assumes "chan_ok q hs rc" "hs h = None" "qResult r = h"
  shows "chan_ok q (hs(h \<mapsto> Sending r)) rc" "outstanding q (hs(h \<mapsto> Sending r)) = (\<lambda>x. x = r \<or> outstanding q hs x)"
proof -
  note f = chan_ok_fresh [OF assms(1,2)]
  show "chan_ok q (hs(h \<mapsto> Sending r)) rc"
    using assms(1,3) f unfolding chan_ok_def by (auto simp: image_iff)
  show "outstanding q (hs(h \<mapsto> Sending r)) = (\<lambda>x. x = r \<or> outstanding q hs x)"
    using assms(2) unfolding outstanding_def fun_eq_iff by (metis fun_upd_apply handler.inject(1) option.distinct(1) option.inject)
qed

lemma chan_ok_enqueue:
  assumes c: "chan_ok q hs rc" and h: "hs h = Some (Sending r)"
  shows "chan_ok (q @ [r]) (hs(h \<mapsto> Waiting (qType r))) rc"
    "outstanding (q @ [r]) (hs(h \<mapsto> Waiting (qType r))) = outstanding q hs"
proof -
  have r: "qResult r = h" "rc h = None" using c h unfolding chan_ok_def by blast+
  have nq: "h \<notin> qResult ` set q" using c h unfolding chan_ok_def by fastforce
  show "chan_ok (q @ [r]) (hs(h \<mapsto> Waiting (qType r))) rc"
    using c r nq unfolding chan_ok_def by (auto simp: image_iff)
  have "(\<exists>k. (hs(h \<mapsto> Waiting (qType r))) k = Some (Sending x)) \<longleftrightarrow> (\<exists>k. k \<noteq> h \<and> hs k = Some (Sending x))" for x
    by (auto split: if_splits)
  moreover have "(\<exists>k. hs k = Some (Sending x)) \<longleftrightarrow> x = r \<or> (\<exists>k. k \<noteq> h \<and> hs k = Some (Sending x))" for x
    using h by (metis handler.inject(1) option.inject)
  ultimately show "outstanding (q @ [r]) (hs(h \<mapsto> Waiting (qType r))) = outstanding q hs"
    unfolding outstanding_def by (simp add: fun_eq_iff disj_left_commute)
qed

lemma chan_ok_reply:
  assumes c: "chan_ok q hs rc" and h: "hs h = Some (Waiting t)" "rc h = Some r"
  shows "chan_ok q (hs(h \<mapsto> Replied x)) (rc(h := None))" "outstanding q (hs(h \<mapsto> Replied x)) = outstanding q hs"
proof -
  have nq: "h \<notin> qResult ` set q" using c h unfolding chan_ok_def by fastforce
  then show "chan_ok q (hs(h \<mapsto> Replied x)) (rc(h := None))"
    using c h unfolding chan_ok_def by (auto simp: image_iff)
  show "outstanding q (hs(h \<mapsto> Replied x)) = outstanding q hs"
    using h unfolding outstanding_def fun_eq_iff by (metis fun_upd_apply handler.distinct(1,3) option.inject)
qed

lemma chan_ok_take:
  assumes c: "chan_ok (r # q) hs rc"
  shows "chan_ok q hs (rc(qResult r \<mapsto> x))" "outstanding q hs = (\<lambda>y. outstanding (r # q) hs y \<and> y \<noteq> r)"
proof -
  have w: "hs (qResult r) = Some (Waiting (qType r))" "qResult r \<notin> qResult ` set q" using c unfolding chan_ok_def by auto
  have ns: "hs h \<noteq> Some (Sending r)" for h using c w unfolding chan_ok_def by fastforce
  show "chan_ok q hs (rc(qResult r \<mapsto> x))"
    using c w unfolding chan_ok_def by (auto simp: image_iff)
  show "outstanding q hs = (\<lambda>y. outstanding (r # q) hs y \<and> y \<noteq> r)"
    using w(2) ns unfolding outstanding_def by (auto simp: fun_eq_iff)
qed

lemma orders_ok_mono:
  assumes "orders_ok b out" "\<And>r. out' r \<Longrightarrow> out r" "\<And>p r. out' r \<Longrightarrow> qType r = PlaceRequest \<Longrightarrow> qOrder r = Some p \<Longrightarrow> pending_order b p \<Longrightarrow> pending_order b' p"
  shows "orders_ok b' out'"
  using assms unfolding orders_ok_def by metis

lemma orders_ok_add:
  assumes "orders_ok b out" "\<And>p. pending_order b p \<Longrightarrow> pending_order b' p"
    and "qType r = PlaceRequest \<Longrightarrow> \<exists>p. qOrder r = Some p \<and> pending_order b' p \<and> \<not> pending_order b p"
  shows "orders_ok b' (\<lambda>x. x = r \<or> out x)"
  using assms unfolding orders_ok_def by (metis option.inject)

section \<open>Every step keeps the invariant\<close>

lemma server_invI:
  assumes "reachable False (ob s)" "chan_ok (inputChan s) (handlers s) (resChan s)"
    "orders_ok (ob s) (outstanding (inputChan s) (handlers s))" "cache_ok s" "\<exists>log j. hub_run (hub s) log j"
  shows "server_inv s"
  using assms by (simp add: server_inv_def)

lemma inv_replied:
  assumes "server_inv s" "handlers s h = None"
  shows "server_inv (set_handler h (Replied x) s)"
  using assms chan_ok_replied [of "inputChan s" "handlers s" "resChan s" h x]
  by (auto simp: server_inv_def set_handler_def cache_ok_def)

lemma inv_place:
  assumes i: "server_inv s" and h: "handlers s h = None"
  shows "server_inv (handlePlaceOrder h body now s)"
proof (cases body)
  case None
  then show ?thesis using inv_replied [OF i h] by (simp add: handlePlaceOrder_def)
next
  case (Some b)
  show ?thesis
  proof (cases "bID b = [] \<or> bQuantity b = 0")
    case True
    then show ?thesis using inv_replied [OF i h] Some by (simp add: handlePlaceOrder_def)
  next
    case False
    obtain p ob' where n: "NewOrder (bID b) (bSide b) (bType b) (bPrice b) (bQuantity b) now (ob s) = (p, ob')" by fastforce
    define r where "r = \<lparr>qType = PlaceRequest, qOrder = Some p, qCancelID = '''', qResult = h\<rparr>"
    have e: "handlePlaceOrder h body now s = s\<lparr>ob := ob', handlers := (handlers s)(h \<mapsto> Sending r)\<rparr>"
      using Some False n by (simp add: handlePlaceOrder_def set_handler_def r_def)
    have "reachable False (ob s)" using i by (simp add: server_inv_def)
    note a = book.alloc_law [OF this n]
    have c: "chan_ok (inputChan s) (handlers s) (resChan s)" using i by (simp add: server_inv_def)
    note cs = chan_ok_sending [OF c h, of r]
    have "orders_ok ob' (\<lambda>x. x = r \<or> outstanding (inputChan s) (handlers s) x)"
      using i a by (intro orders_ok_add [of "ob s"]) (auto simp: server_inv_def r_def)
    moreover have "qResult r = h" by (simp add: r_def)
    ultimately show ?thesis
      using i a cs unfolding e by (intro server_invI) (auto simp: server_inv_def cache_ok_def)
  qed
qed

lemma inv_cancel_request:
  assumes i: "server_inv s" and h: "handlers s h = None"
  shows "server_inv (handleCancelOrder h path s)"
proof (cases "length (Split CHR ''/'' path) < 5")
  case True
  then show ?thesis using inv_replied [OF i h] by (simp add: handleCancelOrder_def Let_def)
next
  case False
  define r where "r = \<lparr>qType = CancelRequest, qOrder = None, qCancelID = Split CHR ''/'' path ! 4, qResult = h\<rparr>"
  have e: "handleCancelOrder h path s = s\<lparr>handlers := (handlers s)(h \<mapsto> Sending r)\<rparr>"
    using False by (simp add: handleCancelOrder_def Let_def set_handler_def r_def)
  have c: "chan_ok (inputChan s) (handlers s) (resChan s)" using i by (simp add: server_inv_def)
  have "orders_ok (ob s) (\<lambda>x. x = r \<or> outstanding (inputChan s) (handlers s) x)"
    using i by (intro orders_ok_add [of "ob s"]) (auto simp: server_inv_def r_def)
  moreover have "qResult r = h" by (simp add: r_def)
  ultimately show ?thesis
    using i chan_ok_sending [OF c h, of r] unfolding e by (intro server_invI) (auto simp: server_inv_def cache_ok_def)
qed

lemma inv_enqueue:
  assumes "server_inv s" "handlers s h = Some (Sending r)"
  shows "server_inv (enqueue h r s)"
  using assms chan_ok_enqueue [of "inputChan s" "handlers s" "resChan s" h r]
  by (auto simp: server_inv_def enqueue_def set_handler_def cache_ok_def)

lemma inv_reply:
  assumes "server_inv s" "handlers s h = Some (Waiting t)" "resChan s h = Some r"
  shows "server_inv (write_reply h t r s)"
proof -
  have "chan_ok (inputChan s) (handlers s) (resChan s)" using assms(1) by (simp add: server_inv_def)
  from chan_ok_reply [OF this assms(2,3)] show ?thesis
    using assms(1) by (auto simp: server_inv_def write_reply_eq set_handler_def cache_ok_def)
qed

text \<open>A request at the head of the channel is served: no panic, and a response for its handler.\<close>

lemma place_served:
  assumes i: "server_inv s" and q: "inputChan s = r # q" "loopPc s = Selecting" and t: "qType r = PlaceRequest"
    and rm: "request_room r (ob s)"
  shows "\<exists>s' p ts. qOrder r = Some p \<and> loop_place r (s\<lparr>inputChan := q\<rparr>) = Some s' \<and> server_inv s' \<and>
     Process p (ob s) = Some (ob s', ts) \<and> inputChan s' = q \<and> handlers s' = handlers s \<and>
     resChan s' = (resChan s)(qResult r \<mapsto> \<lparr>rSuccess = True, rTrades = ts, rError = ''''\<rparr>)"
proof -
  have o: "outstanding (inputChan s) (handlers s) r" using q by (simp add: outstanding_def)
  then obtain p where p: "qOrder r = Some p" "pending_order (ob s) p"
    using i t by (auto simp: server_inv_def orders_ok_def)
  have rb: "reachable False (ob s)" using i by (simp add: server_inv_def)
  have room: "order_room (ob s) p" using rm t p(1) by (simp add: request_room_def)
  obtain ob' ts where P: "Process p (ob s) = Some (ob', ts)" "reachable False ob'"
     "\<forall>r. r \<noteq> p \<longrightarrow> pending_order (ob s) r \<longrightarrow> pending_order ob' r"
    using book.process_law [OF rb p(2) room] by blast
  obtain y where y: "new_order (ob s) p y" "has_room y (ob s)"
    using p(2) room by (auto simp: pending_order_def order_room_def new_order_def)
  have "p \<in> dom (oheap ob')" using Process_spec(5) [OF rb y P(1)] y(1) by (simp add: new_order_def domIff)
  then obtain x where x: "oheap ob' p = Some x" by blast
  have "chan_ok (r # q) (handlers s) (resChan s)" using i q by (simp add: server_inv_def)
  note c = chan_ok_take [OF this]
  have oo: "orders_ok ob' (outstanding q (handlers s))"
  proof (rule orders_ok_mono [of "ob s" "outstanding (inputChan s) (handlers s)"])
    show "orders_ok (ob s) (outstanding (inputChan s) (handlers s))" using i by (simp add: server_inv_def)
    show "outstanding (inputChan s) (handlers s) y" if "outstanding q (handlers s) y" for y using that c(2) q by simp
    fix p' y assume y: "outstanding q (handlers s) y" "qType y = PlaceRequest" "qOrder y = Some p'" "pending_order (ob s) p'"
    have "y \<noteq> r" "outstanding (inputChan s) (handlers s) y" using y(1) c(2) q by simp_all
    then have "p' \<noteq> p" using i o t p(1) y(2,3) unfolding server_inv_def orders_ok_def by metis
    then show "pending_order ob' p'" using P(3) y(4) by blast
  qed
  show ?thesis
    using i q p P(1,2) x c(1) oo
    by (auto simp: loop_place_def server_inv_def cache_ok_def Let_def split: if_splits)
qed

lemma cancel_served:
  assumes i: "server_inv s" and q: "inputChan s = r # q" "loopPc s = Selecting"
  shows "\<exists>s' b e. loop_cancel r (s\<lparr>inputChan := q\<rparr>) = Some s' \<and> server_inv s' \<and> Cancel (qCancelID r) (ob s) = Some (ob s', b) \<and>
     inputChan s' = q \<and> handlers s' = handlers s \<and>
     resChan s' = (resChan s)(qResult r \<mapsto> \<lparr>rSuccess = b, rTrades = [], rError = e\<rparr>)"
proof -
  have rb: "reachable False (ob s)" using i by (simp add: server_inv_def)
  obtain ob' b where C: "Cancel (qCancelID r) (ob s) = Some (ob', b)" "reachable False ob'"
     "\<forall>p. pending_order (ob s) p \<longrightarrow> pending_order ob' p" "\<not> b \<longrightarrow> ob' = ob s"
    using book.cancel_law [OF rb] by blast
  have "chan_ok (r # q) (handlers s) (resChan s)" using i q by (simp add: server_inv_def)
  note c = chan_ok_take [OF this]
  have oo: "orders_ok ob' (outstanding q (handlers s))"
    by (rule orders_ok_mono [of "ob s" "outstanding (inputChan s) (handlers s)"])
      (use i c(2) q C(3) in \<open>auto simp: server_inv_def\<close>)
  show ?thesis
    using i q C c(1) oo by (cases b) (auto simp: loop_cancel_def server_inv_def cache_ok_def Let_def)
qed

text \<open>The response a request gets, and that its handler gets it.\<close>

definition response_of :: "order_request \<Rightarrow> orderbook \<Rightarrow> orderbook \<Rightarrow> response \<Rightarrow> bool" where
  "response_of r b b' resp \<longleftrightarrow> (case qType r of
     PlaceRequest \<Rightarrow> (\<exists>p ts. qOrder r = Some p \<and> Process p b = Some (b', ts) \<and> rSuccess resp \<and> rTrades resp = ts)
   | CancelRequest \<Rightarrow> Cancel (qCancelID r) b = Some (b', rSuccess resp) \<and> rTrades resp = [])"

lemma request_served:
  assumes i: "server_inv s" and q: "inputChan s = r # q" "loopPc s = Selecting" and rm: "request_room r (ob s)"
  shows "\<exists>s' resp. loop_request r (s\<lparr>inputChan := q\<rparr>) = Some s' \<and> server_inv s' \<and> response_of r (ob s) (ob s') resp \<and>
     resChan s' = (resChan s)(qResult r \<mapsto> resp) \<and> inputChan s' = q \<and> handlers s' = handlers s"
proof (cases "qType r")
  case PlaceRequest
  from place_served [OF i q this rm] obtain s' p ts where "qOrder r = Some p" "loop_place r (s\<lparr>inputChan := q\<rparr>) = Some s'"
     "server_inv s'" "Process p (ob s) = Some (ob s', ts)" "inputChan s' = q" "handlers s' = handlers s"
     "resChan s' = (resChan s)(qResult r \<mapsto> \<lparr>rSuccess = True, rTrades = ts, rError = ''''\<rparr>)" by blast
  with PlaceRequest show ?thesis
    by (intro exI [of _ s'] exI [of _ "\<lparr>rSuccess = True, rTrades = ts, rError = ''''\<rparr>"]) (simp add: loop_request_def response_of_def)
next
  case CancelRequest
  from cancel_served [OF i q] obtain s' b e where "loop_cancel r (s\<lparr>inputChan := q\<rparr>) = Some s'"
     "server_inv s'" "Cancel (qCancelID r) (ob s) = Some (ob s', b)" "inputChan s' = q" "handlers s' = handlers s"
     "resChan s' = (resChan s)(qResult r \<mapsto> \<lparr>rSuccess = b, rTrades = [], rError = e\<rparr>)" by blast
  with CancelRequest show ?thesis
    by (intro exI [of _ s'] exI [of _ "\<lparr>rSuccess = b, rTrades = [], rError = e\<rparr>"]) (simp add: loop_request_def response_of_def)
qed

lemma tick_ok:
  assumes "server_inv s" "loopPc s = Selecting"
  shows "\<exists>s'. loop_tick s = Some s' \<and> server_inv s' \<and> GetDepth 50 (ob s) = Some (depthCache s') \<and> ob s' = ob s"
proof -
  have rb: "reachable False (ob s)" using assms by (simp add: server_inv_def)
  obtain d where d: "GetDepth 50 (ob s) = Some d" using book.depth_law [OF rb, of 50] by auto
  with assms show ?thesis by (auto simp: loop_tick_def server_inv_def cache_ok_def)
qed

lemma inv_publish:
  assumes "server_inv s" "loopPc s = Broadcasting m reset" "length (broadcast (hub s)) < broadcast_cap"
  shows "server_inv (broadcastEvent m reset s)"
proof -
  have "\<exists>log j. hub_run ((hub s)\<lparr>broadcast := broadcast (hub s) @ [m]\<rparr>) log j"
    using assms(1,3) by (auto simp: server_inv_def intro: hub_run.publish)
  then show ?thesis
    using assms by (cases reset) (auto simp: server_inv_def broadcastEvent_def cache_ok_def)
qed

lemma inv_hub: "server_inv s \<Longrightarrow> hub_step (hub s) h' \<Longrightarrow> server_inv (s\<lparr>hub := h'\<rparr>)"
  using hub_step_run [of "hub s" h'] by (auto simp: server_inv_def cache_ok_def)

lemma server_inv_NewServer: "server_inv NewServer"
proof -
  have "hub_run (NewHub :: ws_message hub) [] (\<lambda>_. 0)" by (rule hub_run.init)
  moreover have "GetDepth 50 NewOrderBook = Some ([], [])" by code_simp
  ultimately show ?thesis
    by (auto simp: server_inv_def NewServer_def reachable.start chan_ok_def orders_ok_def outstanding_def cache_ok_def)
qed

lemma server_step_inv: "server_step s s' \<Longrightarrow> step_room s s' \<Longrightarrow> server_inv s \<Longrightarrow> server_inv s'"
proof (induction rule: server_step.induct)
  case (place s h body now)
  then show ?case by (blast intro: inv_place)
next
  case (cancel s h path)
  then show ?case by (blast intro: inv_cancel_request)
next
  case (book s h)
  then show ?case using inv_replied by (simp add: handleGetOrderBook_def)
next
  case (enqueue s h req)
  then show ?case by (blast intro: inv_enqueue)
next
  case (reply s h t r)
  then show ?case by (blast intro: inv_reply)
next
  case (request s req reqs s')
  then have "request_room req (ob s)" using step_room_request by blast
  then show ?case using request.hyps request.prems(2) request_served [of s req reqs] by auto
next
  case (tick s s')
  then show ?case using tick_ok [of s] by auto
next
  case (publish s m reset)
  then show ?case by (blast intro: inv_publish)
next
  case (hub s h')
  then show ?case by (blast intro: inv_hub)
qed

lemma server_reachable_inv: "server_reachable s \<Longrightarrow> server_inv s"
  by (induction rule: server_reachable.induct) (auto intro: server_inv_NewServer server_step_inv)

section \<open>Properties\<close>

text \<open>A server with one place request queued and one cancellation about to be sent.\<close>

definition ex_body :: placeOrderReq where
  "ex_body = \<lparr>bID = ''a'', bSide = 0, bType = 0, bPrice = 10, bQuantity = 3\<rparr>"

definition ex_req :: order_request where
  "ex_req = \<lparr>qType = PlaceRequest, qOrder = Some 0, qCancelID = '''', qResult = 1\<rparr>"

definition ex_server :: server where
  "ex_server = handleCancelOrder 2 ''/api/v1/orders/a'' (enqueue 1 ex_req (handlePlaceOrder 1 (Some ex_body) 0 NewServer))"

lemma ex_server_reachable: "server_reachable ex_server"
proof -
  have 1: "server_reachable (handlePlaceOrder 1 (Some ex_body) 0 NewServer)"
    by (intro server_reachable_keep [OF server_reachable.init] server_step.place) (simp_all add: NewServer_def)
  have "handlers (handlePlaceOrder 1 (Some ex_body) 0 NewServer) 1 = Some (Sending ex_req)" by code_simp
  moreover have "inputChan (handlePlaceOrder 1 (Some ex_body) 0 NewServer) = []" by code_simp
  ultimately have 2: "server_reachable (enqueue 1 ex_req (handlePlaceOrder 1 (Some ex_body) 0 NewServer))"
    by (intro server_reachable_keep [OF 1] server_step.enqueue) (simp_all add: input_cap_def)
  have "handlers (enqueue 1 ex_req (handlePlaceOrder 1 (Some ex_body) 0 NewServer)) 2 = None" by code_simp
  then show ?thesis unfolding ex_server_def by (intro server_reachable_keep [OF 2] server_step.cancel) simp_all
qed

lemma ex_server_state: "inputChan ex_server = [ex_req]" "loopPc ex_server = Selecting" "handlers ex_server 1 = Some (Waiting PlaceRequest)"
  "bookChanged ex_server = False" "qResult ex_req = 1"
  by code_simp+

lemma ex_server_room: "request_room ex_req (ob ex_server)"
proof -
  have "oheap (ob ex_server) 0 = Some \<lparr>oID = ''a'', oSide = 0, oType = 0, oPrice = 10, oQuantity = 3, oFilledQty = 0,
      oTimestamp = 0, oNext = None, oPrev = None, oLimit = None\<rparr>" "level_volume Bids 10 (ob ex_server) = 0"
    by code_simp+
  then show ?thesis by (simp add: request_room_def order_room_def has_room_def ex_req_def maker_side_def fits64_def)
qed

text \<open>
  C8. The matching loop never panics and answers every request: in every reachable state of the
  server, whatever the handlers and clients do in between, the request at the head of the input
  channel is processed, its result channel is free, the response put there is the outcome of
  \<open>Process\<close> or \<open>Cancel\<close> on the book at that moment, and it belongs to the handler that waits
  for it.
\<close>

theorem loop_serves_request:
  assumes "server_reachable s" "inputChan s = r # q" "loopPc s = Selecting" "request_room r (ob s)"
  shows "\<exists>s' resp. loop_request r (s\<lparr>inputChan := q\<rparr>) = Some s' \<and> server_step s s' \<and> server_reachable s' \<and>
     resChan s (qResult r) = None \<and> resChan s' (qResult r) = Some resp \<and> response_of r (ob s) (ob s') resp \<and>
     handlers s' (qResult r) = Some (Waiting (qType r))"
proof -
  have i: "server_inv s" using assms(1) by (rule server_reachable_inv)
  have c: "resChan s (qResult r) = None" "handlers s (qResult r) = Some (Waiting (qType r))"
    using i assms(2) by (auto simp: server_inv_def chan_ok_def)
  obtain s' resp where l: "loop_request r (s\<lparr>inputChan := q\<rparr>) = Some s'" "response_of r (ob s) (ob s') resp"
     "resChan s' = (resChan s)(qResult r \<mapsto> resp)" "handlers s' = handlers s"
    using request_served [OF i assms(2-4)] by blast
  have "server_step s s'" using server_step.request [OF assms(3,2) c(1) l(1)] .
  moreover have "step_room s s'" using step_room_request [OF assms(2) l(1)] assms(4) by simp
  ultimately show ?thesis using l c server_reachable.step [OF assms(1)] by auto
qed

theorem loop_serves_request_witness:
  "\<exists>s' resp. loop_request ex_req (ex_server\<lparr>inputChan := []\<rparr>) = Some s' \<and> server_step ex_server s' \<and> server_reachable s' \<and>
     resChan s' 1 = Some resp \<and> response_of ex_req (ob ex_server) (ob s') resp"
  using loop_serves_request [OF ex_server_reachable ex_server_state(1,2) ex_server_room] by (auto simp: ex_server_state)

text \<open>
  C9. Exactly one answer per request: in every reachable state a waiting handler has either its
  request in the input channel, exactly once, and an empty result channel, or its response in
  the result channel and no request queued; and results go to waiting handlers only.
\<close>

theorem one_answer_per_request:
  assumes "server_reachable s"
  shows "distinct (map qResult (inputChan s)) \<and>
     (\<forall>h t. handlers s h = Some (Waiting t) \<longrightarrow> (resChan s h = None) = (h \<in> qResult ` set (inputChan s))) \<and>
     (\<forall>h. resChan s h \<noteq> None \<longrightarrow> (\<exists>t. handlers s h = Some (Waiting t)))"
proof -
  have c: "chan_ok (inputChan s) (handlers s) (resChan s)" using server_reachable_inv [OF assms] by (simp add: server_inv_def)
  then have none: "\<forall>r \<in> set (inputChan s). resChan s (qResult r) = None"
    and some: "handlers s h = Some (Waiting t) \<Longrightarrow> resChan s h \<noteq> None \<or> h \<in> qResult ` set (inputChan s)" for h t
    by (simp_all add: chan_ok_def)
  have "(resChan s h = None) = (h \<in> qResult ` set (inputChan s))" if "handlers s h = Some (Waiting t)" for h t
    using none some [OF that] by auto
  moreover have "\<forall>h. resChan s h \<noteq> None \<longrightarrow> (\<exists>t. handlers s h = Some (Waiting t))" "distinct (map qResult (inputChan s))"
    using c by (simp_all add: chan_ok_def)
  ultimately show ?thesis by blast
qed

theorem one_answer_per_request_witness:
  "distinct (map qResult (inputChan ex_server)) \<and> (resChan ex_server 1 = None) = (1 \<in> qResult ` set (inputChan ex_server))"
  using one_answer_per_request [OF ex_server_reachable] ex_server_state(3) by blast

text \<open>
  C21. The depth cache that \<open>GET /api/v1/orderbook\<close> serves is never wrong, only late: while no
  request changed the book since the last tick, it is exactly the top fifty levels of the
  current book, and a tick always succeeds and makes it so.
\<close>

theorem depth_cache_fresh:
  assumes "server_reachable s"
  shows "(\<not> bookChanged s \<longrightarrow> GetDepth 50 (ob s) = Some (depthCache s)) \<and>
     (loopPc s = Selecting \<longrightarrow> (\<exists>s'. loop_tick s = Some s' \<and> ob s' = ob s \<and> GetDepth 50 (ob s) = Some (depthCache s')))"
proof -
  have i: "server_inv s" using assms by (rule server_reachable_inv)
  then have "\<not> bookChanged s \<longrightarrow> GetDepth 50 (ob s) = Some (depthCache s)" by (simp add: server_inv_def cache_ok_def)
  with tick_ok [OF i] show ?thesis by blast
qed

theorem depth_cache_fresh_witness: "GetDepth 50 (ob ex_server) = Some (depthCache ex_server)"
  using depth_cache_fresh [OF ex_server_reachable] ex_server_state(4) by simp

section \<open>Paths of cancellations\<close>

lemma Split_orders: "Split CHR ''/'' (''/api/v1/orders/'' @ rest) = [''''] @ [''api''] @ [''v1''] @ [''orders''] @ Split CHR ''/'' rest"
proof -
  have "''/api/v1/orders/'' @ rest = '''' @ CHR ''/'' # ''api'' @ CHR ''/'' # ''v1'' @ CHR ''/'' # ''orders'' @ CHR ''/'' # rest" by simp
  then show ?thesis by (simp only: Split_append [of "CHR ''/''" "''''"] Split_append [of "CHR ''/''" "''api''"]
      Split_append [of "CHR ''/''" "''v1''"] Split_append [of "CHR ''/''" "''orders''"]) simp
qed

text \<open>
  Every \<open>DELETE\<close> that the mux routes to \<open>handleCancelOrder\<close> becomes a cancellation: the
  branch that reports a missing order ID is dead, since the route's prefix already gives five
  parts.  The identifier sent to the engine is the rest of the path up to its first slash, so
  an identifier that contains a slash is cut and another order may be cancelled.
\<close>

theorem cancel_path_identifier:
  assumes "RegisterRoutes ''DELETE'' path = Some RCancel"
  shows "\<exists>rest. path = ''/api/v1/orders/'' @ rest \<and> handleCancelOrder h path s =
     set_handler h (Sending \<lparr>qType = CancelRequest, qOrder = None,
       qCancelID = takeWhile (\<lambda>c. c \<noteq> CHR ''/'') rest, qResult = h\<rparr>) s"
proof -
  obtain rest where r: "path = ''/api/v1/orders/'' @ rest"
    using assms by (auto simp: RegisterRoutes_def prefix_def split: if_splits)
  have "Split CHR ''/'' rest ! 0 = takeWhile (\<lambda>c. c \<noteq> CHR ''/'') rest"
    using Split_hd [of "CHR ''/''" rest] Split_ne [of "CHR ''/''" rest] by (simp add: hd_conv_nth)
  moreover have "0 < length (Split CHR ''/'' rest)" using Split_ne [of "CHR ''/''" rest] by blast
  ultimately show ?thesis
    using r by (intro exI [of _ rest]) (simp only: handleCancelOrder_def Split_orders, simp add: Let_def)
qed

theorem cancel_path_identifier_witness:
  "handleCancelOrder 1 ''/api/v1/orders/a/b'' NewServer =
     set_handler 1 (Sending \<lparr>qType = CancelRequest, qOrder = None, qCancelID = ''a'', qResult = 1\<rparr>) NewServer"
  using cancel_path_identifier [of "''/api/v1/orders/a/b''" 1 NewServer] by (simp add: RegisterRoutes_def)

section \<open>The counter of processed orders\<close>

text \<open>
  An order type other than 0 and 1 is traded like a market order (its own side of the book
  stays as it was) but counted as a limit order, because the loop tests the type for 1 where
  \<open>Process\<close> tests it for 0.
\<close>

theorem odd_type_counted_as_limit:
  assumes "server_reachable s" "inputChan s = r # q" "loopPc s = Selecting" "request_room r (ob s)"
    and "qType r = PlaceRequest" "qOrder r = Some p" "new_order (ob s) p x" "oType x \<noteq> 0" "oType x \<noteq> 1"
  shows "\<exists>s'. loop_request r (s\<lparr>inputChan := q\<rparr>) = Some s' \<and>
     own_levels (oSide x = Buy) (book_view (ob s')) = own_levels (oSide x = Buy) (book_view (ob s)) \<and>
     (\<exists>sd. ordersProcessed s' (sd, ''limit'') = ordersProcessed s (sd, ''limit'') + 1)"
proof -
  have i: "server_inv s" using assms(1) by (rule server_reachable_inv)
  then have rb: "reachable False (ob s)" by (simp add: server_inv_def)
  obtain s' ts where l: "loop_place r (s\<lparr>inputChan := q\<rparr>) = Some s'" "Process p (ob s) = Some (ob s', ts)"
    using place_served [OF i assms(2,3,5,4)] assms(6) by auto
  have hr: "has_room x (ob s)" using assms(4-7) by (simp add: request_room_def order_room_def new_order_def)
  obtain k where "own_levels (oSide x = Buy) (book_view (ob s')) = (if 0 < k \<and> oType x = LimitOrder
      then join_level (prio (oSide x = Buy)) (oPrice x) (oID x, k) (own_levels (oSide x = Buy) (book_view (ob s)))
      else own_levels (oSide x = Buy) (book_view (ob s)))"
    using Process_spec(1) [OF rb assms(7) hr l(2)] by (rule sprocess_sweep)
  then have own: "own_levels (oSide x = Buy) (book_view (ob s')) = own_levels (oSide x = Buy) (book_view (ob s))"
    using assms(8) by simp
  obtain f where b: "book_ok (ob s) f" using rb by (rule reachable_ok)
  have "oType x \<noteq> LimitOrder" using assms(8) by simp
  from Process_market_taker [OF b assms(7) this l(2)] obtain y where y: "oheap (ob s') p = Some y" "oType y = oType x" by blast
  define lab where "lab = (Side_String (oSide y), ''limit'')"
  have "map_option ordersProcessed (loop_place r (s\<lparr>inputChan := q\<rparr>)) =
      Some ((ordersProcessed s)(lab := ordersProcessed s lab + 1))"
    using l(2) assms(6,9) y by (simp add: loop_place_def Let_def order_label_def lab_def)
  then have "ordersProcessed s' = (ordersProcessed s)(lab := ordersProcessed s lab + 1)" using l(1) by simp
  then have "\<exists>sd. ordersProcessed s' (sd, ''limit'') = ordersProcessed s (sd, ''limit'') + 1"
    by (intro exI [of _ "Side_String (oSide y)"]) (simp add: lab_def)
  then show ?thesis using l own assms(5) by (simp add: loop_request_def)
qed

definition ex_odd_server :: server where
  "ex_odd_server = enqueue 1 ex_req (handlePlaceOrder 1 (Some \<lparr>bID = ''a'', bSide = 0, bType = 7, bPrice = 10, bQuantity = 3\<rparr>) 0 NewServer)"

definition ex_odd_order :: order where
  "ex_odd_order = \<lparr>oID = ''a'', oSide = 0, oType = 7, oPrice = 10, oQuantity = 3, oFilledQty = 0, oTimestamp = 0,
     oNext = None, oPrev = None, oLimit = None\<rparr>"

lemma ex_odd_server_reachable: "server_reachable ex_odd_server"
proof -
  let ?b = "Some \<lparr>bID = ''a'', bSide = 0, bType = 7, bPrice = 10, bQuantity = 3\<rparr>"
  have 1: "server_reachable (handlePlaceOrder 1 ?b 0 NewServer)"
    by (intro server_reachable_keep [OF server_reachable.init] server_step.place) (simp_all add: NewServer_def)
  have "handlers (handlePlaceOrder 1 ?b 0 NewServer) 1 = Some (Sending ex_req)" "inputChan (handlePlaceOrder 1 ?b 0 NewServer) = []"
    by code_simp+
  then show ?thesis unfolding ex_odd_server_def
    by (intro server_reachable_keep [OF 1] server_step.enqueue) (simp_all add: input_cap_def)
qed

lemma ex_odd_server_state: "inputChan ex_odd_server = [ex_req]" "loopPc ex_odd_server = Selecting"
  "oheap (ob ex_odd_server) 0 = Some ex_odd_order" "qType ex_req = PlaceRequest" "qOrder ex_req = Some 0"
  by code_simp+

theorem odd_type_counted_as_limit_witness:
  "\<exists>s'. loop_request ex_req (ex_odd_server\<lparr>inputChan := []\<rparr>) = Some s' \<and>
     sbids (book_view (ob s')) = sbids (book_view (ob ex_odd_server)) \<and>
     (\<exists>sd. ordersProcessed s' (sd, ''limit'') = ordersProcessed ex_odd_server (sd, ''limit'') + 1)"
proof -
  have rr: "request_room ex_req (ob ex_odd_server)"
    using ex_odd_server_state by (simp add: request_room_def order_room_def has_room_def ex_odd_order_def)
  have no: "new_order (ob ex_odd_server) 0 ex_odd_order"
    using ex_odd_server_state by (simp add: new_order_def ex_odd_order_def)
  show ?thesis
    using odd_type_counted_as_limit [OF ex_odd_server_reachable ex_odd_server_state(1,2) rr ex_odd_server_state(4,5) no]
    by (simp add: own_levels_def ex_odd_order_def)
qed

end
