(* ===== verification/Load_System.thy ===== *)
theory Load_System
  imports Loadgen Api_Server_Props
begin

text \<open>
  The load generator against the API server: the loop of \<open>NoiseTraderBot.Start\<close>
  (\<open>pkg/loadgen/profiles.go\<close>), in which a bot draws an order, posts it and waits for the reply,
  run together with the collector of \<open>Orchestrator.Run\<close> and with all goroutines of the server.
\<close>

section \<open>Orders that the server has processed\<close>

definition counter_labels :: "(string \<times> string) set" where
  "counter_labels = {''BUY'', ''SELL''} \<times> {''limit'', ''market''}"

text \<open>The total of the counter \<open>trading_orders_processed_total\<close>.\<close>

definition processed_total :: "server \<Rightarrow> nat" where
  "processed_total s = (\<Sum>l \<in> counter_labels. ordersProcessed s l)"

text \<open>The handlers that a step starts with an order for the matching loop.\<close>

definition new_orders :: "server \<Rightarrow> server \<Rightarrow> nat set" where
  "new_orders s s' = {h. handlers s h = None \<and> (\<exists>r. handlers s' h = Some (Sending r) \<and> qType r = PlaceRequest)}"

definition answered :: "(nat \<rightharpoonup> handler) \<Rightarrow> (nat \<rightharpoonup> response) \<Rightarrow> nat \<Rightarrow> bool" where
  "answered hs rc h \<longleftrightarrow> rc h \<noteq> None \<or> (\<exists>x. hs h = Some (Replied x))"

text \<open>An order request stays one until it is answered with 200.\<close>

fun order_handler :: "handler option \<Rightarrow> bool" where
  "order_handler (Some (Sending r)) = (qType r = PlaceRequest)"
| "order_handler (Some (Waiting t)) = (t = PlaceRequest)"
| "order_handler (Some (Replied (HttpJson code r))) = (code = 200)"
| "order_handler _ = False"

fun other_handler :: "handler option \<Rightarrow> bool" where
  "other_handler (Some (Sending r)) = (qType r \<noteq> PlaceRequest)"
| "other_handler (Some (Waiting t)) = (t \<noteq> PlaceRequest)"
| "other_handler _ = True"

definition orders_counted :: "server \<Rightarrow> nat set \<Rightarrow> bool" where
  "orders_counted s P \<longleftrightarrow> finite P \<and> (\<forall>h \<in> P. order_handler (handlers s h)) \<and> (\<forall>h. h \<notin> P \<longrightarrow> other_handler (handlers s h)) \<and>
     processed_total s = card {h \<in> P. answered (handlers s) (resChan s) h}"

lemma orders_countedI:
  "finite P \<Longrightarrow> (\<And>h. h \<in> P \<Longrightarrow> order_handler (handlers s h)) \<Longrightarrow> (\<And>h. h \<notin> P \<Longrightarrow> other_handler (handlers s h)) \<Longrightarrow>
   processed_total s = card {h \<in> P. answered (handlers s) (resChan s) h} \<Longrightarrow> orders_counted s P"
  by (simp add: orders_counted_def)

lemma orders_countedD:
  assumes "orders_counted s P"
  shows "finite P" "h \<in> P \<Longrightarrow> order_handler (handlers s h)" "h \<notin> P \<Longrightarrow> other_handler (handlers s h)"
    "processed_total s = card {h \<in> P. answered (handlers s) (resChan s) h}"
  using assms by (auto simp: orders_counted_def)

text \<open>A handler changes, or a new one comes, and no order is answered by that.\<close>

lemma orders_counted_upd:
  assumes c: "orders_counted s P" and s': "handlers s' = (handlers s)(h \<mapsto> x)" "resChan s' = rc" "ordersProcessed s' = ordersProcessed s"
    and same: "answered (handlers s') rc h = answered (handlers s) (resChan s) h \<or> h \<notin> P" "\<And>k. k \<noteq> h \<Longrightarrow> rc k = resChan s k"
    and kind: "h \<in> P \<Longrightarrow> order_handler (Some x)" "h \<notin> P \<Longrightarrow> other_handler (Some x)"
  shows "orders_counted s' P"
proof (rule orders_countedI)
  have "answered (handlers s') rc k = answered (handlers s) (resChan s) k" if "k \<in> P" for k
    using same that s'(1) by (cases "k = h") (auto simp: answered_def)
  then have "{k \<in> P. answered (handlers s') (resChan s') k} = {k \<in> P. answered (handlers s) (resChan s) k}" using s'(2) by blast
  moreover have "processed_total s' = processed_total s" using s'(3) by (simp add: processed_total_def)
  ultimately show "processed_total s' = card {k \<in> P. answered (handlers s') (resChan s') k}"
    using orders_countedD(4) [OF c] by (simp only:)
qed (use orders_countedD(1-3) [OF c] s'(1) kind in auto)

lemma orders_counted_new:
  assumes c: "orders_counted s P" and h: "handlers s h = None" "resChan s h = None"
    and s': "handlers s' = (handlers s)(h \<mapsto> x)" "resChan s' = resChan s" "ordersProcessed s' = ordersProcessed s"
    and x: "(\<exists>r. x = Sending r) \<or> (\<exists>y. x = Replied y)"
  shows "orders_counted s' (P \<union> new_orders s s')"
proof -
  have hP: "h \<notin> P" using orders_countedD(2) [OF c, of h] h by auto
  show ?thesis
  proof (cases "\<exists>r. x = Sending r \<and> qType r = PlaceRequest")
    case True
    then have n: "new_orders s s' = {h}" using h s'(1) by (auto simp: new_orders_def split: if_splits)
    have "\<not> answered (handlers s') (resChan s') h" using True h s' by (auto simp: answered_def)
    moreover have "answered (handlers s') (resChan s') k = answered (handlers s) (resChan s) k" if "k \<in> P" for k
      using that hP s' by (auto simp: answered_def)
    ultimately have "{k \<in> P \<union> {h}. answered (handlers s') (resChan s') k} = {k \<in> P. answered (handlers s) (resChan s) k}" by blast
    moreover have "processed_total s' = processed_total s" using s'(3) by (simp add: processed_total_def)
    ultimately have "processed_total s' = card {k \<in> P \<union> {h}. answered (handlers s') (resChan s') k}"
      using orders_countedD(4) [OF c] by (simp only:)
    then show ?thesis unfolding n using orders_countedD(1-3) [OF c] True s'(1) by (intro orders_countedI) auto
  next
    case False
    have n: "new_orders s s' = {}" using h s'(1) False by (auto simp: new_orders_def split: if_splits)
    have "other_handler (Some x)" using x False by auto
    then have "orders_counted s' P" using hP by (intro orders_counted_upd [OF c s'(1,2,3)]) auto
    then show ?thesis using n by simp
  qed
qed

lemma counter_labels_order: "(Side_String sd, order_label ty) \<in> counter_labels"
  by (simp add: counter_labels_def Side_String_def order_label_def)

lemma orders_counted_place:
  assumes c: "orders_counted s P" and h: "handlers s (qResult r) = Some (Waiting PlaceRequest)" "resChan s (qResult r) = None"
    and l: "loop_place r (s\<lparr>inputChan := q\<rparr>) = Some s'"
  shows "orders_counted s' P"
proof -
  obtain p b ts x where p: "Process p (ob s) = Some (b, ts)" "oheap b p = Some x"
     "s' = s\<lparr>inputChan := q, ob := b, ordersProcessed := (let lab = (Side_String (oSide x), order_label (oType x)) in (ordersProcessed s)(lab := ordersProcessed s lab + 1)),
        resChan := (resChan s)(qResult r \<mapsto> \<lparr>rSuccess = True, rTrades = ts, rError = []\<rparr>), bookChanged := True,
        loopPc := (if ts \<noteq> [] then Broadcasting \<lparr>wsType = ''trade'', wsData = TradeData ts\<rparr> False else Selecting)\<rparr>"
    using l by (auto simp: loop_place_def Let_def bind_eq_Some_conv simp del: fun_upd_apply)
  have s': "handlers s' = handlers s" "resChan s' = (resChan s)(qResult r \<mapsto> \<lparr>rSuccess = True, rTrades = ts, rError = []\<rparr>)"
     "ordersProcessed s' = (let lab = (Side_String (oSide x), order_label (oType x)) in (ordersProcessed s)(lab := ordersProcessed s lab + 1))"
    unfolding p(3) by simp_all
  let ?lab = "(Side_String (oSide x), order_label (oType x))"
  have "sum (ordersProcessed s') counter_labels = sum (ordersProcessed s) counter_labels + 1"
    unfolding s'(3) Let_def by (subst (1 2) sum.remove [OF _ counter_labels_order [of "oSide x" "oType x"]]) (simp_all add: counter_labels_def)
  then have t: "processed_total s' = processed_total s + 1" by (simp add: processed_total_def)
  have hP: "qResult r \<in> P" using orders_countedD(3) [OF c, of "qResult r"] h(1) by auto
  have "{k \<in> P. answered (handlers s') (resChan s') k} = insert (qResult r) {k \<in> P. answered (handlers s) (resChan s) k}"
    using hP s' by (auto simp: answered_def)
  moreover have "\<not> answered (handlers s) (resChan s) (qResult r)" using h by (simp add: answered_def)
  ultimately have "card {k \<in> P. answered (handlers s') (resChan s') k} = card {k \<in> P. answered (handlers s) (resChan s) k} + 1"
    using orders_countedD(1) [OF c] by simp
  then show ?thesis using t orders_countedD [OF c] s'(1) by (intro orders_countedI) simp_all
qed

lemma orders_counted_cancel:
  assumes c: "orders_counted s P" and h: "handlers s (qResult r) = Some (Waiting CancelRequest)"
    and l: "loop_cancel r (s\<lparr>inputChan := q\<rparr>) = Some s'"
  shows "orders_counted s' P"
proof -
  obtain resp where s': "handlers s' = handlers s" "resChan s' = (resChan s)(qResult r \<mapsto> resp)" "ordersProcessed s' = ordersProcessed s"
    using l by (auto simp: loop_cancel_def Let_def bind_eq_Some_conv split: if_splits)
  have hP: "qResult r \<notin> P" using orders_countedD(2) [OF c, of "qResult r"] h(1) by auto
  have "handlers s' = (handlers s)(qResult r \<mapsto> Waiting CancelRequest)" using s'(1) h by auto
  then show ?thesis using hP by (intro orders_counted_upd [OF c _ s'(2,3)]) auto
qed

lemma orders_counted_same:
  "orders_counted s P \<Longrightarrow> handlers s' = handlers s \<Longrightarrow> resChan s' = resChan s \<Longrightarrow> ordersProcessed s' = ordersProcessed s \<Longrightarrow> orders_counted s' P"
  by (simp add: orders_counted_def processed_total_def)

lemma new_orders_same: "handlers s' = handlers s \<Longrightarrow> new_orders s s' = {}"
  by (auto simp: new_orders_def)

lemma new_orders_upd: "handlers s h \<noteq> None \<Longrightarrow> handlers s' = (handlers s)(h \<mapsto> x) \<Longrightarrow> new_orders s s' = {}"
  by (auto simp: new_orders_def split: if_splits)

lemma loop_place_handlers: "loop_place r s = Some s' \<Longrightarrow> handlers s' = handlers s"
  by (auto simp: loop_place_def Let_def bind_eq_Some_conv)

lemma orders_counted_idle:
  "orders_counted s P \<Longrightarrow> handlers s' = handlers s \<Longrightarrow> resChan s' = resChan s \<Longrightarrow> ordersProcessed s' = ordersProcessed s \<Longrightarrow>
     orders_counted s' (P \<union> new_orders s s')"
  using orders_counted_same [of s P s'] new_orders_same [of s' s] by simp

text \<open>A handler goes from \<open>y\<close> to \<open>x\<close> without becoming, or ceasing to be, answered.\<close>

lemma orders_counted_moved:
  assumes c: "orders_counted s P" and h: "handlers s h = Some y"
    and s': "handlers s' = (handlers s)(h \<mapsto> x)" "resChan s' = rc" "ordersProcessed s' = ordersProcessed s"
    and same: "answered (handlers s') rc h = answered (handlers s) (resChan s) h" "\<And>k. k \<noteq> h \<Longrightarrow> rc k = resChan s k"
    and kind: "order_handler (Some y) \<Longrightarrow> order_handler (Some x)" "other_handler (Some y) \<Longrightarrow> other_handler (Some x)"
  shows "orders_counted s' (P \<union> new_orders s s')"
proof -
  have "orders_counted s' P"
    using same kind orders_countedD(2,3) [OF c, of h] h by (intro orders_counted_upd [OF c s']) auto
  then show ?thesis using new_orders_upd [OF _ s'(1)] h by simp
qed

lemma orders_counted_request:
  assumes c: "orders_counted s P" and h: "handlers s (qResult req) = Some (Waiting (qType req))" "resChan s (qResult req) = None"
    and l: "loop_request req (s\<lparr>inputChan := reqs\<rparr>) = Some s'"
  shows "orders_counted s' (P \<union> new_orders s s')"
proof (cases "qType req")
  case PlaceRequest
  then have l: "loop_place req (s\<lparr>inputChan := reqs\<rparr>) = Some s'" using l by (simp add: loop_request_def)
  then have "handlers s' = handlers s" using loop_place_handlers by fastforce
  then show ?thesis using orders_counted_place [OF c _ h(2) l] h(1) PlaceRequest new_orders_same [of s' s] by simp
next
  case CancelRequest
  then have l: "loop_cancel req (s\<lparr>inputChan := reqs\<rparr>) = Some s'" using l by (simp add: loop_request_def)
  then have "handlers s' = handlers s" by (auto simp: loop_cancel_def Let_def bind_eq_Some_conv split: if_splits)
  then show ?thesis using orders_counted_cancel [OF c _ l] h(1) CancelRequest new_orders_same [of s' s] by simp
qed

lemma orders_counted_step:
  assumes "server_step s s'" "server_inv s" "orders_counted s P"
  shows "orders_counted s' (P \<union> new_orders s s')"
proof -
  have ch: "chan_ok (inputChan s) (handlers s) (resChan s)" using assms(2) by (simp add: server_inv_def)
  have fresh: "resChan s h = None" if "handlers s h = None" for h using chan_ok_fresh [OF ch that] by blast
  note new = orders_counted_new [OF assms(3) _ fresh] and idle = orders_counted_idle [OF assms(3)]
  show ?thesis using assms(1)
  proof cases
    case (place h body now)
    have "\<exists>x. handlers s' = (handlers s)(h \<mapsto> x) \<and> resChan s' = resChan s \<and> ordersProcessed s' = ordersProcessed s \<and>
       ((\<exists>r. x = Sending r) \<or> (\<exists>y. x = Replied y))"
      unfolding place(1) by (auto simp: handlePlaceOrder_def set_handler_def split: option.splits prod.splits)
    then show ?thesis using new [OF place(2) place(2)] by blast
  next
    case (cancel h path)
    have "\<exists>x. handlers s' = (handlers s)(h \<mapsto> x) \<and> resChan s' = resChan s \<and> ordersProcessed s' = ordersProcessed s \<and>
       ((\<exists>r. x = Sending r) \<or> (\<exists>y. x = Replied y))"
      unfolding cancel(1) by (auto simp: handleCancelOrder_def set_handler_def Let_def)
    then show ?thesis using new [OF cancel(2) cancel(2)] by blast
  next
    case (book h)
    show ?thesis by (rule new [OF book(2) book(2), where x = "Replied (HttpDepth (depthCache s))"])
      (simp_all add: book(1) handleGetOrderBook_def set_handler_def)
  next
    case (enqueue h req)
    show ?thesis unfolding enqueue(1)
      by (rule orders_counted_moved [OF assms(3) enqueue(2)]) (auto simp: enqueue_def set_handler_def answered_def enqueue(2))
  next
    case (reply h t r)
    show ?thesis unfolding reply(1)
      by (rule orders_counted_moved [OF assms(3) reply(2), where rc = "(resChan s)(h := None)"]) (auto simp: write_reply_eq set_handler_def answered_def reply(2,3))
  next
    case (request req reqs)
    have "handlers s (qResult req) = Some (Waiting (qType req))" using ch request(2) by (simp add: chan_ok_def)
    then show ?thesis using orders_counted_request [OF assms(3) _ request(3,4)] by simp
  next
    case tick
    then show ?thesis by (intro idle) (auto simp: loop_tick_def bind_eq_Some_conv split: if_splits)
  next
    case (publish m reset)
    then show ?thesis by (intro idle) (simp_all add: broadcastEvent_def)
  next
    case (hub h')
    then show ?thesis by (intro idle) simp_all
  qed
qed

lemma replied_final: "server_step s s' \<Longrightarrow> handlers s h = Some (Replied y) \<Longrightarrow> handlers s' h = Some (Replied y)"
  by (induction rule: server_step.induct)
    (auto simp: handlePlaceOrder_def handleCancelOrder_def handleGetOrderBook_def enqueue_def write_reply_eq set_handler_def
      loop_request_def loop_place_def loop_cancel_def loop_tick_def broadcastEvent_def Let_def bind_eq_Some_conv
      split: option.splits prod.splits if_splits request_type.splits)

section \<open>The bots and the server together\<close>

text \<open>
  \<open>doing i\<close> is the server's handler of the request that bot \<open>i\<close> waits for in \<open>httpClient.Do\<close>.
  The rest is bookkeeping for the statements: the handlers that have taken an order, from anyone,
  and those whose reply a bot has seen or has given up on.
\<close>

record load_sys =
  lr :: load_run
  srv :: server
  doing :: "nat \<rightharpoonup> nat"
  placing :: "nat set"
  won :: "nat set"
  lost :: "nat set"

text \<open>
  What \<open>Start\<close> of a bot begins with: the interval of its ticker, or a panic, and the address it
  posts to.  \<open>MarketMakerBot\<close> delegates to the noise trader.
\<close>

record bot_config =
  bcURL :: string
  bcInterval :: int

definition NoiseTraderBot_Start :: "string \<Rightarrow> int \<Rightarrow> bot_config option" where
  "NoiseTraderBot_Start endpoint TPS = do {
     d \<leftarrow> ticker_interval TPS;
     Some \<lparr>bcURL = endpoint @ ''/api/v1/orders'', bcInterval = d\<rparr> }"

definition MarketMakerBot_Start :: "string \<Rightarrow> int \<Rightarrow> bot_config option" where
  "MarketMakerBot_Start endpoint TPS = NoiseTraderBot_Start endpoint TPS"

text \<open>That address is the one at which the server takes orders.\<close>

lemma bot_route: "NoiseTraderBot_Start endpoint TPS = Some b \<Longrightarrow> RegisterRoutes ''POST'' (drop (length endpoint) (bcURL b)) = Some RPlace"
  by (auto simp: NoiseTraderBot_Start_def bind_eq_Some_conv RegisterRoutes_def)

definition reply_status :: "http_reply \<Rightarrow> nat" where
  "reply_status x = (case x of HttpError code _ \<Rightarrow> code | HttpJson code _ \<Rightarrow> code | HttpDepth _ \<Rightarrow> 200)"

text \<open>A tick of bot \<open>i\<close>: it draws an order and posts it, and the server starts a handler for it.\<close>

definition bot_post :: "(nat \<Rightarrow> 'g \<Rightarrow> nat \<times> 'g) \<Rightarrow> nat \<Rightarrow> nat \<Rightarrow> string \<Rightarrow> 'g \<Rightarrow> int \<Rightarrow> load_sys \<Rightarrow> load_sys" where
  "bot_post Intn i h uuid g now c =
     (let s' = handlePlaceOrder h (Some (fst (noise_order Intn uuid g))) now (srv c)
      in c\<lparr>srv := s', doing := (doing c)(i \<mapsto> h), placing := placing c \<union> new_orders (srv c) s'\<rparr>)"

text \<open>\<open>Do\<close> has returned: the bot has a measurement for the collector.\<close>

definition bot_measure :: "nat \<Rightarrow> latency_metric \<Rightarrow> load_sys \<Rightarrow> load_sys" where
  "bot_measure i m c = c\<lparr>lr := (lr c)\<lparr>bots := (bots (lr c))[i := SendingMetric m], produced := add_mset m (produced (lr c))\<rparr>,
     doing := (doing c)(i := None)\<rparr>"

inductive load_system :: "(nat \<Rightarrow> 'g \<Rightarrow> nat \<times> 'g) \<Rightarrow> orchestrator \<Rightarrow> load_sys \<Rightarrow> bool" for Intn orc where
  init: "run_start orc = Some l \<Longrightarrow>
    load_system Intn orc \<lparr>lr = l, srv = NewServer, doing = Map.empty, placing = {}, won = {}, lost = {}\<rparr>"
| post: "load_system Intn orc c \<Longrightarrow> i < length (bots (lr c)) \<Longrightarrow> bots (lr c) ! i = Ticking \<Longrightarrow> doing c i = None \<Longrightarrow>
    handlers (srv c) h = None \<Longrightarrow> uuid \<noteq> [] \<Longrightarrow> load_system Intn orc (bot_post Intn i h uuid g now c)"
| answer: "load_system Intn orc c \<Longrightarrow> doing c i = Some h \<Longrightarrow> handlers (srv c) h = Some (Replied rep) \<Longrightarrow>
    bot_metric (StatusCode (reply_status rep)) latency = Some m \<Longrightarrow>
    load_system Intn orc ((bot_measure i m c)\<lparr>won := insert h (won c)\<rparr>)"
| fail: "load_system Intn orc c \<Longrightarrow> doing c i = Some h \<Longrightarrow> bot_metric DoError latency = Some m \<Longrightarrow>
    load_system Intn orc ((bot_measure i m c)\<lparr>lost := insert h (lost c)\<rparr>)"
| collector: "load_system Intn orc c \<Longrightarrow> lg_step (lr c) l' \<Longrightarrow> produced l' = produced (lr c) \<Longrightarrow>
    \<forall>i. doing c i \<noteq> None \<longrightarrow> bots l' ! i = bots (lr c) ! i \<Longrightarrow> load_system Intn orc (c\<lparr>lr := l'\<rparr>)"
| serve: "load_system Intn orc c \<Longrightarrow> server_step (srv c) s' \<Longrightarrow> step_room (srv c) s' \<Longrightarrow>
    load_system Intn orc (c\<lparr>srv := s', placing := placing c \<union> new_orders (srv c) s'\<rparr>)"

definition bots_ok :: "load_sys \<Rightarrow> bool" where
  "bots_ok c \<longleftrightarrow> (\<forall>i h. doing c i = Some h \<longrightarrow> i < length (bots (lr c)) \<and> bots (lr c) ! i = Ticking \<and> h \<in> placing c \<and> h \<notin> won c \<union> lost c) \<and>
     (\<forall>i j h. doing c i = Some h \<longrightarrow> doing c j = Some h \<longrightarrow> i = j) \<and> won c \<union> lost c \<subseteq> placing c \<and> won c \<inter> lost c = {} \<and>
     (\<forall>h \<in> won c. \<exists>y. handlers (srv c) h = Some (Replied y)) \<and>
     size (filter_mset mIsSuccess (produced (lr c))) = card (won c) \<and> size (filter_mset (\<lambda>m. \<not> mIsSuccess m) (produced (lr c))) = card (lost c)"

definition sys_inv :: "orchestrator \<Rightarrow> load_sys \<Rightarrow> bool" where
  "sys_inv orc c \<longleftrightarrow> lg_reachable orc (lr c) \<and> server_reachable (srv c) \<and> orders_counted (srv c) (placing c) \<and> bots_ok c"

lemma noise_order_valid:
  assumes "Intn_ok Intn"
  shows "bID (fst (noise_order Intn uuid g)) = uuid" "bQuantity (fst (noise_order Intn uuid g)) \<noteq> 0"
proof -
  obtain sd g1 where sd: "Intn 2 g = (sd, g1)" by fastforce
  obtain ty g2 where ty: "Intn 2 g1 = (ty, g2)" by fastforce
  obtain r g3 where r: "Intn 2000 g2 = (r, g3)" by fastforce
  obtain q g4 where q: "Intn 100 g3 = (q, g4)" by fastforce
  have "q < 100" using assms q unfolding Intn_ok_def by (metis fst_conv zero_less_numeral)
  then have "unat (of_nat (1 + q) :: u64) = 1 + q" using unat_of_nat_u64 [of "1 + q"] by (simp add: fits64_def)
  then have "(of_nat (1 + q) :: u64) \<noteq> 0" by (metis add_is_0 unat_0 zero_neq_one)
  then show "bID (fst (noise_order Intn uuid g)) = uuid" "bQuantity (fst (noise_order Intn uuid g)) \<noteq> 0"
    by (simp_all add: noise_order_def Let_def sd ty r q del: of_nat_add of_nat_Suc)
qed

lemma post_new_orders:
  assumes "Intn_ok Intn" "uuid \<noteq> []" "handlers s h = None"
  shows "new_orders s (handlePlaceOrder h (Some (fst (noise_order Intn uuid g))) now s) = {h}"
  using assms(2,3) noise_order_valid [OF assms(1), of uuid g]
  by (auto simp: new_orders_def handlePlaceOrder_def set_handler_def split: prod.splits if_splits)

lemma sys_inv_serve:
  assumes "sys_inv orc c" "server_step (srv c) s'" "step_room (srv c) s'"
  shows "server_reachable s' \<and> orders_counted s' (placing c \<union> new_orders (srv c) s')"
  using assms server_reachable.step orders_counted_step [OF assms(2)] server_reachable_inv by (auto simp: sys_inv_def)

lemma new_orders_not_placing: "orders_counted s P \<Longrightarrow> handlers s h = None \<Longrightarrow> h \<notin> P"
  using orders_countedD(2) [of s P h] by auto

lemma measure_inv:
  assumes i: "sys_inv orc c" and d: "doing c i = Some h" and m: "bot_metric res latency = Some m"
  shows "lg_reachable orc (lr (bot_measure i m c))"
proof -
  have "lg_step (lr c) (lr (bot_measure i m c))"
    using i d m unfolding bot_measure_def by (auto simp: sys_inv_def bots_ok_def intro!: lg_step.tick)
  then show ?thesis using i lg_reachable.step by (auto simp: sys_inv_def)
qed

lemma load_system_inv:
  assumes "Intn_ok Intn" "load_system Intn orc c"
  shows "sys_inv orc c"
  using assms(2)
proof (induction rule: load_system.induct)
  case (init l)
  have "produced l = {#}" using init by (auto simp: run_start_def Let_def bind_eq_Some_conv split: if_splits)
  moreover have "orders_counted NewServer {}" by (simp add: orders_counted_def NewServer_def processed_total_def)
  ultimately show ?case using init by (auto simp: sys_inv_def bots_ok_def intro: lg_reachable.init server_reachable.init)
next
  case (post c i h uuid g now)
  let ?s = "handlePlaceOrder h (Some (fst (noise_order Intn uuid g))) now (srv c)"
  have n: "new_orders (srv c) ?s = {h}" by (rule post_new_orders [OF assms(1) post.hyps(6,5)])
  have st: "server_step (srv c) ?s" by (rule server_step.place [OF post.hyps(5)])
  have "h \<notin> placing c" using post.IH new_orders_not_placing [OF _ post.hyps(5)] by (simp add: sys_inv_def)
  then have "bots_ok (bot_post Intn i h uuid g now c)"
    using post.IH post.hyps(2-4) n replied_final [OF st] unfolding sys_inv_def bots_ok_def bot_post_def Let_def
    by (auto split: if_splits)
  then show ?case using sys_inv_serve [OF post.IH st step_room_other] post.IH by (simp add: sys_inv_def bot_post_def Let_def)
next
  case (answer c i h rep latency m)
  have b: "bots_ok c" and oc: "orders_counted (srv c) (placing c)" using answer.IH by (simp_all add: sys_inv_def)
  have h: "h \<in> placing c" "h \<notin> won c \<union> lost c" using b answer.hyps(2) by (auto simp: bots_ok_def)
  have "order_handler (Some (Replied rep))" using orders_countedD(2) [OF oc h(1)] answer.hyps(3) by simp
  then have "mIsSuccess m" using answer.hyps(4) by (cases rep) (auto simp: reply_status_def bot_metric_def)
  moreover have "finite (won c)" using b orders_countedD(1) [OF oc] finite_subset by (auto simp: bots_ok_def)
  ultimately have "bots_ok ((bot_measure i m c)\<lparr>won := insert h (won c)\<rparr>)"
    using b h answer.hyps(2,3) unfolding bots_ok_def bot_measure_def by (auto simp: nth_list_update split: if_splits)
  then show ?case using measure_inv [OF answer.IH answer.hyps(2,4)] answer.IH by (simp add: sys_inv_def bot_measure_def)
next
  case (fail c i h latency m)
  have b: "bots_ok c" and oc: "orders_counted (srv c) (placing c)" using fail.IH by (simp_all add: sys_inv_def)
  have h: "h \<in> placing c" "h \<notin> won c \<union> lost c" using b fail.hyps(2) by (auto simp: bots_ok_def)
  have "\<not> mIsSuccess m" using fail.hyps(3) by (auto simp: bot_metric_def)
  moreover have "finite (lost c)" using b orders_countedD(1) [OF oc] finite_subset by (auto simp: bots_ok_def)
  ultimately have "bots_ok ((bot_measure i m c)\<lparr>lost := insert h (lost c)\<rparr>)"
    using b h fail.hyps(2) unfolding bots_ok_def bot_measure_def by (auto simp: nth_list_update split: if_splits)
  then show ?case using measure_inv [OF fail.IH fail.hyps(2,3)] fail.IH by (simp add: sys_inv_def bot_measure_def)
next
  case (collector c l')
  have "length (bots l') = length (bots (lr c))"
    using collector.hyps(2) by cases (auto simp: send_metric_def hand_metric_def split: if_splits)
  then have "bots_ok (c\<lparr>lr := l'\<rparr>)" using collector.IH collector.hyps(3,4) by (auto simp: sys_inv_def bots_ok_def)
  then show ?case using collector.IH lg_reachable.step [OF _ collector.hyps(2)] by (simp add: sys_inv_def)
next
  case (serve c s')
  have "bots_ok (c\<lparr>srv := s', placing := placing c \<union> new_orders (srv c) s'\<rparr>)"
    using serve.IH replied_final [OF serve.hyps(2)] unfolding sys_inv_def bots_ok_def by auto
  then show ?case using sys_inv_serve [OF serve.IH serve.hyps(2,3)] serve.IH by (simp add: sys_inv_def)
qed

section \<open>Properties\<close>

lemma report_stats:
  assumes "lg_reachable orc l" "report l = Some st"
  shows "st = summary (produced l)" "b \<in> set (bots l) \<Longrightarrow> b = Exited"
proof -
  note a = reachable_accounted [OF assms(1), unfolded accounted_def]
  obtain C where C: "stats l = summary C" "produced l = C + mset (metrics l) + flying (bots l)" using a by blast
  have ex: "\<forall>b \<in> set (bots l). b = Exited" and "metrics l = []" "st = stats l" using a assms(2) by blast+
  then show "st = summary (produced l)" using C flying_exited [OF ex] by simp
  show "b \<in> set (bots l) \<Longrightarrow> b = Exited" using ex by blast
qed

text \<open>
  C12. The report of the load generator agrees with the engine: in every interleaving of the bots,
  the collector, the server's goroutines and any other clients, each request of a bot that was
  answered is a success and the rest are the requests the bots gave up on; the successes are
  distinct orders that the matching loop has processed and counted.  If the bots are the only
  ones to place orders and none was given up on, the printed number of successes is exactly the
  server's counter of processed orders.
\<close>

theorem load_report_matches_engine:
  assumes "Intn_ok Intn" "load_system Intn orc c" "report (lr c) = Some st"
  shows "totalRequests st = successCount st + card (lost c) \<and> successCount st \<le> processed_total (srv c) \<and>
     (lost c = {} \<and> placing c = won c \<union> lost c \<union> ran (doing c) \<longrightarrow> successCount st = processed_total (srv c))"
proof -
  have i: "lg_reachable orc (lr c)" "orders_counted (srv c) (placing c)" "bots_ok c"
    using load_system_inv [OF assms(1,2)] by (simp_all add: sys_inv_def)
  note r = report_stats [OF i(1) assms(3)]
  let ?A = "{h \<in> placing c. answered (handlers (srv c)) (resChan (srv c)) h}"
  have "size (produced (lr c)) = size (filter_mset mIsSuccess (produced (lr c))) + size (filter_mset (\<lambda>m. \<not> mIsSuccess m) (produced (lr c)))"
    by (metis multiset_partition size_union)
  then have st: "totalRequests st = card (won c) + card (lost c)" "successCount st = card (won c)"
    using i(3) r(1) by (simp_all add: bots_ok_def summary_def)
  have sub: "won c \<subseteq> ?A" using i(3) by (auto simp: bots_ok_def answered_def)
  then have le: "card (won c) \<le> processed_total (srv c)"
    using orders_countedD(1,4) [OF i(2)] card_mono [OF _ sub] by simp
  have "card (won c) = processed_total (srv c)" if "lost c = {}" "placing c = won c \<union> lost c \<union> ran (doing c)"
  proof -
    have "doing c i = None" for i using i(3) r(2) nth_mem [of i "bots (lr c)"] by (cases "doing c i") (auto simp: bots_ok_def)
    then have "ran (doing c) = {}" by (auto simp: ran_def)
    then have "?A = won c" using sub that by auto
    then show ?thesis using orders_countedD(4) [OF i(2)] by simp
  qed
  then show ?thesis using st le by simp
qed

text \<open>A run with one bot and one order.\<close>

definition ex_Intn :: "nat \<Rightarrow> nat \<Rightarrow> nat \<times> nat" where
  "ex_Intn n g = (g mod n, g + 1)"

definition ex_bot_body :: placeOrderReq where
  "ex_bot_body = \<lparr>bID = ''7c9e'', bSide = 1, bType = 0, bPrice = 10043, bQuantity = 45\<rparr>"

lemma ex_bot_body: "fst (noise_order ex_Intn ''7c9e'' 41) = ex_bot_body"
  by (simp add: noise_order_def ex_Intn_def ex_bot_body_def)

definition ex_place :: order_request where
  "ex_place = \<lparr>qType = PlaceRequest, qOrder = Some 0, qCancelID = [], qResult = 1\<rparr>"

definition ex_srv :: "nat \<Rightarrow> server" where
  "ex_srv k = (let s1 = handlePlaceOrder 1 (Some ex_bot_body) 0 NewServer;
     s2 = enqueue 1 ex_place s1;
     s3 = the (loop_request ex_place (s2\<lparr>inputChan := []\<rparr>));
     s4 = write_reply 1 PlaceRequest \<lparr>rSuccess = True, rTrades = [], rError = []\<rparr> s3
   in if k = 1 then s1 else if k = 2 then s2 else if k = 3 then s3 else s4)"

definition ex_sys :: "load_run \<Rightarrow> nat \<Rightarrow> (nat \<rightharpoonup> nat) \<Rightarrow> nat set \<Rightarrow> load_sys" where
  "ex_sys l k d w = \<lparr>lr = l, srv = ex_srv k, doing = d, placing = {1}, won = w, lost = {}\<rparr>"

lemma ex_srv_state:
  "handlers (ex_srv 1) 1 = Some (Sending ex_place)" "inputChan (ex_srv 1) = []"
  "loopPc (ex_srv 2) = Selecting" "inputChan (ex_srv 2) = [ex_place]" "resChan (ex_srv 2) 1 = None"
  "\<not> Option.is_none (loop_request ex_place ((ex_srv 2)\<lparr>inputChan := []\<rparr>))"
  "handlers (ex_srv 3) 1 = Some (Waiting PlaceRequest)" "resChan (ex_srv 3) 1 = Some \<lparr>rSuccess = True, rTrades = [], rError = []\<rparr>"
  "handlers (ex_srv 4) 1 = Some (Replied (HttpJson 200 \<lparr>rSuccess = True, rTrades = [], rError = []\<rparr>))"
  "level_volume Asks 10043 (ob (ex_srv 2)) = 0" "map_option (\<lambda>x. (oSide x, oPrice x, oQuantity x)) (oheap (ob (ex_srv 2)) 0) = Some (1, 10043, 45)"
  by code_simp+

lemma ex_Intn_ok: "Intn_ok ex_Intn"
  by (simp add: Intn_ok_def ex_Intn_def)

lemma ex_srv_steps: "server_step (ex_srv 1) (ex_srv 2)" "server_step (ex_srv 2) (ex_srv 3)" "server_step (ex_srv 3) (ex_srv 4)"
  "step_room (ex_srv 1) (ex_srv 2)" "step_room (ex_srv 2) (ex_srv 3)" "step_room (ex_srv 3) (ex_srv 4)"
proof -
  have 2: "ex_srv 2 = enqueue 1 ex_place (ex_srv 1)" by (simp add: ex_srv_def Let_def)
  show "server_step (ex_srv 1) (ex_srv 2)" unfolding 2
    by (rule server_step.enqueue [OF ex_srv_state(1)]) (unfold ex_srv_state(2) input_cap_def, simp)
  show "step_room (ex_srv 1) (ex_srv 2)" unfolding 2 by (rule step_room_other) simp
  obtain x where x: "oheap (ob (ex_srv 2)) 0 = Some x" "oSide x = 1" "oPrice x = 10043" "oQuantity x = 45" using ex_srv_state(11) by auto
  have "request_room ex_place (ob (ex_srv 2))"
    using x ex_srv_state(10) by (simp add: request_room_def order_room_def has_room_def ex_place_def maker_side_def fits64_def)
  moreover have l: "loop_request ex_place ((ex_srv 2)\<lparr>inputChan := []\<rparr>) = Some (ex_srv 3)"
    using ex_srv_state(6) by (simp add: Option.is_none_def) (simp add: ex_srv_def Let_def)
  ultimately show "server_step (ex_srv 2) (ex_srv 3)" "step_room (ex_srv 2) (ex_srv 3)"
    using server_step.request [OF ex_srv_state(3,4)] step_room_request [OF ex_srv_state(4) l] ex_srv_state(5)
    by (simp_all add: ex_place_def)
  have 4: "ex_srv 4 = write_reply 1 PlaceRequest \<lparr>rSuccess = True, rTrades = [], rError = []\<rparr> (ex_srv 3)" by (simp add: ex_srv_def Let_def)
  then show "server_step (ex_srv 3) (ex_srv 4)" using server_step.reply [OF ex_srv_state(7,8)] by simp
  show "step_room (ex_srv 3) (ex_srv 4)" unfolding 4 by (rule step_room_other) simp
qed

lemma ex_srv_new: "new_orders (ex_srv 1) (ex_srv 2) = {}" "new_orders (ex_srv 2) (ex_srv 3) = {}" "new_orders (ex_srv 3) (ex_srv 4) = {}"
proof -
  have "ex_srv 2 = enqueue 1 ex_place (ex_srv 1)" by (simp add: ex_srv_def Let_def)
  then have "handlers (ex_srv 2) = (handlers (ex_srv 1))(1 \<mapsto> Waiting (qType ex_place))" by (simp add: enqueue_def set_handler_def)
  then show "new_orders (ex_srv 1) (ex_srv 2) = {}" by (rule new_orders_upd [rotated]) (unfold ex_srv_state(1), simp)
  have "loop_place ex_place ((ex_srv 2)\<lparr>inputChan := []\<rparr>) = Some (ex_srv 3)"
    using ex_srv_state(6) by (simp add: Option.is_none_def loop_request_def ex_place_def) (simp add: ex_srv_def Let_def loop_request_def ex_place_def)
  then show "new_orders (ex_srv 2) (ex_srv 3) = {}" using loop_place_handlers new_orders_same by fastforce
  have "ex_srv 4 = write_reply 1 PlaceRequest \<lparr>rSuccess = True, rTrades = [], rError = []\<rparr> (ex_srv 3)" by (simp add: ex_srv_def Let_def)
  then have "\<exists>x. handlers (ex_srv 4) = (handlers (ex_srv 3))(1 \<mapsto> x)" by (simp add: write_reply_eq set_handler_def) blast
  then show "new_orders (ex_srv 3) (ex_srv 4) = {}" using new_orders_upd [of "ex_srv 3" 1 "ex_srv 4"] ex_srv_state(7) by auto
qed

lemma ex_sys_serve:
  assumes "load_system ex_Intn ex_orc (ex_sys l k d w)" "server_step (ex_srv k) (ex_srv k')" "step_room (ex_srv k) (ex_srv k')"
    and "new_orders (ex_srv k) (ex_srv k') = {}"
  shows "load_system ex_Intn ex_orc (ex_sys l k' d w)"
  using load_system.serve [OF assms(1), of "ex_srv k'"] assms(2-4) by (simp add: ex_sys_def)

lemma ex_sys_collector:
  assumes "load_system ex_Intn ex_orc (ex_sys l k Map.empty w)" "lg_step l l'" "produced l' = produced l"
  shows "load_system ex_Intn ex_orc (ex_sys l' k Map.empty w)"
  using load_system.collector [OF assms(1), of l'] assms(2,3) by (simp add: ex_sys_def)

lemma ex_sys_answered:
  "load_system ex_Intn ex_orc (ex_sys (ex_load (SendingMetric ex_metric) False False False zero_stats {#ex_metric#}) 4 Map.empty {1})"
proof -
  let ?l = "ex_load Ticking False False False zero_stats {#}"
  let ?c = "\<lparr>lr = ?l, srv = NewServer, doing = Map.empty, placing = {}, won = {}, lost = {}\<rparr>"
  have "load_system ex_Intn ex_orc (bot_post ex_Intn 0 1 ''7c9e'' 41 0 ?c)"
    by (rule load_system.post [OF load_system.init [OF ex_load_start]]) (simp_all add: ex_load_def NewServer_def)
  moreover have "bot_post ex_Intn 0 1 ''7c9e'' 41 0 ?c = ex_sys ?l 1 [0 \<mapsto> 1] {}"
    using post_new_orders [OF ex_Intn_ok, of "''7c9e''" NewServer 1 41 0]
    by (simp add: bot_post_def ex_sys_def ex_srv_def Let_def ex_bot_body) (simp add: NewServer_def)
  ultimately have "load_system ex_Intn ex_orc (ex_sys ?l 1 [0 \<mapsto> 1] {})" by simp
  then have "load_system ex_Intn ex_orc (ex_sys ?l 4 [0 \<mapsto> 1] {})"
    using ex_sys_serve ex_srv_steps ex_srv_new by blast
  from load_system.answer [OF this, of 0 1 _ 250 ex_metric] show ?thesis
    using ex_srv_state(9) by (simp add: ex_sys_def bot_measure_def ex_load_def reply_status_def bot_metric_def ex_metric_def)
qed

theorem load_report_matches_engine_witness:
  "\<exists>c. load_system ex_Intn ex_orc c \<and> report (lr c) = Some ex_st \<and> successCount ex_st = 1 \<and> processed_total (srv c) = 1"
proof -
  let ?l = "(ex_load Exited True True True ex_st {#ex_metric#})\<lparr>report := Some ex_st\<rparr>"
  have c: "load_system ex_Intn ex_orc (ex_sys ?l 4 Map.empty {1})"
    by (rule ex_sys_collector [OF _ ex_load_steps(7)], rule ex_sys_collector [OF _ ex_load_steps(6)],
        rule ex_sys_collector [OF _ ex_load_steps(5)], rule ex_sys_collector [OF _ ex_load_steps(4)],
        rule ex_sys_collector [OF _ ex_load_steps(3)], rule ex_sys_collector [OF ex_sys_answered ex_load_steps(2)])
      (simp_all add: ex_load_def)
  have "report (lr (ex_sys ?l 4 Map.empty {1})) = Some ex_st" by (simp add: ex_sys_def)
  with load_report_matches_engine [OF ex_Intn_ok c this] have "successCount ex_st = processed_total (srv (ex_sys ?l 4 Map.empty {1}))"
    by (simp add: ex_sys_def)
  moreover have "successCount ex_st = 1" by (simp add: collect_def ex_metric_def zero_stats_def)
  moreover have "report (lr (ex_sys ?l 4 Map.empty {1})) = Some ex_st" by (simp add: ex_sys_def)
  ultimately show ?thesis using c by metis
qed

end
