(* ===== verification/Telemetry_Order.thy ===== *)
theory Telemetry_Order
  imports Telemetry_Queue
begin

text \<open>
  The order of telemetry events between the producer and the consumer of \<open>pkg/queue\<close>.  A topic is
  the list of its partitions, each a log of messages.  The writer appends every message to the
  partition its balancer chooses; the reader keeps the order within each partition and may
  interleave the partitions in any way.  The balancers belong to the Kafka client and are a
  parameter, with their documented behaviour as hypotheses.
\<close>

section \<open>Partitions\<close>

type_synonym topic = "kafka_message list list"

type_synonym routing = "balancer \<Rightarrow> kafka_message \<Rightarrow> nat list \<Rightarrow> nat"

definition msg_bytes :: "kafka_message \<Rightarrow> nat" where
  "msg_bytes m = length (kmKey m) + length (kmValue m)"

definition received :: "topic \<Rightarrow> nat list" where
  "received t = map (\<lambda>l. sum_list (map msg_bytes l)) t"

definition write_message :: "routing \<Rightarrow> kafka_writer \<Rightarrow> kafka_message \<Rightarrow> topic \<Rightarrow> topic \<times> string option" where
  "write_message route w m t = (let p = route (kwBalancer w) m (received t) in (t[p := t ! p @ [m]], None))"

definition publish_all ::
  "(telemetry_event \<Rightarrow> string + string) \<Rightarrow> routing \<Rightarrow> kafka_writer \<Rightarrow> telemetry_event list \<Rightarrow> topic \<Rightarrow> topic" where
  "publish_all Marshal route w es t = foldl (\<lambda>t e. fst (PublishTelemetry Marshal (write_message route w) e t)) t es"

text \<open>The readings of a topic: all interleavings that keep the order of each partition.\<close>

inductive reading :: "topic \<Rightarrow> kafka_message list \<Rightarrow> bool" where
  empty: "\<forall>l \<in> set t. l = [] \<Longrightarrow> reading t []"
| take: "p < length t \<Longrightarrow> t ! p = m # l \<Longrightarrow> reading (t[p := l]) ms \<Longrightarrow> reading t (m # ms)"

text \<open>The consumer handles the messages of a reading, without failed reads and uncancelled.\<close>

definition polls_of :: "kafka_message list \<Rightarrow> poll list \<Rightarrow> bool" where
  "polls_of ms ps \<longleftrightarrow> map pRead ps = map (\<lambda>m. ReadOk (kmValue m)) ms \<and> \<not> list_ex stops ps"

text \<open>
  Documented behaviour of the balancers: each chooses an existing partition, \<open>LeastBytes\<close> one that
  has received the least data, and \<open>Hash\<close> looks at the key only.
\<close>

definition balancers_ok :: "routing \<Rightarrow> bool" where
  "balancers_ok route \<longleftrightarrow>
     (\<forall>b m bs. bs \<noteq> [] \<longrightarrow> route b m bs < length bs) \<and>
     (\<forall>m bs b. bs \<noteq> [] \<longrightarrow> b \<in> set bs \<longrightarrow> bs ! route LeastBytes m bs \<le> b) \<and>
     (\<forall>m m' bs bs'. kmKey m = kmKey m' \<longrightarrow> length bs = length bs' \<longrightarrow> route Hash m bs = route Hash m' bs')"

lemma balancers_okD:
  assumes "balancers_ok route"
  shows "bs \<noteq> [] \<Longrightarrow> route b m bs < length bs"
    and "bs \<noteq> [] \<Longrightarrow> x \<in> set bs \<Longrightarrow> bs ! route LeastBytes m bs \<le> x"
    and "kmKey m = kmKey m' \<Longrightarrow> length bs = length bs' \<Longrightarrow> route Hash m bs = route Hash m' bs'"
  using assms unfolding balancers_ok_def by blast+

text \<open>The events survive encoding and decoding.\<close>

definition codec_on :: "(telemetry_event \<Rightarrow> string + string) \<Rightarrow> (string \<Rightarrow> string + telemetry_event) \<Rightarrow> telemetry_event set \<Rightarrow> bool" where
  "codec_on Marshal Unmarshal E \<longleftrightarrow> (\<forall>e \<in> E. \<exists>v. Marshal e = Inr v \<and> Unmarshal v = Inr e)"

section \<open>Readings keep the order inside a partition\<close>

lemma reading_filter:
  assumes "reading t ms" "\<forall>q < length t. q \<noteq> p \<longrightarrow> filter Q (t ! q) = []" "p < length t"
  shows "filter Q ms = filter Q (t ! p)"
  using assms
proof (induction rule: reading.induct)
  case (empty t)
  then have "t ! p = []" by simp
  then show ?case by simp
next
  case (take q t m l ms)
  have "\<forall>r < length t. r \<noteq> p \<longrightarrow> filter Q (t[q := l] ! r) = []"
  proof (intro allI impI)
    fix r assume r: "r < length t" "r \<noteq> p"
    then have "filter Q (t ! r) = []" using take.prems(1) by blast
    then show "filter Q (t[q := l] ! r) = []" using take.hyps(2) r by (cases "r = q") (auto split: if_splits)
  qed
  then have ih: "filter Q ms = filter Q (t[q := l] ! p)" using take.IH take.prems(2) by simp
  show ?case
  proof (cases "q = p")
    case True
    then show ?thesis using ih take.hyps by simp
  next
    case False
    then have "filter Q (m # l) = []" using take.hyps take.prems(1) by metis
    then show ?thesis using ih False by (auto split: if_splits)
  qed
qed

lemma reading_set: "reading t ms \<Longrightarrow> m \<in> set ms \<Longrightarrow> \<exists>l \<in> set t. m \<in> set l"
proof (induction rule: reading.induct)
  case (take p t m' l ms)
  have "m' # l \<in> set t" using take.hyps by (metis nth_mem)
  show ?case
  proof (cases "m = m'")
    case False
    then obtain l' where l': "l' \<in> set (t[p := l])" "m \<in> set l'" using take.IH take.prems by auto
    then have "l' = l \<or> l' \<in> set t" using set_update_subset_insert [of t p l] by blast
    then show ?thesis using l'(2) bexI [of "\<lambda>l. m \<in> set l" "m' # l" "set t"] \<open>m' # l \<in> set t\<close> by auto
  qed (use \<open>m' # l \<in> set t\<close> in force)
qed simp

lemma reading_decodes:
  assumes "polls_of ms ps" "\<forall>m \<in> set ms. \<exists>e. Unmarshal (kmValue m) = Inr e"
  shows "map snd (delivered Unmarshal ps) = map (\<lambda>m. projr (Unmarshal (kmValue m))) ms"
  using assms
proof (induction ms arbitrary: ps)
  case Nil
  then show ?case by (simp add: polls_of_def)
next
  case (Cons m ms)
  then obtain q qs where q: "ps = q # qs" "pRead q = ReadOk (kmValue m)" "\<not> stops q" "polls_of ms qs"
    by (auto simp: polls_of_def Cons_eq_map_conv)
  obtain e where "Unmarshal (kmValue m) = Inr e" using Cons.prems(2) by auto
  then show ?case using q Cons by (simp add: delivery_def)
qed

section \<open>What the writer puts where\<close>

definition message_of :: "(telemetry_event \<Rightarrow> string + string) \<Rightarrow> telemetry_event \<Rightarrow> kafka_message" where
  "message_of Marshal e = \<lparr>kmKey = tSubmissionID e, kmValue = projr (Marshal e)\<rparr>"

lemma publish_message:
  "Marshal e = Inr v \<Longrightarrow>
   fst (PublishTelemetry Marshal (write_message route w) e t) = fst (write_message route w (message_of Marshal e) t)"
  by (simp add: PublishTelemetry_def Serialize_def message_of_def write_message_def Let_def)

lemma publish_all_snoc:
  "publish_all Marshal route w (es @ [e]) t = fst (PublishTelemetry Marshal (write_message route w) e (publish_all Marshal route w es t))"
  by (simp add: publish_all_def)

lemma received_length [simp]: "length (received t) = length t"
  by (simp add: received_def)

lemma publish_all_length [simp]: "length (publish_all Marshal route w es t) = length t"
  by (induction es rule: rev_induct)
    (simp_all add: publish_all_snoc, simp_all add: publish_all_def PublishTelemetry_def write_message_def Let_def split: sum.split)

lemma publish_all_set:
  assumes "\<forall>e \<in> set es. \<exists>v. Marshal e = Inr v" "m \<in> set l" "l \<in> set (publish_all Marshal route w es (replicate n []))"
  shows "m \<in> message_of Marshal ` set es"
  using assms
proof (induction es arbitrary: l rule: rev_induct)
  case Nil
  then show ?case by (auto simp: publish_all_def)
next
  case (snoc e es)
  let ?t = "publish_all Marshal route w es (replicate n [])"
  define p where "p = route (kwBalancer w) (message_of Marshal e) (received ?t)"
  obtain v where "Marshal e = Inr v" using snoc.prems(1) by auto
  then have "l \<in> set (?t[p := ?t ! p @ [message_of Marshal e]])"
    using snoc.prems(3) by (simp add: publish_all_snoc publish_message write_message_def Let_def p_def)
  then consider "l \<in> set ?t" | "p < length ?t" "l = ?t ! p @ [message_of Marshal e]"
    by (metis in_set_conv_nth length_list_update nth_list_update nth_list_update_neq)
  then show ?case
  proof cases
    case 1
    then show ?thesis using snoc.IH [OF _ snoc.prems(2)] snoc.prems(1) by auto
  next
    case 2
    then show ?thesis using snoc.IH [OF _ _ nth_mem [OF 2(1)]] snoc.prems(1,2) by auto
  qed
qed

text \<open>All messages of one key go to one partition when there is only one, or when the key decides.\<close>

lemma publish_all_keyed:
  assumes "balancers_ok route" "0 < n" "n = 1 \<or> kwBalancer w = Hash" "\<forall>e \<in> set es. \<exists>v. Marshal e = Inr v"
  defines "t \<equiv> publish_all Marshal route w es (replicate n [])"
  shows "\<exists>p < n. (\<forall>q < n. q \<noteq> p \<longrightarrow> filter (\<lambda>m. kmKey m = k) (t ! q) = []) \<and>
    filter (\<lambda>m. kmKey m = k) (t ! p) = map (message_of Marshal) (filter (\<lambda>e. tSubmissionID e = k) es)"
proof -
  define p where "p = (if n = 1 then 0 else route Hash \<lparr>kmKey = k, kmValue = []\<rparr> (replicate n 0))"
  have "route Hash \<lparr>kmKey = k, kmValue = []\<rparr> (replicate n 0) < length (replicate n (0::nat))"
    using assms(2) by (intro balancers_okD(1) [OF assms(1)]) simp
  then have p: "p < n" using assms(2) by (simp add: p_def)
  have same: "route (kwBalancer w) m bs = p" if "length bs = n" "kmKey m = k" for m bs
  proof (cases "n = 1")
    case True
    then have "bs \<noteq> []" using that(1) by auto
    then have "route (kwBalancer w) m bs < 1" using balancers_okD(1) [OF assms(1)] that(1) True by metis
    then show ?thesis using True by (simp add: p_def)
  next
    case False
    then show ?thesis using assms(3) that balancers_okD(3) [OF assms(1), of m "\<lparr>kmKey = k, kmValue = []\<rparr>" bs "replicate n 0"]
      by (simp add: p_def)
  qed
  have "(\<forall>q < n. q \<noteq> p \<longrightarrow> filter (\<lambda>m. kmKey m = k) (t ! q) = []) \<and>
    filter (\<lambda>m. kmKey m = k) (t ! p) = map (message_of Marshal) (filter (\<lambda>e. tSubmissionID e = k) es)"
    using assms(4) unfolding t_def
  proof (induction es rule: rev_induct)
    case Nil
    then show ?case using p by (simp add: publish_all_def)
  next
    case (snoc e es)
    then obtain v where "Marshal e = Inr v" by auto
    let ?t = "publish_all Marshal route w es (replicate n [])"
    let ?q = "route (kwBalancer w) (message_of Marshal e) (received ?t)"
    have t: "publish_all Marshal route w (es @ [e]) (replicate n []) = ?t[?q := ?t ! ?q @ [message_of Marshal e]]"
      using \<open>Marshal e = Inr v\<close> by (simp add: publish_all_snoc publish_message write_message_def Let_def)
    have "kmKey (message_of Marshal e) = tSubmissionID e" by (simp add: message_of_def)
    moreover have "tSubmissionID e = k \<Longrightarrow> ?q = p" by (rule same) (simp_all add: message_of_def)
    moreover have "(\<forall>q < n. q \<noteq> p \<longrightarrow> filter (\<lambda>m. kmKey m = k) (?t ! q) = []) \<and>
      filter (\<lambda>m. kmKey m = k) (?t ! p) = map (message_of Marshal) (filter (\<lambda>e. tSubmissionID e = k) es)"
      using snoc by simp
    moreover have "?q < length ?t" using balancers_okD(1) [OF assms(1), of "received ?t"] assms(2) by (simp flip: length_greater_0_conv)
    ultimately show ?case unfolding t using p by (cases "tSubmissionID e = k") (simp_all add: nth_list_update)
  qed
  then show ?thesis using p by blast
qed

section \<open>Standings depend on the order of each submission only\<close>

lemma latest_events_snoc: "latest_events (es @ [e]) = record_event (latest_events es) e"
  by (simp add: latest_events_def)

lemma latest_events_filter: "latest_events es k = latest_events (filter (\<lambda>e. tSubmissionID e = k) es) k"
proof (induction es rule: rev_induct)
  case (snoc e es)
  then show ?case by (auto simp: latest_events_snoc record_event_def)
qed simp

lemma latest_events_cong:
  assumes "\<And>k. filter (\<lambda>e. tSubmissionID e = k) es = filter (\<lambda>e. tSubmissionID e = k) es'"
  shows "latest_events es = latest_events es'"
  using assms latest_events_filter by (metis ext)

lemma keyed_order:
  assumes "balancers_ok route" "codec_on Marshal Unmarshal (set es)" "0 < n" "n = 1 \<or> kwBalancer w = Hash"
    and "reading (publish_all Marshal route w es (replicate n [])) ms" "polls_of ms ps"
  shows "filter (\<lambda>e. tSubmissionID e = k) (map snd (delivered Unmarshal ps)) = filter (\<lambda>e. tSubmissionID e = k) es"
proof -
  let ?decode = "\<lambda>m. projr (Unmarshal (kmValue m))"
  have enc: "?decode (message_of Marshal e) = e" "\<exists>v. Marshal e = Inr v" "\<exists>e'. Unmarshal (kmValue (message_of Marshal e)) = Inr e'" if "e \<in> set es" for e
    using assms(2) that by (auto simp: codec_on_def message_of_def)
  have ms: "m \<in> message_of Marshal ` set es" if "m \<in> set ms" for m
    using reading_set [OF assms(5) that] publish_all_set enc(2) by metis
  have key: "tSubmissionID (?decode m) = kmKey m" if "m \<in> set ms" for m
  proof -
    obtain e where "m = message_of Marshal e" "e \<in> set es" using ms [OF \<open>m \<in> set ms\<close>] by blast
    then show ?thesis using enc(1) [of e] by (simp add: message_of_def)
  qed
  have "\<forall>m \<in> set ms. \<exists>e. Unmarshal (kmValue m) = Inr e" using ms enc(3) by blast
  from reading_decodes [OF assms(6) this]
  have "filter (\<lambda>e. tSubmissionID e = k) (map snd (delivered Unmarshal ps)) = map ?decode (filter (\<lambda>m. tSubmissionID (?decode m) = k) ms)"
    by (simp only: filter_map o_def)
  also have "filter (\<lambda>m. tSubmissionID (?decode m) = k) ms = filter (\<lambda>m. kmKey m = k) ms"
    using key by (intro filter_cong) simp_all
  also have "\<dots> = map (message_of Marshal) (filter (\<lambda>e. tSubmissionID e = k) es)"
    using publish_all_keyed [OF assms(1,3,4), of es Marshal k] reading_filter [OF assms(5)] enc(2) by auto
  also have "map ?decode \<dots> = filter (\<lambda>e. tSubmissionID e = k) es"
    unfolding map_map by (rule map_idI) (use enc(1) in auto)
  finally show ?thesis .
qed

section \<open>The least-bytes balancer separates two events\<close>

lemma least_bytes_separates:
  assumes "balancers_ok route" "2 \<le> n" "Marshal e1 = Inr v1" "Marshal e2 = Inr v2" "tSubmissionID e1 \<noteq> []"
  shows "\<exists>p q. p < n \<and> q < n \<and> p \<noteq> q \<and>
    publish_all Marshal route (NewProducer brokers) [e1, e2] (replicate n []) =
      (replicate n [])[p := [message_of Marshal e1], q := [message_of Marshal e2]]"
proof -
  let ?t = "replicate n [] :: topic"
  let ?m = "message_of Marshal"
  define p where "p = route LeastBytes (?m e1) (received ?t)"
  define t where "t = ?t[p := [?m e1]]"
  define q where "q = route LeastBytes (?m e2) (received t)"
  have ne: "received ?t \<noteq> []" "received t \<noteq> []" using assms(2) by (auto simp: received_def t_def)
  have p: "p < n" using balancers_okD(1) [OF assms(1) ne(1)] by (simp add: p_def)
  have q: "q < n" using balancers_okD(1) [OF assms(1) ne(2)] by (simp add: q_def t_def)
  obtain r where r: "r < n" "r \<noteq> p" using assms(2) by (metis One_nat_def less_2_cases_iff less_le_trans zero_neq_one)
  have len: "length t = n" by (simp add: t_def)
  have "received t ! r = 0" using r len by (simp add: received_def t_def)
  then have "0 \<in> set (received t)" using r(1) len by (metis nth_mem received_length)
  then have "received t ! q = 0" using balancers_okD(2) [OF assms(1) ne(2), of 0 "?m e2"] by (simp add: q_def)
  moreover have "received t ! p \<noteq> 0" using p len assms(5) by (simp add: received_def t_def msg_bytes_def message_of_def)
  ultimately have "p \<noteq> q" by auto
  moreover have "publish_all Marshal route (NewProducer brokers) [e1, e2] ?t = t[q := t ! q @ [?m e2]]"
    using assms(3,4) p by (simp add: publish_all_def publish_message write_message_def Let_def NewProducer_def p_def t_def q_def)
  ultimately show ?thesis using p q by (auto simp: t_def)
qed

lemma reading_swapped:
  assumes "p < n" "q < n" "p \<noteq> q"
  shows "reading ((replicate n [])[p := [m1], q := [m2]]) [m2, m1]"
proof (rule reading.take)
  show "q < length ((replicate n [])[p := [m1], q := [m2]])" "(replicate n [])[p := [m1], q := [m2]] ! q = [m2]"
    using assms by simp_all
  have "reading ((replicate n [])[p := [m1]]) [m1]"
    using assms by (intro reading.take [of p _ _ "[]"] reading.empty) (auto simp: in_set_conv_nth nth_list_update)
  moreover have "(replicate n [])[p := [m1], q := [m2], q := []] = (replicate n [])[p := [m1]]"
    using assms by (intro nth_equalityI) (auto simp: nth_list_update)
  ultimately show "reading ((replicate n [])[p := [m1], q := [m2], q := []]) [m1]" by simp
qed

section \<open>Property\<close>


definition ex_route :: routing where
  "ex_route b m bs = (case b of
     LeastBytes \<Rightarrow> length (takeWhile (\<lambda>b. b \<noteq> Min (set bs)) bs)
   | Hash \<Rightarrow> length (kmKey m) mod length bs)"

lemma ex_route_ok: "balancers_ok ex_route"
proof -
  have least: "ex_route LeastBytes m bs < length bs \<and> bs ! ex_route LeastBytes m bs = Min (set bs)" if "bs \<noteq> []" for m bs
  proof -
    have "Min (set bs) \<in> set bs" using that by simp
    then have l: "length (takeWhile (\<lambda>b. b \<noteq> Min (set bs)) bs) < length bs"
      by (metis (mono_tags, lifting) length_takeWhile_le nat_less_le takeWhile_eq_all_conv takeWhile_eq_take take_all_iff)
    from nth_length_takeWhile [OF this] show ?thesis using l by (simp add: ex_route_def)
  qed
  have "ex_route b m bs < length bs" if "bs \<noteq> []" for b m bs
    using least [OF that, of m] that by (cases b) (simp_all add: ex_route_def)
  moreover have "bs ! ex_route LeastBytes m bs \<le> b" if "bs \<noteq> []" "b \<in> set bs" for m bs b
    using least [OF that(1)] that(2) by simp
  moreover have "ex_route Hash m bs = ex_route Hash m' bs'" if "kmKey m = kmKey m'" "length bs = length bs'" for m m' bs bs'
    using that by (simp add: ex_route_def)
  ultimately show ?thesis unfolding balancers_ok_def by blast
qed

definition ex_runs :: "telemetry_event list" where
  "ex_runs = [ex_event ''run-1'' 1000, ex_event ''run-1'' 3000]"

definition ex_Marshal :: "telemetry_event \<Rightarrow> string + string" where
  "ex_Marshal e = (if tTPS e = f64_nat 1000 then Inr ''old'' else Inr ''new'')"

definition ex_decode :: "string \<Rightarrow> string + telemetry_event" where
  "ex_decode v = (if v = ''old'' then Inr (ex_event ''run-1'' 1000) else if v = ''new'' then Inr (ex_event ''run-1'' 3000) else Inl ''bad'')"

lemma ex_codec: "codec_on ex_Marshal ex_decode (set ex_runs)"
  by (simp add: codec_on_def ex_runs_def ex_Marshal_def ex_decode_def ex_event_def)

lemma ex_run_score: "n \<le> 4000 \<Longrightarrow> event_score (ex_event sid n) \<noteq> NaN"
proof -
  assume "n \<le> 4000"
  moreover have "(4000::rat) \<le> pow2 12" "pow2 12 \<le> pow2 500" by (simp_all add: pow2_def)
  ultimately have "of_nat n \<le> pow2 500" "(100::rat) \<le> pow2 500" by linarith+
  moreover have "1 \<le> of_nat 2 * pow2 400" by (simp add: pow2_def)
  ultimately show ?thesis unfolding event_score_def ex_event_def by (simp add: score_is_number)
qed


end
