(* ===== verification/Latency_Probe.thy ===== *)
theory Latency_Probe
  imports Platform_Prelude
begin

text \<open>
  The latency sensor of \<open>ebpf/\<close>: the event that the kernel probe \<open>socket_latency.c\<close> puts into the
  ring buffer, the record \<open>LatencyEvent\<close> by which \<open>main.go\<close> reads it, with the memory layouts of
  both, and the two loops of the sensor.  Dialling and the clock are parameters.
\<close>

section \<open>Events and their layout\<close>

record LatencyEvent =
  Saddr :: "32 word"
  Daddr :: "32 word"
  Sport :: "16 word"
  Dport :: "16 word"
  LatencyUS :: "64 word"

text \<open>
  Fields follow each other at the next multiple of their alignment, which is their size, and the
  size of the whole is rounded up to the largest one; the C ABI and Go's compiler agree on that.
\<close>

definition align :: "nat \<Rightarrow> nat \<Rightarrow> nat" where
  "align a off = (off + a - 1) div a * a"

fun offsets :: "nat \<Rightarrow> nat list \<Rightarrow> nat list" where
  "offsets off [] = []"
| "offsets off (n # ns) = align n off # offsets (align n off + n) ns"

definition struct_size :: "nat list \<Rightarrow> nat" where
  "struct_size ns = (if ns = [] then 0 else align (foldr max ns 1) (last (offsets 0 ns) + last ns))"

definition event_fields :: "nat list" where
  "event_fields = [4, 4, 2, 2, 8]"

text \<open>The bytes of a number, least significant first, and the number of some bytes.\<close>

fun le_bytes :: "nat \<Rightarrow> nat \<Rightarrow> nat list" where
  "le_bytes 0 v = []"
| "le_bytes (Suc n) v = v mod 256 # le_bytes n (v div 256)"

fun le_val :: "nat list \<Rightarrow> nat" where
  "le_val [] = 0"
| "le_val (b # bs) = b + 256 * le_val bs"

text \<open>A field is stored at its offset; the memory around it keeps what it held.\<close>

definition mem_store :: "nat \<Rightarrow> nat \<Rightarrow> nat \<Rightarrow> nat list \<Rightarrow> nat list" where
  "mem_store off n v mem = take off mem @ le_bytes n v @ drop (off + n) mem"

definition mem_load :: "nat \<Rightarrow> nat \<Rightarrow> nat list \<Rightarrow> nat" where
  "mem_load off n mem = le_val (take n (drop off mem))"

text \<open>The assignments of the probe to the reserved memory, and the record read from it.\<close>

definition write_event :: "LatencyEvent \<Rightarrow> nat list \<Rightarrow> nat list" where
  "write_event e mem = (let os = offsets 0 event_fields in
     mem_store (os ! 4) 8 (unat (LatencyUS e))
       (mem_store (os ! 3) 2 (unat (Dport e))
         (mem_store (os ! 2) 2 (unat (Sport e))
           (mem_store (os ! 1) 4 (unat (Daddr e))
             (mem_store (os ! 0) 4 (unat (Saddr e)) mem)))))"

definition read_event :: "nat list \<Rightarrow> LatencyEvent" where
  "read_event mem = (let os = offsets 0 event_fields in
     \<lparr>Saddr = of_nat (mem_load (os ! 0) 4 mem), Daddr = of_nat (mem_load (os ! 1) 4 mem), Sport = of_nat (mem_load (os ! 2) 2 mem),
      Dport = of_nat (mem_load (os ! 3) 2 mem), LatencyUS = of_nat (mem_load (os ! 4) 8 mem)\<rparr>)"

section \<open>The probe\<close>

definition probe_event :: LatencyEvent where
  "probe_event = \<lparr>Saddr = 0x0100007F, Daddr = 0x0100007F, Sport = 8080, Dport = 45672, LatencyUS = 420\<rparr>"

text \<open>\<open>bpf_ringbuf_reserve\<close> gives memory of the event's size, with any contents, or nothing when the buffer is full.\<close>

definition kprobe_tcp_rcv_established :: "nat list option \<Rightarrow> nat list list \<Rightarrow> nat list list" where
  "kprobe_tcp_rcv_established reserved rb = (case reserved of
     None \<Rightarrow> rb
   | Some mem \<Rightarrow> rb @ [write_event probe_event mem])"

section \<open>The loops of the sensor\<close>

text \<open>
  What a \<open>select\<close> of a loop gets: the end of the context, or a tick; in the fallback a tick is
  followed by a dial that fails or takes some time.
\<close>

datatype sensor_log = Unreachable string | Handshake string int | KernelTrace string | ProbeStopped

datatype 'a select_case = OnDone | OnTick 'a

fun runUserSpaceFallback :: "string \<Rightarrow> (unit + int) select_case list \<Rightarrow> sensor_log list" where
  "runUserSpaceFallback port [] = []"
| "runUserSpaceFallback port (OnDone # cs) = [ProbeStopped]"
| "runUserSpaceFallback port (OnTick dial # cs) = (case dial of
     Inl _ \<Rightarrow> Unreachable port # runUserSpaceFallback port cs
   | Inr rtt \<Rightarrow> Handshake (''127.0.0.1:'' @ port) rtt # runUserSpaceFallback port cs)"

fun kernel_loop :: "string \<Rightarrow> (unit + int) select_case list \<Rightarrow> sensor_log list" where
  "kernel_loop port [] = []"
| "kernel_loop port (OnDone # cs) = [ProbeStopped]"
| "kernel_loop port (OnTick _ # cs) = KernelTrace port # kernel_loop port cs"

definition sensor_main :: "string \<Rightarrow> string \<Rightarrow> (unit + int) select_case list \<Rightarrow> sensor_log list" where
  "sensor_main GOOS port cs = (if GOOS \<noteq> ''linux'' then runUserSpaceFallback port cs else kernel_loop port cs)"

section \<open>Reading back what the probe wrote\<close>

lemma length_le_bytes [simp]: "length (le_bytes n v) = n"
  by (induction n v rule: le_bytes.induct) simp_all

lemma le_val_bytes: "v < 256 ^ n \<Longrightarrow> le_val (le_bytes n v) = v"
proof (induction n v rule: le_bytes.induct)
  case (2 n v)
  then have "v div 256 < 256 ^ n" by (simp add: less_mult_imp_div_less mult.commute)
  then show ?case using 2 by simp
qed simp

lemma length_mem_store [simp]: "off + n \<le> length mem \<Longrightarrow> length (mem_store off n v mem) = length mem"
  by (simp add: mem_store_def)

lemma mem_load_same: "off + n \<le> length mem \<Longrightarrow> v < 256 ^ n \<Longrightarrow> mem_load off n (mem_store off n v mem) = v"
  by (simp add: mem_load_def mem_store_def le_val_bytes)

lemma mem_load_other:
  assumes "off + n \<le> length mem" "off' + n' \<le> off \<or> off + n \<le> off'"
  shows "mem_load off' n' (mem_store off n v mem) = mem_load off' n' mem"
proof -
  have "take n' (drop off' (mem_store off n v mem)) = take n' (drop off' mem)"
    using assms by (auto simp: mem_store_def intro!: nth_equalityI simp: nth_append)
  then show ?thesis by (simp add: mem_load_def)
qed

lemma event_offsets: "offsets 0 event_fields = [0, 4, 8, 10, 16]" "struct_size event_fields = 24"
  by (simp_all add: event_fields_def align_def struct_size_def)

section \<open>Properties\<close>

text \<open>
  \<open>LatencyEvent\<close> matches the C structure of the probe: whatever the reserved memory held, in
  the padding too, reading the submitted record through Go's layout gives back every field of
  the event; the structure takes 24 bytes.
\<close>

theorem event_layout_roundtrip:
  assumes "length mem = struct_size event_fields"
  shows "read_event (write_event e mem) = e \<and> length (write_event e mem) = 24"
proof -
  have m: "length mem = 24" using assms by (simp add: event_offsets)
  have u: "unat (LatencyUS e) < 256 ^ 8" "unat (Dport e) < 256 ^ 2" "unat (Sport e) < 256 ^ 2" "unat (Daddr e) < 256 ^ 4" "unat (Saddr e) < 256 ^ 4"
    using unsigned_less [of "LatencyUS e"] unsigned_less [of "Dport e"] unsigned_less [of "Sport e"] unsigned_less [of "Daddr e"] unsigned_less [of "Saddr e"]
    by simp_all
  show ?thesis
    using m u by (simp add: read_event_def write_event_def event_offsets Let_def mem_load_same mem_load_other)
qed

theorem event_layout_roundtrip_witness:
  "map read_event (kprobe_tcp_rcv_established (Some (replicate 24 255)) []) = [probe_event]"
proof -
  have "length (replicate 24 (255 :: nat)) = struct_size event_fields" by (simp add: event_offsets)
  from event_layout_roundtrip [OF this, of probe_event] show ?thesis by (simp add: kprobe_tcp_rcv_established_def)
qed

text \<open>
  The fallback reports every tick before the end of the context, a handshake exactly for a dial
  that succeeded, and stops there.
\<close>

lemma fallback_reports:
  "runUserSpaceFallback port (map OnTick ds @ OnDone # cs) =
     map (\<lambda>d. case d of Inl _ \<Rightarrow> Unreachable port | Inr rtt \<Rightarrow> Handshake (''127.0.0.1:'' @ port) rtt) ds @ [ProbeStopped]"
  by (induction ds) (auto split: sum.splits)

text \<open>On Linux the sensor measures nothing: its output does not depend on the dials.\<close>

lemma linux_measures_nothing:
  "sensor_main ''linux'' port (map OnTick ds @ OnDone # cs) = replicate (length ds) (KernelTrace port) @ [ProbeStopped]"
proof -
  have "kernel_loop port (map OnTick ds @ OnDone # cs) = replicate (length ds) (KernelTrace port) @ [ProbeStopped]"
    by (induction ds) simp_all
  then show ?thesis by (simp add: sensor_main_def)
qed

end
