(* ===== verification/Deploy_Crd.thy ===== *)
theory Deploy_Crd
  imports Controller
begin

text \<open>
  The resource definition of \<open>deploy/crds/benchmarkrun.yaml\<close> next to the controller that works on
  its resources.  Validation and the endpoints of a custom resource are the API server's; what it
  documents of them is stated by \<open>conforms\<close> and \<open>status_served\<close>.
\<close>

section \<open>The definition\<close>

datatype field_type = TString | TInteger | TNumber

record crd =
  crdGroup :: string
  crdVersion :: string
  crdKind :: string
  crdRequired :: "string list"
  specRequired :: "string list"
  specProps :: "(string \<times> field_type) list"
  specDefaults :: "(string \<times> jvalue) list"
  statusProps :: "(string \<times> field_type) list"
  subresources :: "string list"

definition benchmarkrun_crd :: crd where
  "benchmarkrun_crd = \<lparr>crdGroup = ''trading.benchmarking.platform'', crdVersion = ''v1alpha1'', crdKind = ''BenchmarkRun'',
     crdRequired = [],
     specRequired = [''contestantId'', ''submissionId'', ''image''],
     specProps = [(''contestantId'', TString), (''submissionId'', TString), (''image'', TString), (''duration'', TString),
       (''tps'', TInteger), (''bots'', TInteger)],
     specDefaults = [(''duration'', JString ''60s''), (''tps'', JInt 1000), (''bots'', JInt 5)],
     statusProps = [(''state'', TString), (''startedAt'', TString), (''completedAt'', TString), (''totalOrders'', TInteger),
       (''successRate'', TNumber)],
     subresources = []\<rparr>"

text \<open>The kind that the controller asks its client for.\<close>

definition benchmarkRunGVK :: "string \<times> string \<times> string" where
  "benchmarkRunGVK = (''trading.benchmarking.platform'', ''v1alpha1'', ''BenchmarkRun'')"

lemma controller_watches_crd: "benchmarkRunGVK = (crdGroup benchmarkrun_crd, crdVersion benchmarkrun_crd, crdKind benchmarkrun_crd)"
  by (simp add: benchmarkRunGVK_def benchmarkrun_crd_def)

section \<open>Validation\<close>

fun has_type :: "field_type \<Rightarrow> jvalue \<Rightarrow> bool" where
  "has_type TString v = (case v of JString s \<Rightarrow> True | _ \<Rightarrow> False)"
| "has_type TInteger v = (case v of JInt n \<Rightarrow> True | _ \<Rightarrow> False)"
| "has_type TNumber v = (case v of JInt n \<Rightarrow> True | JString s \<Rightarrow> False
     | JOther s \<Rightarrow> s \<noteq> '''' \<and> list_all (\<lambda>c. c \<in> set ''-.0123456789'') s)"

text \<open>Declared fields have their types; fields that are not declared are pruned.\<close>

definition fields_conform :: "(string \<times> field_type) list \<Rightarrow> (string \<rightharpoonup> jvalue) \<Rightarrow> bool" where
  "fields_conform props m \<longleftrightarrow> (\<forall>(f, t) \<in> set props. case m f of None \<Rightarrow> True | Some v \<Rightarrow> has_type t v) \<and> dom m \<subseteq> fst ` set props"

definition conforms :: "crd \<Rightarrow> benchmark_run \<Rightarrow> bool" where
  "conforms d run \<longleftrightarrow>
     (case runSpec run of
        None \<Rightarrow> ''spec'' \<notin> set (crdRequired d)
      | Some s \<Rightarrow> fields_conform (specProps d) s \<and> (\<forall>f \<in> set (specRequired d). s f \<noteq> None) \<and>
          (\<forall>(f, v) \<in> set (specDefaults d). s f \<noteq> None)) \<and>
     (case runStatus run of
        None \<Rightarrow> ''status'' \<notin> set (crdRequired d)
      | Some st \<Rightarrow> fields_conform (statusProps d) st)"

text \<open>The endpoint for a status exists only if the definition lists the subresource.\<close>

definition status_served :: "crd \<Rightarrow> 'c kube \<Rightarrow> bool" where
  "status_served d k \<longleftrightarrow> (''status'' \<in> set (subresources d) \<or> (\<forall>nn run c. kStatusUpdate k nn run c = (c, Some NotFound)))"

section \<open>The controller and the schema\<close>

text \<open>What a valid run specifies is what the controller reads: no field falls back to an empty text.\<close>

lemma spec_read:
  assumes "conforms benchmarkrun_crd run" "runSpec run = Some spec" "f \<in> {''contestantId'', ''submissionId'', ''image'', ''duration''}"
  shows "spec f = Some (JString (str_field spec f))"
proof -
  have f: "(f, TString) \<in> set (specProps benchmarkrun_crd)" using assms(3) by (auto simp: benchmarkrun_crd_def)
  have "f \<in> set (specRequired benchmarkrun_crd) \<union> fst ` set (specDefaults benchmarkrun_crd)"
    using assms(3) by (auto simp: benchmarkrun_crd_def)
  then obtain v where v: "spec f = Some v" using assms(1,2) by (fastforce simp: conforms_def)
  then have "has_type TString v" using f assms(1,2) by (fastforce simp: conforms_def fields_conform_def)
  then show ?thesis using v by (simp add: str_field_def split: jvalue.splits)
qed

text \<open>Every status that the controller writes is valid, so a cluster of valid runs stays one.\<close>

lemma statuses_conform:
  "fields_conform (statusProps benchmarkrun_crd) [''state'' \<mapsto> JString ''Running'', ''startedAt'' \<mapsto> JString stamp]"
  "fields_conform (statusProps benchmarkrun_crd) [''state'' \<mapsto> JString ''Succeeded'', ''completedAt'' \<mapsto> JString stamp,
     ''totalOrders'' \<mapsto> JInt 150000, ''successRate'' \<mapsto> JOther ''99.98'']"
  by (auto simp: fields_conform_def benchmarkrun_crd_def)

lemma conforms_status:
  "conforms d run \<Longrightarrow> fields_conform (statusProps d) st \<Longrightarrow> conforms d (run\<lparr>runStatus := Some st\<rparr>)"
  by (simp add: conforms_def)

lemma missing_spec_admitted:
  "conforms benchmarkrun_crd \<lparr>runSpec = None, runStatus = None\<rparr>"
  "kGet k nn c = Inr \<lparr>runSpec = None, runStatus = None\<rparr> \<Longrightarrow> Reconcile k PD PT reset now stamp nn c = (c, InvalidSpec)"
  by (simp_all add: conforms_def benchmarkrun_crd_def Reconcile_def)

section \<open>A cluster without the endpoint for statuses\<close>

definition reconciled :: "'c kube \<Rightarrow> (string \<Rightarrow> int option) \<Rightarrow> (string \<Rightarrow> int option) \<Rightarrow> 'c \<Rightarrow> 'c \<Rightarrow> bool" where
  "reconciled k PD PT c c' \<longleftrightarrow> (\<exists>reset now stamp nn. c' = fst (Reconcile k PD PT reset now stamp nn c))"

lemma init_without_status:
  assumes "\<forall>nn run c. kStatusUpdate k nn run c = (c, Some NotFound)" "kube_ok k objs stored"
    and "reconcile_init k nn run cid sid img stamp c = (c', out)"
  shows "stored c' = stored c \<and> objs c \<subseteq>\<^sub>m objs c' \<and> (\<exists>e. out = Failed e)"
proof -
  obtain c1 e1 where a: "create_all k [ns_object sid, quota_object sid, netPol_object sid, pod_object sid cid img] c = (c1, e1)" by fastforce
  note l = create_all_laws [OF assms(2) a]
  have "kStatusUpdate k nn r c1 = (c1, Some NotFound)" for r using assms(1) by blast
  then have "c' = c1 \<and> (\<exists>e. out = Failed e)" using assms(3) unfolding reconcile_init_def a by (cases e1) auto
  then show ?thesis using l by (simp add: grows_def)
qed

lemma Reconcile_without_status:
  assumes "\<forall>nn run c. kStatusUpdate k nn run c = (c, Some NotFound)" "kube_ok k objs stored"
    and "\<forall>run. stored c nn = Some run \<longrightarrow> status_field run ''state'' = ''''" "Reconcile k PD PT reset now stamp nn c = (c', out)"
  shows "stored c' = stored c \<and> objs c \<subseteq>\<^sub>m objs c' \<and>
    (\<forall>run spec. kGet k nn c = Inr run \<longrightarrow> runSpec run = Some spec \<longrightarrow> (\<exists>e. out = Failed e))"
proof (cases "kGet k nn c")
  case (Inl e)
  then show ?thesis using assms(4) by (auto simp: Reconcile_def)
next
  case (Inr run)
  have st: "status_field run ''state'' = ''''" using assms(3) kube_get [OF assms(2) Inr] by blast
  show ?thesis
  proof (cases "runSpec run")
    case None
    then show ?thesis using assms(4) Inr by (auto simp: Reconcile_def)
  next
    case (Some spec)
    then have "reconcile_init k nn run (str_field spec ''contestantId'') (str_field spec ''submissionId'') (str_field spec ''image'') stamp c = (c', out)"
      using assms(4) Inr st by (simp add: Reconcile_def Let_def)
    from init_without_status [OF assms(1,2) this] show ?thesis by blast
  qed
qed

section \<open>Property\<close>

text \<open>
  C17. The resource definition stalls every run: it lists no status subresource, so each update of
  a status is refused.  However often and whenever \<open>Reconcile\<close> is called, on any runs, no stored
  run ever leaves its initial state, no object that was created is ever removed, so the pods of
  contestants keep running, and every call for a run that can be read ends in an error.
\<close>

theorem crd_stalls_runs:
  assumes "kube_ok k objs stored" "status_served benchmarkrun_crd k"
    and "\<forall>nn run. stored c nn = Some run \<longrightarrow> status_field run ''state'' = ''''" "(reconciled k PD PT)\<^sup>*\<^sup>* c c'"
  shows "stored c' = stored c \<and> objs c \<subseteq>\<^sub>m objs c' \<and>
    (\<forall>nn run spec reset now stamp. kGet k nn c' = Inr run \<longrightarrow> runSpec run = Some spec \<longrightarrow>
       (\<exists>e. snd (Reconcile k PD PT reset now stamp nn c') = Failed e))"
proof -
  have none: "\<forall>nn run c. kStatusUpdate k nn run c = (c, Some NotFound)"
    using assms(2) by (simp add: status_served_def benchmarkrun_crd_def)
  have same: "stored c' = stored c \<and> objs c \<subseteq>\<^sub>m objs c'" using assms(4)
  proof (induction rule: rtranclp_induct)
    case (step c1 c2)
    then obtain reset now stamp nn where r: "c2 = fst (Reconcile k PD PT reset now stamp nn c1)" by (auto simp: reconciled_def)
    have "\<forall>run. stored c1 nn = Some run \<longrightarrow> status_field run ''state'' = ''''" using step.IH assms(3) by metis
    from Reconcile_without_status [OF none assms(1) this, of PD PT reset now stamp c2] show ?case
      using step.IH r map_le_trans by (metis prod.collapse)
  qed simp
  then have "\<forall>run. stored c' nn = Some run \<longrightarrow> status_field run ''state'' = ''''" for nn using assms(3) by metis
  from Reconcile_without_status [OF none assms(1) this] same show ?thesis by (metis prod.collapse)
qed

definition stalled_kube :: "ex_cluster kube" where
  "stalled_kube = ex_kube\<lparr>kStatusUpdate := (\<lambda>nn run c. (c, Some NotFound))\<rparr>"

lemma stalled_kube_ok: "kube_ok stalled_kube fst snd" "status_served benchmarkrun_crd stalled_kube"
  using ex_kube_ok by (simp_all add: kube_ok_def stalled_kube_def status_served_def)

theorem crd_stalls_runs_witness:
  "\<exists>c'. (reconciled stalled_kube ex_dur ex_time)\<^sup>*\<^sup>* (ex_cluster None) c' \<and> snd c' = snd (ex_cluster None) \<and>
     (\<exists>e. snd (Reconcile stalled_kube ex_dur ex_time 0 (60 * second) ''T2'' (''ns'', ''run'') c') = Failed e)"
proof -
  let ?c' = "fst (Reconcile stalled_kube ex_dur ex_time 0 0 ''T1'' (''ns'', ''run'') (ex_cluster None))"
  have "reconciled stalled_kube ex_dur ex_time (ex_cluster None) ?c'" unfolding reconciled_def by blast
  then have r: "(reconciled stalled_kube ex_dur ex_time)\<^sup>*\<^sup>* (ex_cluster None) ?c'" by simp
  have "\<forall>nn run. snd (ex_cluster None) nn = Some run \<longrightarrow> status_field run ''state'' = ''''"
    by (simp add: ex_cluster_def ex_run_def status_field_def)
  note t = crd_stalls_runs [OF stalled_kube_ok this r]
  have "kGet stalled_kube (''ns'', ''run'') ?c' = Inr (ex_run None)"
    using t by (cases ?c') (simp add: stalled_kube_def ex_kube_def ex_cluster_def)
  moreover have "\<exists>spec. runSpec (ex_run None) = Some spec" by (simp add: ex_run_def)
  ultimately show ?thesis using r t by blast
qed

end
