(* ===== verification/Api_Liveness.thy ===== *)
theory Api_Liveness
  imports Api_Server_Props
begin

text \<open>
  Progress of the API server: no reachable state of the handlers, the matching loop, the hub and
  their channels blocks a pending request for good.  From each of them some schedule answers a
  request within a number of steps that the length of the input channel bounds, provided that the
  quantities in the book and in the channel do not add up to more than 64 bits.
\<close>

section \<open>The load of the book\<close>

definition book_total :: "orderbook \<Rightarrow> nat" where
  "book_total b = side_vol (sbids (book_view b)) + side_vol (sasks (book_view b))"

definition order_qty :: "orderbook \<Rightarrow> oref \<Rightarrow> nat" where
  "order_qty b p = (case oheap b p of None \<Rightarrow> 0 | Some x \<Rightarrow> unat (oQuantity x))"

lemma vol_at_le: "vol_at pr ls \<le> side_vol ls"
  unfolding vol_at_def side_vol_def by (rule sum_list_mono) auto

lemma book_total_levels: "book_total b = side_vol (own_levels buy (book_view b)) + side_vol (maker_levels buy (book_view b))"
  by (simp add: book_total_def own_levels_def maker_levels_def)

lemma level_volume_le:
  assumes "book_ok b f"
  shows "level_volume w pr b \<le> book_total b"
proof -
  have "side_vol (sabs b (f w)) \<le> book_total b"
    by (cases w) (simp_all add: book_total_def book_view_ok [OF assms] babs_def)
  then show ?thesis using vol_at_le [of pr "sabs b (f w)"] level_volume_ok [OF assms] by simp
qed

lemma order_room_total:
  assumes "reachable False b" "pending_order b p" "book_total b + order_qty b p < 2 ^ 64"
  shows "order_room b p"
proof -
  obtain f where b: "book_ok b f" using assms(1) by (rule reachable_ok)
  obtain x where x: "oheap b p = Some x" using assms(2) by (auto simp: pending_order_def new_order_def)
  show ?thesis using x assms(3) level_volume_le [OF b, of "opp (maker_side x)" "oPrice x"]
    by (simp add: order_room_def has_room_def fits64_def order_qty_def)
qed

lemma process_load:
  assumes "reachable False b" "pending_order b p" "book_total b + order_qty b p < 2 ^ 64" "Process p b = Some (b', ts)"
  shows "book_total b' \<le> book_total b + order_qty b p"
    and "p' \<noteq> p \<Longrightarrow> pending_order b p' \<Longrightarrow> order_qty b' p' = order_qty b p'"
proof -
  obtain f where b: "book_ok b f" using assms(1) by (rule reachable_ok)
  obtain x where x: "new_order b p x" using assms(2) by (auto simp: pending_order_def)
  have room: "has_room x b" using order_room_total [OF assms(1-3)] x by (simp add: order_room_def new_order_def)
  from Process_view [OF b x room] assms(4) have fr: "\<forall>q. q \<noteq> p \<longrightarrow> q \<notin> live f \<longrightarrow> oheap b' q = oheap b q"
    by (elim exE conjE) simp
  show "order_qty b' p' = order_qty b p'" if "p' \<noteq> p" "pending_order b p'"
    using fr that pending_not_live [OF b] by (simp add: order_qty_def)
  let ?buy = "oSide x = Buy"
  from Process_spec(1) [OF assms(1) x room assms(4)] obtain r where
    sw: "sweep (order_acc x) (unat (oQuantity x)) (maker_levels ?buy (book_view b)) = (r, maker_levels ?buy (book_view b'), map abs_fill ts)" and
    own: "own_levels ?buy (book_view b') = (if 0 < r \<and> oType x = LimitOrder
      then join_level (prio ?buy) (oPrice x) (oID x, r) (own_levels ?buy (book_view b)) else own_levels ?buy (book_view b))"
    by (rule sprocess_sweep)
  have "order_qty b p = unat (oQuantity x)" using x by (simp add: order_qty_def new_order_def)
  then show "book_total b' \<le> book_total b + order_qty b p"
    using sweep_conserves [OF sw] own price_priority.join_level_vol [OF prio_priority]
    by (simp add: book_total_levels [of _ ?buy])
qed

lemma cancel_load:
  assumes "reachable False b" "Cancel i b = Some (b', ok)"
  shows "book_total b' \<le> book_total b" and "pending_order b p \<Longrightarrow> order_qty b' p = order_qty b p"
proof -
  obtain f where b: "book_ok b f" using assms(1) by (rule reachable_ok)
  have "book_total b' \<le> book_total b \<and> (pending_order b p \<longrightarrow> order_qty b' p = order_qty b p)"
  proof (cases "orders b i")
    case None
    then show ?thesis using assms(2) by (simp add: Cancel_def)
  next
    case (Some z)
    from Cancel_view [OF b Some] assms(2) obtain buy ls l where c: "removes_one i (own_levels buy (book_view b)) ls"
       "book_view b' = mk_book buy ls (maker_levels buy (book_view b))" "book_frame (live f) {l} b b'"
      by (elim exE conjE) (rule that; simp)
    have "side_vol ls \<le> side_vol (own_levels buy (book_view b))"
      using c(1) by (auto simp: removes_one_def level_rest_def side_vol_def svol_def)
    then have "book_total b' \<le> book_total b"
      by (cases buy) (simp_all add: book_total_levels [of _ buy] c(2) mk_book_def own_levels_def maker_levels_def)
    moreover have "order_qty b' p = order_qty b p" if "pending_order b p"
      using c(3) pending_not_live [OF b that] by (simp add: order_qty_def book_frame_def)
    ultimately show ?thesis by simp
  qed
  then show "book_total b' \<le> book_total b" "pending_order b p \<Longrightarrow> order_qty b' p = order_qty b p" by blast+
qed

section \<open>Progress of the matching loop\<close>

definition req_qty :: "orderbook \<Rightarrow> order_request \<Rightarrow> nat" where
  "req_qty b r = (if qType r = PlaceRequest then case qOrder r of None \<Rightarrow> 0 | Some p \<Rightarrow> order_qty b p else 0)"

definition queue_load :: "orderbook \<Rightarrow> order_request list \<Rightarrow> nat" where
  "queue_load b q = sum_list (map (req_qty b) q)"

text \<open>\<open>steps k s s'\<close>: the goroutines of the server get from \<open>s\<close> to \<open>s'\<close> in at most \<open>k\<close> steps.\<close>

definition steps :: "nat \<Rightarrow> server \<Rightarrow> server \<Rightarrow> bool" where
  "steps k s s' \<longleftrightarrow> (\<exists>n \<le> k. (server_step ^^ n) s s')"

lemma steps_refl: "steps k s s"
  unfolding steps_def by (intro exI [of _ 0]) simp

lemma steps_one: "server_step s s' \<Longrightarrow> steps 1 s s'"
  unfolding steps_def by (intro exI [of _ 1]) (simp add: eq_OO)

lemma steps_trans:
  assumes "steps k s s'" "steps l s' s''" "k + l \<le> m"
  shows "steps m s s''"
proof -
  obtain n n' where "n \<le> k" "(server_step ^^ n) s s'" "n' \<le> l" "(server_step ^^ n') s' s''"
    using assms(1,2) unfolding steps_def by blast
  moreover have "(server_step ^^ (n + n')) s s''" using calculation(2,4) relpowp_trans by metis
  ultimately show ?thesis using assms(3) unfolding steps_def by (intro exI [of _ "n + n'"]) simp
qed

lemma hub_run_cap: "hub_run h log j \<Longrightarrow> length (broadcast h) \<le> broadcast_cap"
proof (induction rule: hub_run.induct)
  case (bcast h log j m ms cs h')
  have "hub_inv h" using hub_run_streams [OF bcast.hyps(1)] by (simp add: hub_streams_def)
  then show ?case using hub_broadcast_set [of h cs m ms] bcast by (simp add: offer_set_def)
next
  case (hangup h log j c x h')
  have "hub_inv h" using hub_run_streams [OF hangup.hyps(1)] by (simp add: hub_streams_def)
  then have "hub_inv (h\<lparr>chans := (chans h)(c \<mapsto> x\<lparr>reading := False\<rparr>)\<rparr>)" using hangup.hyps(2) by (auto simp: hub_inv_def)
  from hub_unregister_ok [OF this, of c] hangup show ?case by (auto simp: readPump_exit_def)
next
  case (flush h log j c x ok h')
  then show ?case by (auto simp: writePump_def split: list.splits if_splits)
qed (simp_all add: NewHub_def ServeWs_def hub_register_def)

text \<open>The loop leaves \<open>broadcastEvent\<close>: if the channel is full, the hub takes a message first.\<close>

definition same_orders :: "server \<Rightarrow> server \<Rightarrow> bool" where
  "same_orders s s' \<longleftrightarrow> ob s' = ob s \<and> inputChan s' = inputChan s \<and> handlers s' = handlers s \<and> resChan s' = resChan s"

lemma hub_makes_room:
  assumes "server_inv s"
  shows "\<exists>s'. steps 1 s s' \<and> server_inv s' \<and> same_orders s s' \<and> loopPc s' = loopPc s \<and> length (broadcast (hub s')) < broadcast_cap"
proof (cases "length (broadcast (hub s)) < broadcast_cap")
  case True
  then show ?thesis using assms steps_refl by (intro exI [of _ s]) (simp add: same_orders_def)
next
  case False
  obtain log j where r: "hub_run (hub s) log j" using assms by (auto simp: server_inv_def)
  have len: "length (broadcast (hub s)) = broadcast_cap" using False hub_run_cap [OF r] by simp
  then obtain m ms where b: "broadcast (hub s) = m # ms" by (cases "broadcast (hub s)") (auto simp: broadcast_cap_def)
  have i: "hub_inv (hub s)" using hub_run_streams [OF r] by (simp add: hub_streams_def)
  obtain cs where cs: "distinct cs" "set cs = clients (hub s)" using i finite_distinct_list [of "clients (hub s)"] by (auto simp: hub_inv_def)
  let ?h = "offer_set (clients (hub s)) m ((hub s)\<lparr>broadcast := ms\<rparr>)"
  have "hub_step (hub s) ?h" by (rule hub_step.bcast [OF b cs hub_broadcast_set [OF i cs b]])
  then have "server_step s (s\<lparr>hub := ?h\<rparr>)" "server_inv (s\<lparr>hub := ?h\<rparr>)"
    using server_step.hub inv_hub [OF assms] by blast+
  then show ?thesis using len b
    by (intro exI [of _ "s\<lparr>hub := ?h\<rparr>"]) (simp add: steps_one [unfolded One_nat_def] same_orders_def offer_set_def)
qed

lemma loop_returns:
  assumes "server_inv s"
  shows "\<exists>s'. steps 2 s s' \<and> server_inv s' \<and> same_orders s s' \<and> loopPc s' = Selecting"
proof (cases "loopPc s")
  case Selecting
  then show ?thesis using assms steps_refl by (intro exI [of _ s]) (simp add: same_orders_def)
next
  case (Broadcasting m reset)
  obtain s1 where s1: "steps 1 s s1" "server_inv s1" "same_orders s s1" "loopPc s1 = loopPc s" "length (broadcast (hub s1)) < broadcast_cap"
    using hub_makes_room [OF assms] by blast
  then have "loopPc s1 = Broadcasting m reset" using Broadcasting by simp
  note p = server_step.publish [OF this s1(5)] inv_publish [OF s1(2) this s1(5)]
  show ?thesis
    using steps_trans [OF s1(1) steps_one [OF p(1)], of 2] p(2) s1(3)
    by (intro exI [of _ "broadcastEvent m reset s1"]) (simp add: same_orders_def broadcastEvent_def)
qed

text \<open>One request is served; the load of the book and of the requests that are left does not grow.\<close>

lemma queue_load_pending:
  assumes "orders_ok b out" "\<forall>r \<in> set q. out r"
    and "\<And>p r. r \<in> set q \<Longrightarrow> qType r = PlaceRequest \<Longrightarrow> qOrder r = Some p \<Longrightarrow> pending_order b p \<Longrightarrow> order_qty b' p = order_qty b p"
  shows "queue_load b' q = queue_load b q"
proof -
  have "req_qty b' r = req_qty b r" if r: "r \<in> set q" for r
  proof (cases "qType r")
    case PlaceRequest
    then obtain p where "qOrder r = Some p" "pending_order b p" using assms(1,2) r unfolding orders_ok_def by meson
    then show ?thesis using assms(3) r PlaceRequest by (simp add: req_qty_def)
  qed (simp add: req_qty_def)
  then show ?thesis by (simp add: queue_load_def cong: map_cong)
qed

lemma serves_one:
  assumes i: "server_inv s" and q: "inputChan s = r # q" "loopPc s = Selecting"
    and e: "\<forall>x \<in> set e. \<exists>h. handlers s h = Some (Sending x)"
    and load: "book_total (ob s) + queue_load (ob s) (r # q @ e) < 2 ^ 64"
  shows "\<exists>s'. server_step s s' \<and> server_inv s' \<and> inputChan s' = q \<and> handlers s' = handlers s \<and>
     book_total (ob s') + queue_load (ob s') (q @ e) \<le> book_total (ob s) + queue_load (ob s) (r # q @ e)"
proof -
  let ?out = "outstanding (inputChan s) (handlers s)"
  have c: "chan_ok (r # q) (handlers s) (resChan s)" and oo: "orders_ok (ob s) ?out" and rb: "reachable False (ob s)"
    using i q by (simp_all add: server_inv_def)
  have out: "\<forall>x \<in> set (q @ e). ?out x \<and> x \<noteq> r"
  proof
    fix x assume "x \<in> set (q @ e)"
    then have "outstanding q (handlers s) x" using e by (auto simp: outstanding_def)
    then show "?out x \<and> x \<noteq> r" using chan_ok_take(2) [OF c] q(1) by simp
  qed
  have place: "\<exists>p. qOrder r = Some p \<and> pending_order (ob s) p \<and> book_total (ob s) + order_qty (ob s) p < 2 ^ 64"
    if t: "qType r = PlaceRequest"
  proof -
    have "?out r" using q by (simp add: outstanding_def)
    then obtain p where "qOrder r = Some p" "pending_order (ob s) p" using oo t unfolding orders_ok_def by meson
    then show ?thesis using load t by (simp add: queue_load_def req_qty_def)
  qed
  then have room: "request_room r (ob s)" using order_room_total [OF rb] by (auto simp: request_room_def)
  obtain s' resp where l: "loop_request r (s\<lparr>inputChan := q\<rparr>) = Some s'" "server_inv s'" "response_of r (ob s) (ob s') resp"
     "inputChan s' = q" "handlers s' = handlers s"
    using request_served [OF i q room] by blast
  have "resChan s (qResult r) = None" using c by (simp add: chan_ok_def)
  note st = server_step.request [OF q(2,1) this l(1)]
  have "book_total (ob s') + queue_load (ob s') (q @ e) \<le> book_total (ob s) + queue_load (ob s) (r # q @ e)"
  proof (cases "qType r")
    case PlaceRequest
    from place [OF this] obtain p where p: "qOrder r = Some p" "pending_order (ob s) p" "book_total (ob s) + order_qty (ob s) p < 2 ^ 64"
      by blast
    obtain ts where P: "Process p (ob s) = Some (ob s', ts)" using l(3) PlaceRequest p(1) by (auto simp: response_of_def)
    note pl = process_load [OF rb p(2,3) P]
    have "queue_load (ob s') (q @ e) = queue_load (ob s) (q @ e)"
    proof (rule queue_load_pending [OF oo])
      fix p' x assume x: "x \<in> set (q @ e)" "qType x = PlaceRequest" "qOrder x = Some p'" "pending_order (ob s) p'"
      have "?out r" using q by (simp add: outstanding_def)
      then have "p' \<noteq> p" using oo out x p(1) PlaceRequest unfolding orders_ok_def by metis
      then show "order_qty (ob s') p' = order_qty (ob s) p'" using pl(2) x(4) by blast
    qed (use out in blast)
    then show ?thesis using pl(1) PlaceRequest p(1) by (simp add: queue_load_def req_qty_def)
  next
    case CancelRequest
    then have C: "Cancel (qCancelID r) (ob s) = Some (ob s', rSuccess resp)" using l(3) by (simp add: response_of_def)
    have "queue_load (ob s') (q @ e) = queue_load (ob s) (q @ e)"
      by (rule queue_load_pending [OF oo]) (use out cancel_load(2) [OF rb C] in blast)+
    then show ?thesis using cancel_load(1) [OF rb C] by (simp add: queue_load_def)
  qed
  then show ?thesis using st l by blast
qed

text \<open>The loop works the whole channel off.\<close>

lemma drains:
  assumes "server_inv s" "inputChan s = q" "\<forall>x \<in> set e. \<exists>h. handlers s h = Some (Sending x)"
    and "book_total (ob s) + queue_load (ob s) (q @ e) < 2 ^ 64"
  shows "\<exists>s'. steps (3 * length q + 2) s s' \<and> server_inv s' \<and> inputChan s' = [] \<and> handlers s' = handlers s \<and>
     book_total (ob s') + queue_load (ob s') e < 2 ^ 64"
  using assms
proof (induction q arbitrary: s)
  case Nil
  then show ?case using steps_refl by auto
next
  case (Cons r q)
  obtain s1 where s1: "steps 2 s s1" "server_inv s1" "same_orders s s1" "loopPc s1 = Selecting"
    using loop_returns [OF Cons.prems(1)] by blast
  then have "inputChan s1 = r # q" "\<forall>x \<in> set e. \<exists>h. handlers s1 h = Some (Sending x)"
    "book_total (ob s1) + queue_load (ob s1) (r # q @ e) < 2 ^ 64"
    using Cons.prems(2-4) by (simp_all add: same_orders_def)
  from serves_one [OF s1(2) this(1) s1(4) this(2,3)] obtain s2 where s2: "server_step s1 s2" "server_inv s2" "inputChan s2 = q"
     "handlers s2 = handlers s1" "book_total (ob s2) + queue_load (ob s2) (q @ e) \<le> book_total (ob s1) + queue_load (ob s1) (r # q @ e)"
    by blast
  have "book_total (ob s2) + queue_load (ob s2) (q @ e) < 2 ^ 64"
    using s2(5) s1(3) Cons.prems(4) by (simp add: same_orders_def)
  moreover have "\<forall>x \<in> set e. \<exists>h. handlers s2 h = Some (Sending x)" using s2(4) s1(3) Cons.prems(3) by (simp add: same_orders_def)
  ultimately obtain s' where s': "steps (3 * length q + 2) s2 s'" "server_inv s'" "inputChan s' = []" "handlers s' = handlers s2"
     "book_total (ob s') + queue_load (ob s') e < 2 ^ 64"
    using Cons.IH [OF s2(2,3)] by blast
  have "steps 3 s s2" using steps_trans [OF s1(1) steps_one [OF s2(1)]] by simp
  then have "steps (3 * length (r # q) + 2) s s'" using steps_trans [OF _ s'(1)] by simp
  then show ?case using s' s2(4) s1(3) by (auto simp: same_orders_def)
qed

lemma waiting_answered:
  assumes "server_inv s" "handlers s h = Some (Waiting t)" "book_total (ob s) + queue_load (ob s) (inputChan s) < 2 ^ 64"
  shows "\<exists>s' code resp. steps (3 * length (inputChan s) + 3) s s' \<and> handlers s' h = Some (Replied (HttpJson code resp)) \<and>
     (code = 200 \<or> t = CancelRequest \<and> code = 404)"
proof -
  obtain s1 where s1: "steps (3 * length (inputChan s) + 2) s s1" "server_inv s1" "inputChan s1 = []" "handlers s1 = handlers s"
    using drains [OF assms(1) refl, of "[]"] assms(3) by auto
  have w: "handlers s1 h = Some (Waiting t)" using s1(4) assms(2) by simp
  moreover have "chan_ok [] (handlers s1) (resChan s1)" using s1(2,3) by (simp add: server_inv_def)
  ultimately obtain r where "resChan s1 h = Some r" by (auto simp: chan_ok_def)
  note st = server_step.reply [OF w this]
  show ?thesis
    using steps_trans [OF s1(1) steps_one [OF st], of "3 * length (inputChan s) + 3"]
    by (intro exI [of _ "write_reply h t r s1"]) (simp add: write_reply_eq set_handler_def)
qed

section \<open>All requests get their answers\<close>

lemma steps_rtranclp: "steps k s s' \<Longrightarrow> server_step\<^sup>*\<^sup>* s s'"
  unfolding steps_def by (auto dest: relpowp_imp_rtranclp)

text \<open>Requests that are about to be sent are sent, one after the other.\<close>

lemma sends_all:
  assumes "server_inv s" "distinct e" "set e = {r. \<exists>h. handlers s h = Some (Sending r)}"
    and "book_total (ob s) + queue_load (ob s) (inputChan s @ e) < 2 ^ 64"
  shows "\<exists>s'. server_step\<^sup>*\<^sup>* s s' \<and> server_inv s' \<and> dom (handlers s') = dom (handlers s) \<and> inputChan s' = [] \<and>
     (\<forall>h r. handlers s' h \<noteq> Some (Sending r))"
  using assms
proof (induction e arbitrary: s)
  case Nil
  obtain s1 where s1: "steps (3 * length (inputChan s) + 2) s s1" "server_inv s1" "inputChan s1 = []" "handlers s1 = handlers s"
    using drains [OF Nil.prems(1) refl, of "[]"] Nil.prems(4) by auto
  show ?case using steps_rtranclp [OF s1(1)] s1(2-4) Nil.prems(3) by (intro exI [of _ s1]) auto
next
  case (Cons r e)
  have "\<forall>x \<in> set (r # e). \<exists>h. handlers s h = Some (Sending x)" using Cons.prems(3) by blast
  from drains [OF Cons.prems(1) refl this Cons.prems(4)] obtain s1 where s1: "steps (3 * length (inputChan s) + 2) s s1" "server_inv s1"
     "inputChan s1 = []" "handlers s1 = handlers s" "book_total (ob s1) + queue_load (ob s1) (r # e) < 2 ^ 64"
    by blast
  obtain h where h: "handlers s1 h = Some (Sending r)" using Cons.prems(3) s1(4) by auto
  have "chan_ok [] (handlers s1) (resChan s1)" using s1(2,3) by (simp add: server_inv_def)
  then have q: "qResult x = k" if "handlers s1 k = Some (Sending x)" for k x using that by (simp add: chan_ok_def)
  let ?s2 = "enqueue h r s1"
  have st: "server_step s1 ?s2" by (rule server_step.enqueue [OF h]) (simp add: s1(3) input_cap_def)
  have h2: "handlers ?s2 = (handlers s)(h \<mapsto> Waiting (qType r))" "inputChan ?s2 = [r]" "ob ?s2 = ob s1"
    using s1(3,4) by (simp_all add: enqueue_def set_handler_def)
  have e: "set e = {x. \<exists>k. handlers ?s2 k = Some (Sending x)}"
  proof (intro set_eqI iffI)
    fix x assume x: "x \<in> set e"
    then obtain k where k: "handlers s k = Some (Sending x)" using Cons.prems(3) by auto
    have "x \<noteq> r" using x Cons.prems(2) by auto
    then have "k \<noteq> h" using k h s1(4) by auto
    then show "x \<in> {x. \<exists>k. handlers ?s2 k = Some (Sending x)}" using k h2(1) by auto
  next
    fix x assume "x \<in> {x. \<exists>k. handlers ?s2 k = Some (Sending x)}"
    then obtain k where k: "k \<noteq> h" "handlers s k = Some (Sending x)" using h2(1) by (auto split: if_splits)
    have "qResult x = k" "qResult r = h" using q k(2) h s1(4) by auto
    then have "x \<noteq> r" using k(1) by auto
    then show "x \<in> set e" using k(2) Cons.prems(3) by auto
  qed
  have "book_total (ob ?s2) + queue_load (ob ?s2) (inputChan ?s2 @ e) < 2 ^ 64" using s1(5) h2 by simp
  from Cons.IH [OF inv_enqueue [OF s1(2) h] _ e this] Cons.prems(2) obtain s' where s': "server_step\<^sup>*\<^sup>* ?s2 s'" "server_inv s'"
     "dom (handlers s') = dom (handlers ?s2)" "inputChan s' = []" "\<forall>h r. handlers s' h \<noteq> Some (Sending r)"
    by auto
  have "h \<in> dom (handlers s)" using h s1(4) by auto
  then have "dom (handlers s') = dom (handlers s)" using s'(3) h2(1) by auto
  moreover have "server_step\<^sup>*\<^sup>* s s'"
    using rtranclp_trans [OF steps_rtranclp [OF s1(1)] converse_rtranclp_into_rtranclp [of server_step, OF st s'(1)]] .
  ultimately show ?case using s' by blast
qed

text \<open>With an empty channel every waiting handler has its response and replies.\<close>

lemma replies_all:
  assumes "finite W" "server_inv s" "inputChan s = []" "W = {h. \<exists>t. handlers s h = Some (Waiting t)}" "\<forall>h r. handlers s h \<noteq> Some (Sending r)"
  shows "\<exists>s'. server_step\<^sup>*\<^sup>* s s' \<and> server_inv s' \<and> dom (handlers s') = dom (handlers s) \<and>
     (\<forall>h x. handlers s' h = Some x \<longrightarrow> (\<exists>y. x = Replied y))"
  using assms
proof (induction W arbitrary: s rule: finite_induct)
  case empty
  have "\<exists>y. x = Replied y" if "handlers s h = Some x" for h x using that empty.prems(3,4) by (cases x) auto
  then show ?case using empty.prems(1) by blast
next
  case (insert h W)
  obtain t where t: "handlers s h = Some (Waiting t)" using insert.prems(3) by auto
  have "chan_ok [] (handlers s) (resChan s)" using insert.prems(1,2) by (simp add: server_inv_def)
  then obtain r where r: "resChan s h = Some r" using t by (auto simp: chan_ok_def)
  let ?s1 = "write_reply h t r s"
  have h1: "\<exists>y. handlers ?s1 = (handlers s)(h \<mapsto> Replied y)" "inputChan ?s1 = []"
    using insert.prems(2) by (auto simp: write_reply_eq set_handler_def)
  have "{k. \<exists>t. handlers ?s1 k = Some (Waiting t)} = {k. \<exists>t. handlers s k = Some (Waiting t)} - {h}"
    using h1(1) by (auto split: if_splits)
  then have "W = {k. \<exists>t. handlers ?s1 k = Some (Waiting t)}" using insert.prems(3) insert.hyps(2) by auto
  moreover have "\<forall>k r. handlers ?s1 k \<noteq> Some (Sending r)" using insert.prems(4) h1(1) by (auto split: if_splits)
  ultimately obtain s' where s': "server_step\<^sup>*\<^sup>* ?s1 s'" "server_inv s'" "dom (handlers s') = dom (handlers ?s1)"
     "\<forall>h x. handlers s' h = Some x \<longrightarrow> (\<exists>y. x = Replied y)"
    using insert.IH [OF inv_reply [OF insert.prems(1) t r] h1(2)] by blast
  have "dom (handlers ?s1) = dom (handlers s)" using h1(1) t by (auto split: if_splits)
  then show ?case using s' converse_rtranclp_into_rtranclp [of server_step, OF server_step.reply [OF t r] s'(1)] by auto
qed

lemma answers_all:
  assumes "server_inv s" "finite (dom (handlers s))" "distinct e" "set e = {r. \<exists>h. handlers s h = Some (Sending r)}"
    and "book_total (ob s) + queue_load (ob s) (inputChan s @ e) < 2 ^ 64"
  shows "\<exists>s'. server_step\<^sup>*\<^sup>* s s' \<and> dom (handlers s') = dom (handlers s) \<and> (\<forall>h x. handlers s' h = Some x \<longrightarrow> (\<exists>y. x = Replied y))"
proof -
  obtain s1 where s1: "server_step\<^sup>*\<^sup>* s s1" "server_inv s1" "dom (handlers s1) = dom (handlers s)" "inputChan s1 = []"
     "\<forall>h r. handlers s1 h \<noteq> Some (Sending r)"
    using sends_all [OF assms(1,3,4,5)] by blast
  have "{h. \<exists>t. handlers s1 h = Some (Waiting t)} \<subseteq> dom (handlers s1)" by auto
  then have "finite {h. \<exists>t. handlers s1 h = Some (Waiting t)}" using assms(2) s1(3) finite_subset by metis
  from replies_all [OF this s1(2,4) refl s1(5)] show ?thesis using s1(1,3) rtranclp_trans [of server_step s s1] by metis
qed

section \<open>Properties\<close>

definition request_kind :: "handler \<Rightarrow> request_type option" where
  "request_kind x = (case x of Sending r \<Rightarrow> Some (qType r) | Waiting t \<Rightarrow> Some t | Replied _ \<Rightarrow> None)"

definition unsent :: "handler \<Rightarrow> order_request list" where
  "unsent x = (case x of Sending r \<Rightarrow> [r] | _ \<Rightarrow> [])"

text \<open>
  C7. No pending request is blocked for good: in every reachable state, with the input channel, the
  broadcast channel and the clients' channels as full as they may be, every handler that has
  accepted an order or a cancellation can get its answer, and the goroutines need at most three
  steps for each queued request and nine more; an order is answered with 200, a cancellation with
  200 or 404.  The quantities in the book and in the pending requests together fit 64 bits.
\<close>

theorem request_answered:
  assumes "server_reachable s" "handlers s h = Some x" "request_kind x = Some t"
    and "book_total (ob s) + queue_load (ob s) (inputChan s @ unsent x) < 2 ^ 64"
  shows "\<exists>n s' code resp. n \<le> 3 * length (inputChan s) + 9 \<and> (server_step ^^ n) s s' \<and>
     handlers s' h = Some (Replied (HttpJson code resp)) \<and> (code = 200 \<or> t = CancelRequest \<and> code = 404)"
proof -
  have i: "server_inv s" using assms(1) by (rule server_reachable_inv)
  have "\<exists>s' code resp. steps (3 * length (inputChan s) + 9) s s' \<and> handlers s' h = Some (Replied (HttpJson code resp)) \<and>
     (code = 200 \<or> t = CancelRequest \<and> code = 404)"
  proof (cases x)
    case (Sending r)
    have "\<forall>y \<in> set [r]. \<exists>h. handlers s h = Some (Sending y)" using assms(2) Sending by auto
    from drains [OF i refl this] obtain s1 where s1: "steps (3 * length (inputChan s) + 2) s s1" "server_inv s1" "inputChan s1 = []"
       "handlers s1 = handlers s" "book_total (ob s1) + queue_load (ob s1) [r] < 2 ^ 64"
      using assms(4) Sending by (auto simp: unsent_def)
    have h1: "handlers s1 h = Some (Sending r)" using s1(4) assms(2) Sending by simp
    let ?s2 = "enqueue h r s1"
    have st: "server_step s1 ?s2" by (rule server_step.enqueue [OF h1]) (simp add: s1(3) input_cap_def)
    have s2: "handlers ?s2 h = Some (Waiting t)" "inputChan ?s2 = [r]" "ob ?s2 = ob s1"
      using s1(3) assms(3) Sending by (simp_all add: enqueue_def set_handler_def request_kind_def)
    then obtain s' code resp where s': "steps 6 ?s2 s'" "handlers s' h = Some (Replied (HttpJson code resp))"
       "code = 200 \<or> t = CancelRequest \<and> code = 404"
      using waiting_answered [OF inv_enqueue [OF s1(2) h1] s2(1)] s1(5) by auto
    have "steps 7 s1 s'" using steps_trans [OF steps_one [OF st] s'(1)] by simp
    from steps_trans [OF s1(1) this, of "3 * length (inputChan s) + 9"] have "steps (3 * length (inputChan s) + 9) s s'" by simp
    then show ?thesis using s'(2,3) by blast
  next
    case (Waiting t')
    then have "handlers s h = Some (Waiting t)" "unsent x = []" using assms(2,3) by (simp_all add: request_kind_def unsent_def)
    from waiting_answered [OF i this(1)] this(2) assms(4) obtain s' code resp where s': "steps (3 * length (inputChan s) + 3) s s'"
       "handlers s' h = Some (Replied (HttpJson code resp))" "code = 200 \<or> t = CancelRequest \<and> code = 404"
      by auto
    from steps_trans [OF s'(1) steps_refl [of 6], of "3 * length (inputChan s) + 9"] s'(2,3) show ?thesis by auto
  qed (use assms(3) in \<open>simp add: request_kind_def\<close>)
  then show ?thesis unfolding steps_def by blast
qed

theorem request_answered_witness:
  "\<exists>n s' code resp. n \<le> 12 \<and> (server_step ^^ n) ex_server s' \<and> handlers s' 2 = Some (Replied (HttpJson code resp)) \<and> code \<in> {200, 404}"
proof -
  have h: "handlers ex_server 2 = Some (Sending \<lparr>qType = CancelRequest, qOrder = None, qCancelID = ''a'', qResult = 2\<rparr>)" by code_simp
  have "book_total (ob ex_server) + queue_load (ob ex_server)
      (inputChan ex_server @ unsent (Sending \<lparr>qType = CancelRequest, qOrder = None, qCancelID = ''a'', qResult = 2\<rparr>)) = 3"
    by code_simp
  then have "book_total (ob ex_server) + queue_load (ob ex_server)
      (inputChan ex_server @ unsent (Sending \<lparr>qType = CancelRequest, qOrder = None, qCancelID = ''a'', qResult = 2\<rparr>)) < 2 ^ 64"
    by simp
  from request_answered [OF ex_server_reachable h _ this, of CancelRequest] show ?thesis
    by (simp add: request_kind_def ex_server_state)
qed

end
