(* ===== verification/Telemetry_Exporter.thy ===== *)
theory Telemetry_Exporter
  imports Go_Mux Loadgen
begin

text \<open>
  The Prometheus metrics of \<open>pkg/telemetry/exporter.go\<close>: registration with the default registry at
  package initialisation, which panics on a duplicate or malformed name, the labels of the counter
  vectors, whose number a use must match, and the metrics endpoint.  Histograms are kept as the
  number of their observations.
\<close>

section \<open>Registration\<close>

datatype collector = CounterVec "string list" | Histogram

type_synonym registry = "(string \<times> collector) list"

definition name_char :: "char \<Rightarrow> bool" where
  "name_char c \<longleftrightarrow> c = CHR ''_'' \<or> c = CHR '':'' \<or> (65 \<le> (of_char c :: nat) \<and> (of_char c :: nat) \<le> 90) \<or>
     (97 \<le> (of_char c :: nat) \<and> (of_char c :: nat) \<le> 122)"

definition name_digit :: "char \<Rightarrow> bool" where
  "name_digit c \<longleftrightarrow> 48 \<le> (of_char c :: nat) \<and> (of_char c :: nat) \<le> 57"

definition valid_name :: "string \<Rightarrow> bool" where
  "valid_name s \<longleftrightarrow> (case s of [] \<Rightarrow> False | c # cs \<Rightarrow> name_char c \<and> list_all (\<lambda>c. name_char c \<or> name_digit c) cs)"

text \<open>\<open>promauto\<close>: \<open>MustRegister\<close>, with \<open>None\<close> for its panic.\<close>

definition MustRegister :: "string \<Rightarrow> collector \<Rightarrow> registry \<Rightarrow> registry option" where
  "MustRegister name c reg = (if valid_name name \<and> name \<notin> fst ` set reg then Some (reg @ [(name, c)]) else None)"

definition OrdersProcessed :: string where "OrdersProcessed = ''trading_orders_processed_total''"
definition MatchingDuration :: string where "MatchingDuration = ''trading_matching_duration_seconds''"
definition LoadGenRequests :: string where "LoadGenRequests = ''trading_loadgen_requests_total''"
definition LoadGenLatency :: string where "LoadGenLatency = ''trading_loadgen_latency_seconds''"

definition exporter_init :: "registry \<Rightarrow> registry option" where
  "exporter_init reg = do {
     reg \<leftarrow> MustRegister OrdersProcessed (CounterVec [''side'', ''type'']) reg;
     reg \<leftarrow> MustRegister MatchingDuration Histogram reg;
     reg \<leftarrow> MustRegister LoadGenRequests (CounterVec [''status'']) reg;
     MustRegister LoadGenLatency Histogram reg }"

section \<open>Recording\<close>

text \<open>
  The samples of a process: counter values by name and label values, and observation counts.
  \<open>WithLabelValues\<close> panics when the number of values is not that of the labels.
\<close>

record samples =
  counters :: "string \<times> string list \<Rightarrow> nat"
  observed :: "string \<Rightarrow> nat"

definition no_samples :: samples where
  "no_samples = \<lparr>counters = (\<lambda>_. 0), observed = (\<lambda>_. 0)\<rparr>"

definition Inc :: "registry \<Rightarrow> string \<Rightarrow> string list \<Rightarrow> samples \<Rightarrow> samples option" where
  "Inc reg name vals st = (case map_of reg name of
     Some (CounterVec labels) \<Rightarrow>
       if length vals = length labels then Some (st\<lparr>counters := (counters st)((name, vals) := counters st (name, vals) + 1)\<rparr>) else None
   | _ \<Rightarrow> None)"

definition Observe :: "registry \<Rightarrow> string \<Rightarrow> samples \<Rightarrow> samples option" where
  "Observe reg name st = (case map_of reg name of
     Some Histogram \<Rightarrow> Some (st\<lparr>observed := (observed st)(name := observed st name + 1)\<rparr>)
   | _ \<Rightarrow> None)"

text \<open>What the matching loop records of an order, and the collector of the load generator of a request.\<close>

definition record_order :: "registry \<Rightarrow> order \<Rightarrow> samples \<Rightarrow> samples option" where
  "record_order reg x st = do {
     st \<leftarrow> Observe reg MatchingDuration st;
     Inc reg OrdersProcessed [Side_String (oSide x), order_label (oType x)] st }"

definition record_request :: "registry \<Rightarrow> latency_metric \<Rightarrow> samples \<Rightarrow> samples option" where
  "record_request reg m st = do {
     st \<leftarrow> Inc reg LoadGenRequests [if mIsSuccess m then ''success'' else ''error''] st;
     Observe reg LoadGenLatency st }"

fun record_requests :: "registry \<Rightarrow> latency_metric list \<Rightarrow> samples \<Rightarrow> samples option" where
  "record_requests reg [] st = Some st"
| "record_requests reg (m # ms) st = do { st \<leftarrow> record_request reg m st; record_requests reg ms st }"

fun collect_all :: "latency_metric list \<Rightarrow> run_stats \<Rightarrow> run_stats" where
  "collect_all [] st = st"
| "collect_all (m # ms) st = collect_all ms (collect m st)"

section \<open>The endpoint\<close>

definition StartMetricsServer :: "unit mux option" where
  "StartMetricsServer = HandleFuncs [(''/metrics'', ())] []"

lemma metrics_endpoint:
  "map_option (mux_dispatch ''GET'' ''/metrics'') StartMetricsServer = Some (Serve ())"
  "map_option (mux_dispatch ''GET'' ''/'') StartMetricsServer = Some NotFoundPage"
  by code_simp+

section \<open>Properties\<close>

definition the_registry :: registry where
  "the_registry = [(OrdersProcessed, CounterVec [''side'', ''type'']), (MatchingDuration, Histogram),
     (LoadGenRequests, CounterVec [''status'']), (LoadGenLatency, Histogram)]"

lemma exporter_init_eq: "exporter_init [] = Some the_registry"
  by code_simp

lemma registry_lookup:
  "map_of the_registry OrdersProcessed = Some (CounterVec [''side'', ''type''])" "map_of the_registry MatchingDuration = Some Histogram"
  "map_of the_registry LoadGenRequests = Some (CounterVec [''status''])" "map_of the_registry LoadGenLatency = Some Histogram"
  by code_simp+

lemma record_request_eq:
  "record_request the_registry m st = Some (st\<lparr>
     counters := (counters st)((LoadGenRequests, [if mIsSuccess m then ''success'' else ''error'']) :=
        counters st (LoadGenRequests, [if mIsSuccess m then ''success'' else ''error'']) + 1),
     observed := (observed st)(LoadGenLatency := observed st LoadGenLatency + 1)\<rparr>)"
  by (simp add: record_request_def Inc_def Observe_def registry_lookup)

text \<open>
  The metrics agree with the reports: registering the four metrics at the start of a process
  does not panic, no recording of an order or of a request does, and after any sequence of
  requests the counters of successes and errors and the number of latencies observed are the
  numbers that the load generator prints.
\<close>

theorem metrics_match_report:
  "\<exists>reg st. exporter_init [] = Some reg \<and> record_requests reg ms no_samples = Some st \<and> (\<forall>x st. record_order reg x st \<noteq> None) \<and>
     counters st (LoadGenRequests, [''success'']) = successCount (collect_all ms zero_stats) \<and>
     counters st (LoadGenRequests, [''success'']) + counters st (LoadGenRequests, [''error'']) = totalRequests (collect_all ms zero_stats) \<and>
     observed st LoadGenLatency = totalRequests (collect_all ms zero_stats)"
proof -
  have "\<exists>st'. record_requests the_registry ms st = Some st' \<and>
      counters st' (LoadGenRequests, [''success'']) + successCount rs = counters st (LoadGenRequests, [''success'']) + successCount (collect_all ms rs) \<and>
      counters st' (LoadGenRequests, [''success'']) + counters st' (LoadGenRequests, [''error'']) + totalRequests rs =
        counters st (LoadGenRequests, [''success'']) + counters st (LoadGenRequests, [''error'']) + totalRequests (collect_all ms rs) \<and>
      observed st' LoadGenLatency + totalRequests rs = observed st LoadGenLatency + totalRequests (collect_all ms rs)" for st rs
  proof (induction ms arbitrary: st rs)
    case (Cons m ms)
    let ?st = "the (record_request the_registry m st)"
    obtain st' where st': "record_requests the_registry ms ?st = Some st'"
      "counters st' (LoadGenRequests, [''success'']) + successCount (collect m rs) = counters ?st (LoadGenRequests, [''success'']) + successCount (collect_all ms (collect m rs))"
      "counters st' (LoadGenRequests, [''success'']) + counters st' (LoadGenRequests, [''error'']) + totalRequests (collect m rs) =
        counters ?st (LoadGenRequests, [''success'']) + counters ?st (LoadGenRequests, [''error'']) + totalRequests (collect_all ms (collect m rs))"
      "observed st' LoadGenLatency + totalRequests (collect m rs) = observed ?st LoadGenLatency + totalRequests (collect_all ms (collect m rs))"
      using Cons.IH [of ?st "collect m rs"] by blast
    then show ?case by (intro exI [of _ st']) (cases "mIsSuccess m"; simp add: record_request_eq collect_def)
  qed simp
  from this [of no_samples zero_stats] show ?thesis
    by (auto simp: exporter_init_eq record_order_def Inc_def Observe_def registry_lookup no_samples_def zero_stats_def)
qed

end
