(* ===== verification/Go_Flag.thy ===== *)
theory Go_Flag
  imports Go_Strconv
begin

text \<open>
  Go's \<open>flag\<close> package as the programs use it: flags with a value, given as \<open>-name=value\<close> or
  \<open>-name value\<close>, with one or two dashes.  A parse error makes the program exit with status 2,
  a request for help with status 0.
\<close>

section \<open>Parsing\<close>

datatype flag_stop = BadSyntax string | Undefined string | HelpRequested | NeedsArgument string | InvalidValue string string

text \<open>\<open>formal name\<close> is the test that a value of the flag has to pass, or \<open>None\<close> for an unknown flag.\<close>

fun parse_flags :: "(string \<Rightarrow> (string \<Rightarrow> bool) option) \<Rightarrow> string list \<Rightarrow> (string \<rightharpoonup> string) \<Rightarrow> flag_stop + (string \<rightharpoonup> string) \<times> string list" where
  "parse_flags formal [] vs = Inr (vs, [])"
| "parse_flags formal (s # args) vs =
     (if length s < 2 \<or> hd_opt s \<noteq> Some CHR ''-'' then Inr (vs, s # args)
      else if s = ''--'' then Inr (vs, args)
      else let name0 = (if hd_opt (tl s) = Some CHR ''-'' then drop 2 s else drop 1 s) in
        if hd_opt name0 = Some CHR ''-'' \<or> hd_opt name0 = Some CHR ''='' then Inl (BadSyntax s)
        else let name = takeWhile (\<lambda>c. c \<noteq> CHR ''='') name0; rest = drop (length name) name0 in
          (case formal name of
             None \<Rightarrow> Inl (if name = ''help'' \<or> name = ''h'' then HelpRequested else Undefined name)
           | Some ok \<Rightarrow>
               (case rest of
                  _ # v \<Rightarrow> if ok v then parse_flags formal args (vs(name \<mapsto> v)) else Inl (InvalidValue name v)
                | [] \<Rightarrow> (case args of
                    [] \<Rightarrow> Inl (NeedsArgument name)
                  | v # args' \<Rightarrow> if ok v then parse_flags formal args' (vs(name \<mapsto> v)) else Inl (InvalidValue name v)))))"

declare parse_flags.simps(2) [simp del]

definition exit_status :: "flag_stop \<Rightarrow> nat" where
  "exit_status e = (if e = HelpRequested then 0 else 2)"

section \<open>Reading back what was given\<close>

definition flag_name_ok :: "string \<Rightarrow> bool" where
  "flag_name_ok n \<longleftrightarrow> n \<noteq> '''' \<and> hd_opt n \<noteq> Some CHR ''-'' \<and> CHR ''='' \<notin> set n"

definition flag_arg :: "string \<times> string \<Rightarrow> string" where
  "flag_arg p = CHR ''-'' # fst p @ CHR ''='' # snd p"

lemma parse_flag_arg:
  assumes "flag_name_ok n" "formal n = Some ok" "ok v"
  shows "parse_flags formal (flag_arg (n, v) # args) vs = parse_flags formal args (vs(n \<mapsto> v))"
    and "parse_flags formal ((CHR ''-'' # n) # v # args) vs = parse_flags formal args (vs(n \<mapsto> v))"
proof -
  obtain c m where n: "n = c # m" "c \<noteq> CHR ''-''" "c \<noteq> CHR ''=''" using assms(1) by (cases n) (auto simp: flag_name_ok_def)
  have "CHR ''='' \<notin> set m" using assms(1) n by (simp add: flag_name_ok_def)
  then have t: "takeWhile (\<lambda>c. c \<noteq> CHR ''='') m = m" "takeWhile (\<lambda>c. c \<noteq> CHR ''='') (m @ CHR ''='' # v) = m"
    by (auto simp: takeWhile_eq_all_conv takeWhile_append)
  show "parse_flags formal (flag_arg (n, v) # args) vs = parse_flags formal args (vs(n \<mapsto> v))"
    using n assms(2,3) by (simp add: parse_flags.simps(2) flag_arg_def Let_def t)
  show "parse_flags formal ((CHR ''-'' # n) # v # args) vs = parse_flags formal args (vs(n \<mapsto> v))"
    using n assms(2,3) by (simp add: parse_flags.simps(2) Let_def t)
qed

lemma parse_flag_args:
  "\<forall>(n, v) \<in> set nvs. flag_name_ok n \<and> (\<exists>ok. formal n = Some ok \<and> ok v) \<Longrightarrow>
   parse_flags formal (map flag_arg nvs) vs = Inr (vs ++ map_of (rev nvs), [])"
proof (induction nvs arbitrary: vs)
  case (Cons nv nvs)
  obtain n v where nv: "nv = (n, v)" by (cases nv)
  obtain ok where ok: "flag_name_ok n" "formal n = Some ok" "ok v" using Cons.prems nv by auto
  have a: "parse_flags formal (map flag_arg nvs) (vs(n \<mapsto> v)) = Inr (vs(n \<mapsto> v) ++ map_of (rev nvs), [])" using Cons by simp
  have b: "vs(n \<mapsto> v) ++ map_of (rev nvs) = vs ++ map_of (rev nvs @ [(n, v)])"
    by (auto simp: map_add_def fun_eq_iff split: option.splits)
  have "parse_flags formal (flag_arg (n, v) # map flag_arg nvs) vs = parse_flags formal (map flag_arg nvs) (vs(n \<mapsto> v))"
    by (rule parse_flag_arg(1) [where ok = ok]) (rule ok)+
  then show ?case by (simp only: nv list.map rev.simps a b)
qed simp

end
