(* ===== verification/Http_Service.thy ===== *)
theory Http_Service
  imports Main
begin

text \<open>
  The life cycle that the mains of the HTTP services under \<open>cmd/\<close> share: a goroutine in
  \<open>ListenAndServe\<close>, the signal, and \<open>Shutdown\<close> with its five seconds.  The handlers of a service are
  a step relation on its state; the locale \<open>http_service\<close> is what the life cycle needs to know of
  them, and each service interprets it with its own handlers.
\<close>

section \<open>The process\<close>

datatype listen_error = ErrServerClosed | ListenError string

datatype main_pc = AwaitingSignal | InShutdown | Finished

record http_proc =
  pcMain :: main_pc
  listening :: bool
  exited :: "nat option"

definition proc_start :: http_proc where
  "proc_start = \<lparr>pcMain = AwaitingSignal, listening = True, exited = None\<rparr>"

text \<open>\<open>ListenAndServe\<close> has returned in its goroutine: every error but \<open>ErrServerClosed\<close> is fatal.\<close>

definition listen_returned :: "listen_error \<Rightarrow> http_proc \<Rightarrow> http_proc" where
  "listen_returned err p = (case err of
     ErrServerClosed \<Rightarrow> p\<lparr>listening := False\<rparr>
   | ListenError _ \<Rightarrow> p\<lparr>listening := False, exited := Some 1\<rparr>)"

text \<open>\<open>srv.Shutdown\<close> has returned in \<open>main\<close>; the submission service ignores its error.\<close>

definition shutdown_returned :: "bool \<Rightarrow> string option \<Rightarrow> http_proc \<Rightarrow> http_proc" where
  "shutdown_returned checked err p = (case err of
     Some _ \<Rightarrow> if checked then p\<lparr>exited := Some 1\<rparr> else p\<lparr>pcMain := Finished, exited := Some 0\<rparr>
   | None \<Rightarrow> p\<lparr>pcMain := Finished, exited := Some 0\<rparr>)"

section \<open>The process around its handlers\<close>

record 's http_sys =
  hProc :: http_proc
  hApp :: 's

text \<open>
  Steps until the process exits.  \<open>step\<close> are the steps of the handlers and goroutines of the service,
  \<open>reqs\<close> the requests it has begun to handle, and \<open>idle\<close> holds when it has answered all of them;
  \<open>metrics\<close> says whether there is a metrics server, whose failure is fatal at any time, and
  \<open>checked\<close> whether the error of \<open>Shutdown\<close> is.  While the server listens, requests arrive;
  \<open>Shutdown\<close> first closes the listener, on which \<open>ListenAndServe\<close> returns \<open>ErrServerClosed\<close>, and then
  waits until no request is active, or gives up after its five seconds.
\<close>

inductive http_step :: "('s \<Rightarrow> 's \<Rightarrow> bool) \<Rightarrow> ('s \<Rightarrow> nat set) \<Rightarrow> ('s \<Rightarrow> bool) \<Rightarrow> bool \<Rightarrow> bool \<Rightarrow> 's http_sys \<Rightarrow> 's http_sys \<Rightarrow> bool"
  for step reqs idle metrics checked where
  accept: "exited (hProc e) = None \<Longrightarrow> pcMain (hProc e) = AwaitingSignal \<Longrightarrow> listening (hProc e) \<Longrightarrow> step (hApp e) s' \<Longrightarrow>
    http_step step reqs idle metrics checked e (e\<lparr>hApp := s'\<rparr>)"
| work: "exited (hProc e) = None \<Longrightarrow> step (hApp e) s' \<Longrightarrow> reqs s' = reqs (hApp e) \<Longrightarrow>
    http_step step reqs idle metrics checked e (e\<lparr>hApp := s'\<rparr>)"
| listen_fails: "exited (hProc e) = None \<Longrightarrow> pcMain (hProc e) = AwaitingSignal \<Longrightarrow> listening (hProc e) \<Longrightarrow>
    http_step step reqs idle metrics checked e (e\<lparr>hProc := listen_returned (ListenError msg) (hProc e)\<rparr>)"
| metrics_fail: "exited (hProc e) = None \<Longrightarrow> metrics \<Longrightarrow>
    http_step step reqs idle metrics checked e (e\<lparr>hProc := (hProc e)\<lparr>exited := Some 1\<rparr>\<rparr>)"
| signal: "exited (hProc e) = None \<Longrightarrow> pcMain (hProc e) = AwaitingSignal \<Longrightarrow>
    http_step step reqs idle metrics checked e (e\<lparr>hProc := (hProc e)\<lparr>pcMain := InShutdown\<rparr>\<rparr>)"
| closed: "exited (hProc e) = None \<Longrightarrow> pcMain (hProc e) = InShutdown \<Longrightarrow> listening (hProc e) \<Longrightarrow>
    http_step step reqs idle metrics checked e (e\<lparr>hProc := listen_returned ErrServerClosed (hProc e)\<rparr>)"
| idle: "exited (hProc e) = None \<Longrightarrow> pcMain (hProc e) = InShutdown \<Longrightarrow> idle (hApp e) \<Longrightarrow>
    http_step step reqs idle metrics checked e (e\<lparr>hProc := shutdown_returned checked None (hProc e)\<rparr>)"
| timeout: "exited (hProc e) = None \<Longrightarrow> pcMain (hProc e) = InShutdown \<Longrightarrow>
    http_step step reqs idle metrics checked e (e\<lparr>hProc := shutdown_returned checked (Some msg) (hProc e)\<rparr>)"

inductive_cases http_stepE: "http_step step reqs idle metrics checked e e'"

text \<open>What a step does to the process, and that nothing happens after the exit.\<close>

lemma http_step_running: "http_step step reqs idle metrics checked e e' \<Longrightarrow> exited (hProc e) = None"
  by (erule http_stepE) simp_all

lemma http_step_exit:
  assumes "http_step step reqs idle metrics checked e e'" "exited (hProc e') = Some 0"
  shows "pcMain (hProc e') = Finished \<and> hApp e' = hApp e \<and> (checked \<longrightarrow> idle (hApp e'))"
  using assms by (elim http_stepE) (auto simp: listen_returned_def shutdown_returned_def split: if_splits)

lemma http_step_signalled:
  assumes "http_step step reqs idle metrics checked e e'" "pcMain (hProc e) \<noteq> AwaitingSignal"
  shows "pcMain (hProc e') \<noteq> AwaitingSignal \<and> reqs (hApp e') = reqs (hApp e)"
  using assms by (elim http_stepE) (auto simp: listen_returned_def shutdown_returned_def split: if_splits)

section \<open>What the life cycle guarantees\<close>

locale http_service =
  fixes step :: "'s \<Rightarrow> 's \<Rightarrow> bool" and reqs :: "'s \<Rightarrow> nat set" and idle :: "'s \<Rightarrow> bool"
  assumes reqs_mono: "step s s' \<Longrightarrow> reqs s \<subseteq> reqs s'"
begin

text \<open>With a checked shutdown, status 0 means that every request has been answered.\<close>

lemma exit_idle:
  assumes "(http_step step reqs idle metrics True)\<^sup>*\<^sup>* e e'" "exited (hProc e) = None" "exited (hProc e') = Some 0"
  shows "idle (hApp e')"
  using assms(1,3)
proof (induction rule: rtranclp_induct)
  case (step y z)
  then show ?case using http_step_exit by blast
qed (use assms(2) in simp)

text \<open>After the signal no request is begun.\<close>

lemma signal_stops:
  assumes "(http_step step reqs idle metrics checked)\<^sup>*\<^sup>* e e'" "pcMain (hProc e) \<noteq> AwaitingSignal"
  shows "reqs (hApp e') = reqs (hApp e)"
proof -
  have "pcMain (hProc e') \<noteq> AwaitingSignal \<and> reqs (hApp e') = reqs (hApp e)"
    using assms(1)
  proof (induction rule: rtranclp_induct)
    case (step y z)
    then show ?case using http_step_signalled [OF step.hyps(2)] by simp
  qed (use assms(2) in simp)
  then show ?thesis ..
qed

lemma steps_mono: "step\<^sup>*\<^sup>* s s' \<Longrightarrow> reqs s \<subseteq> reqs s'"
  by (induction rule: rtranclp_induct) (use reqs_mono in blast)+

text \<open>Work that begins no request can be done in every phase.\<close>

lemma works:
  assumes "step\<^sup>*\<^sup>* (hApp e) s'" "reqs s' = reqs (hApp e)" "exited (hProc e) = None"
  shows "(http_step step reqs idle metrics checked)\<^sup>*\<^sup>* e (e\<lparr>hApp := s'\<rparr>)"
  using assms(1,2)
proof (induction rule: rtranclp_induct)
  case (step y z)
  have y: "reqs y = reqs (hApp e)" using steps_mono [OF step.hyps(1)] reqs_mono [OF step.hyps(2)] step.prems by blast
  then have "http_step step reqs idle metrics checked (e\<lparr>hApp := y\<rparr>) ((e\<lparr>hApp := y\<rparr>)\<lparr>hApp := z\<rparr>)"
    by (intro http_step.work) (use step.hyps(2) step.prems assms(3) in simp_all)
  then show ?case using step.IH [OF y] by (simp add: rtranclp.rtrancl_into_rtrancl)
qed simp

text \<open>If the pending requests can be answered, the process can exit with status 0 after the signal.\<close>

lemma can_exit:
  assumes "step\<^sup>*\<^sup>* (hApp e) s'" "reqs s' = reqs (hApp e)" "idle s'" "exited (hProc e) = None" "pcMain (hProc e) = InShutdown"
  shows "\<exists>e'. (http_step step reqs idle metrics checked)\<^sup>*\<^sup>* e e' \<and> exited (hProc e') = Some 0 \<and> hApp e' = s'"
proof -
  let ?e = "e\<lparr>hApp := s'\<rparr>"
  have "http_step step reqs idle metrics checked ?e (?e\<lparr>hProc := shutdown_returned checked None (hProc ?e)\<rparr>)"
    by (rule http_step.idle) (use assms in simp_all)
  with works [OF assms(1,2,4)] have "(http_step step reqs idle metrics checked)\<^sup>*\<^sup>* e (?e\<lparr>hProc := shutdown_returned checked None (hProc ?e)\<rparr>)"
    by (rule rtranclp.rtrancl_into_rtrancl)
  then show ?thesis
    by (intro exI [of _ "?e\<lparr>hProc := shutdown_returned checked None (hProc ?e)\<rparr>"]) (simp add: shutdown_returned_def)
qed

end

end
