(* ===== verification/Sandbox.thy ===== *)
theory Sandbox
  imports Platform_Prelude
begin

text \<open>
  The build and sandbox layer of \<open>pkg/sandbox\<close>: packing a source directory into a tar build
  context and building a submission's image (\<open>docker.go\<close>, \<open>builder.go\<close>), and the life cycle of
  the locked-down container.  The Docker client is a third-party library and a parameter over an
  arbitrary state of the daemon; \<open>docker_ok\<close> is its documented behaviour.
\<close>

section \<open>Directory trees and tar archives\<close>

text \<open>
  A directory entry: a file, a directory with its entries in the order of \<open>os.ReadDir\<close>, a
  symbolic link with what reading through it gives, or an entry (a directory or not) for which
  the service lacks permission.
\<close>

datatype fnode = FFile string | FDir "(string \<times> fnode) list" | FLink "string option" | FLocked bool

fun IsDir :: "fnode \<Rightarrow> bool" where
  "IsDir (FDir es) = True"
| "IsDir (FLocked d) = d"
| "IsDir _ = False"

text \<open>\<open>os.ReadFile\<close>, which follows links.\<close>

fun ReadFile :: "fnode \<Rightarrow> string option" where
  "ReadFile (FFile data) = Some data"
| "ReadFile (FLink t) = t"
| "ReadFile _ = None"

record tar_entry =
  tName :: string
  tMode :: nat
  tSize :: nat
  tData :: string

definition tar_file :: "string \<Rightarrow> string \<Rightarrow> tar_entry" where
  "tar_file tarPath data = \<lparr>tName = tarPath, tMode = 420, tSize = length data, tData = data\<rparr>"

text \<open>
  \<open>addDirToTar\<close> and its loop over the entries.  \<open>WriteHeader\<close> gives the error, if any, of
  writing a header; the data that follows has the size of the header and is always accepted.
\<close>

function (sequential) addDirToTar :: "(string \<Rightarrow> string option) \<Rightarrow> string \<Rightarrow> fnode \<Rightarrow> tar_entry list \<Rightarrow> tar_entry list \<times> string option"
  and tar_entries :: "(string \<Rightarrow> string option) \<Rightarrow> string \<Rightarrow> (string \<times> fnode) list \<Rightarrow> tar_entry list \<Rightarrow> tar_entry list \<times> string option" where
  "addDirToTar WriteHeader baseInTar (FDir entries) tw = tar_entries WriteHeader baseInTar entries tw"
| "addDirToTar WriteHeader baseInTar _ tw = (tw, Some ''readdir'')"
| "tar_entries WriteHeader baseInTar [] tw = (tw, None)"
| "tar_entries WriteHeader baseInTar ((name, x) # entries) tw =
     (let tarPath = baseInTar @ ''/'' @ name in
      if IsDir x then
        (case addDirToTar WriteHeader tarPath x tw of
           (tw', Some err) \<Rightarrow> (tw', Some err)
         | (tw', None) \<Rightarrow> tar_entries WriteHeader baseInTar entries tw')
      else
        (case ReadFile x of
           None \<Rightarrow> (tw, Some ''read'')
         | Some data \<Rightarrow>
             (case WriteHeader tarPath of
                Some err \<Rightarrow> (tw, Some err)
              | None \<Rightarrow> tar_entries WriteHeader baseInTar entries (tw @ [tar_file tarPath data]))))"
  by pat_completeness auto
termination
  by (relation "measure (\<lambda>x. case x of Inl (_, _, x, _) \<Rightarrow> size x | Inr (_, _, es, _) \<Rightarrow> size_list (size_prod (\<lambda>_. 0) size) es)") auto

section \<open>Docker\<close>

record container_config =
  cImage :: string
  cEnv :: "string list"

record host_config =
  hNetworkMode :: string
  hReadonlyRootfs :: bool
  hMemory :: int
  hNanoCPUs :: int
  hSecurityOpt :: "string list"
  hCapDrop :: "string list"

record build_options =
  bTags :: "string list"
  bDockerfile :: string
  bRemove :: bool

text \<open>The bytes of a build context: its entries, and whether the end-of-archive trailer is there.\<close>

record build_context =
  xEntries :: "tar_entry list"
  xTrailer :: bool

record 'd docker =
  dContainerCreate :: "container_config \<Rightarrow> host_config \<Rightarrow> 'd \<Rightarrow> 'd \<times> (string + string)"
  dContainerStart :: "string \<Rightarrow> 'd \<Rightarrow> 'd \<times> string option"
  dContainerStop :: "string \<Rightarrow> nat \<Rightarrow> 'd \<Rightarrow> 'd \<times> string option"
  dContainerRemove :: "string \<Rightarrow> bool \<Rightarrow> 'd \<Rightarrow> 'd \<times> string option"
  dContainerLogs :: "string \<Rightarrow> bool \<Rightarrow> bool \<Rightarrow> 'd \<Rightarrow> string + string"
  dImageBuild :: "build_context \<Rightarrow> build_options \<Rightarrow> 'd \<Rightarrow> 'd \<times> string option"

text \<open>
  The structs \<open>DockerExecutor\<close> and \<open>Builder\<close> have one field each, the client and the executor.  The
  argument of \<open>NewDockerExecutor\<close> is what \<open>client.NewClientWithOpts\<close> gives.
\<close>

type_synonym 'd docker_executor = "'d docker"

type_synonym 'd builder = "'d docker_executor"

definition NewDockerExecutor :: "string + 'd docker \<Rightarrow> string + 'd docker_executor" where
  "NewDockerExecutor dial = (case dial of
     Inl err \<Rightarrow> Inl (''failed to connect to Docker daemon: '' @ err)
   | Inr cli \<Rightarrow> Inr cli)"

definition NewBuilder :: "'d docker_executor \<Rightarrow> 'd builder" where
  "NewBuilder executor = executor"

definition sandbox_host :: host_config where
  "sandbox_host = \<lparr>hNetworkMode = ''none'', hReadonlyRootfs = True, hMemory = 512 * 1024 * 1024, hNanoCPUs = 1000000000,
     hSecurityOpt = [''no-new-privileges:true''], hCapDrop = [''ALL'']\<rparr>"

text \<open>\<open>None\<close> is the panic of \<open>containerID[:12]\<close> on an identifier that is too short.\<close>

definition RunSandbox :: "'d docker \<Rightarrow> string \<Rightarrow> string \<Rightarrow> 'd \<Rightarrow> ('d \<times> (string + string)) option" where
  "RunSandbox cli imageName port d =
     (case dContainerCreate cli \<lparr>cImage = imageName, cEnv = [''PORT='' @ port]\<rparr> sandbox_host d of
        (d, Inl err) \<Rightarrow> Some (d, Inl (''failed to create container: '' @ err))
      | (d, Inr containerID) \<Rightarrow>
          if length containerID < 12 then None
          else (case dContainerStart cli containerID d of
             (d, Some err) \<Rightarrow> Some (d, Inl (''failed to start container: '' @ err))
           | (d, None) \<Rightarrow> Some (d, Inr containerID)))"

definition StopAndRemove :: "'d docker \<Rightarrow> string \<Rightarrow> 'd \<Rightarrow> ('d \<times> string option) option" where
  "StopAndRemove cli containerID d =
     (if length containerID < 12 then None
      else let (d, err) = dContainerStop cli containerID 5 d in Some (dContainerRemove cli containerID True d))"

definition GetLogs :: "'d docker \<Rightarrow> string \<Rightarrow> 'd \<Rightarrow> string + string" where
  "GetLogs cli containerID d = (case dContainerLogs cli containerID True True d of Inl err \<Rightarrow> Inl err | Inr out \<Rightarrow> Inr out)"

text \<open>\<open>BuildImage\<close>: the tar writer is closed only after its bytes have been handed over.\<close>

definition BuildImage :: "(string \<Rightarrow> string option) \<Rightarrow> 'd docker \<Rightarrow> fnode \<Rightarrow> string \<Rightarrow> string \<Rightarrow> 'd \<Rightarrow> 'd \<times> string option" where
  "BuildImage WriteHeader cli src dockerfilePath imageTag d =
     (case addDirToTar WriteHeader ''.'' src [] of
        (buf, Some err) \<Rightarrow> (d, Some (''failed to create build context tar: '' @ err))
      | (buf, None) \<Rightarrow>
          (case dImageBuild cli \<lparr>xEntries = buf, xTrailer = False\<rparr>
                  \<lparr>bTags = [imageTag], bDockerfile = dockerfilePath, bRemove = True\<rparr> d of
             (d, Some err) \<Rightarrow> (d, Some (''docker build failed: '' @ err))
           | (d, None) \<Rightarrow> (d, None)))"

section \<open>Building a submission\<close>

fun name_less :: "string \<Rightarrow> string \<Rightarrow> bool" where
  "name_less [] ys = (ys \<noteq> [])"
| "name_less (x # xs) [] = False"
| "name_less (x # xs) (y # ys) = (of_char x < (of_char y :: nat) \<or> x = y \<and> name_less xs ys)"

fun insert_entry :: "string \<Rightarrow> fnode \<Rightarrow> (string \<times> fnode) list \<Rightarrow> (string \<times> fnode) list" where
  "insert_entry name x [] = [(name, x)]"
| "insert_entry name x ((n, y) # es) = (if name_less n name then (n, y) # insert_entry name x es else (name, x) # (n, y) # es)"

text \<open>\<open>os.WriteFile\<close> in a directory; it writes through a link, and fails on a directory.\<close>

definition WriteFile :: "string \<Rightarrow> string \<Rightarrow> (string \<times> fnode) list \<Rightarrow> (string \<times> fnode) list option" where
  "WriteFile name data es = (case map_of es name of
     None \<Rightarrow> Some (insert_entry name (FFile data) es)
   | Some (FFile _) \<Rightarrow> Some (map (\<lambda>(n, y). (n, if n = name then FFile data else y)) es)
   | Some (FLink _) \<Rightarrow> Some (map (\<lambda>(n, y). (n, if n = name then FLink (Some data) else y)) es)
   | Some _ \<Rightarrow> None)"

definition Remove :: "string \<Rightarrow> (string \<times> fnode) list \<Rightarrow> (string \<times> fnode) list" where
  "Remove name es = filter (\<lambda>e. fst e \<noteq> name) es"

text \<open>
  \<open>BuildSubmission\<close> on the entries of \<open>srcDir\<close>; \<open>builderDockerfile\<close> is what reading the
  platform's own Dockerfile gives.  An error of the file system is the name of the failing call.
  The copy is removed when the function returns.
\<close>

definition BuildSubmission ::
  "(string \<Rightarrow> string option) \<Rightarrow> 'd builder \<Rightarrow> string + string \<Rightarrow> string \<Rightarrow> (string \<times> fnode) list \<Rightarrow> 'd \<Rightarrow>
   (string \<times> fnode) list \<times> 'd \<times> (string + string)" where
  "BuildSubmission WriteHeader executor builderDockerfile submissionID src d =
     (let imageTag = ''submission-'' @ submissionID @ '':latest'' in
      case builderDockerfile of
        Inl err \<Rightarrow> (src, d, Inl (''could not read builder Dockerfile: '' @ err))
      | Inr data \<Rightarrow>
          (case WriteFile ''Dockerfile'' data src of
             None \<Rightarrow> (src, d, Inl (''could not write Dockerfile to source dir: '' @ ''open''))
           | Some src \<Rightarrow>
               (case BuildImage WriteHeader executor (FDir src) ''Dockerfile'' imageTag d of
                  (d, Some err) \<Rightarrow> (Remove ''Dockerfile'' src, d, Inl (''build failed for submission '' @ submissionID @ '': '' @ err))
                | (d, None) \<Rightarrow> (Remove ''Dockerfile'' src, d, Inr imageTag))))"

section \<open>What the archive holds\<close>

text \<open>The entry at a path of a tree, and the name of a path in an archive.\<close>

fun file_at :: "fnode \<Rightarrow> string list \<Rightarrow> fnode option" where
  "file_at x [] = Some x"
| "file_at (FDir es) (n # p) = (case map_of es n of None \<Rightarrow> None | Some y \<Rightarrow> file_at y p)"
| "file_at _ (n # p) = None"

definition tar_name :: "string \<Rightarrow> string list \<Rightarrow> string" where
  "tar_name base p = base @ concat (map (\<lambda>n. CHR ''/'' # n) p)"

text \<open>File names are distinct in a directory and have no slash.\<close>

fun tree_ok :: "fnode \<Rightarrow> bool" where
  "tree_ok (FDir es) = (distinct (map fst es) \<and> (\<forall>e \<in> set es. CHR ''/'' \<notin> set (fst e) \<and> tree_ok (snd e)))"
| "tree_ok _ = True"

text \<open>All entries of a tree that are not directories it can list, with their paths.\<close>

fun leaves :: "fnode \<Rightarrow> (string list \<times> fnode) list" where
  "leaves (FDir es) = concat (map (\<lambda>e. map (\<lambda>l. (fst e # fst l, snd l)) (leaves (snd e))) es)"
| "leaves x = [([], x)]"

definition tar_leaf :: "string \<Rightarrow> string list \<times> fnode \<Rightarrow> tar_entry" where
  "tar_leaf base l = tar_file (tar_name base (fst l)) (the (ReadFile (snd l)))"

lemma tar_leaf_Cons: "tar_leaf base (n # p, x) = tar_leaf (base @ ''/'' @ n) (p, x)"
  by (simp add: tar_leaf_def tar_name_def)

lemma addDirToTar_leaves:
  "addDirToTar W base x tw = (tw', None) \<Longrightarrow> IsDir x \<Longrightarrow>
     tw' = tw @ map (tar_leaf base) (leaves x) \<and> (\<forall>l \<in> set (leaves x). ReadFile (snd l) \<noteq> None)"
  "tar_entries W base es tw = (tw', None) \<Longrightarrow>
     tw' = tw @ map (tar_leaf base) (leaves (FDir es)) \<and> (\<forall>l \<in> set (leaves (FDir es)). ReadFile (snd l) \<noteq> None)"
proof (induction W base x tw and W base es tw arbitrary: tw' and tw' rule: addDirToTar_tar_entries.induct)
  case (4 W base n x es tw)
  show ?case
  proof (cases "IsDir x")
    case True
    then obtain tw1 where t: "addDirToTar W (base @ ''/'' @ n) x tw = (tw1, None)" "tar_entries W base es tw1 = (tw', None)"
      using 4(4) by (auto simp: Let_def split: prod.splits option.splits)
    from 4(1) [OF refl True t(1) True] 4(2) [OF refl True t(1) [symmetric] refl t(2)] show ?thesis
      by (simp add: tar_leaf_Cons comp_def ball_Un)
  next
    case False
    then obtain data where d: "ReadFile x = Some data" "W (base @ ''/'' @ n) = None"
      "tar_entries W base es (tw @ [tar_file (base @ ''/'' @ n) data]) = (tw', None)"
      using 4(4) by (auto simp: Let_def split: option.splits)
    have "leaves x = [([], x)]" using False by (cases x) auto
    then show ?thesis using 4(3) [OF refl False d] d(1) by (simp add: tar_leaf_def tar_name_def)
  qed
qed auto

lemma tar_name_inj:
  assumes "\<forall>n \<in> set p. CHR ''/'' \<notin> set n" "\<forall>n \<in> set q. CHR ''/'' \<notin> set n" "tar_name base p = tar_name base q"
  shows "p = q"
  using assms
proof (induction p arbitrary: q)
  case Nil
  then show ?case by (cases q) (auto simp: tar_name_def)
next
  case (Cons n p)
  then obtain m q' where q: "q = m # q'" by (cases q) (auto simp: tar_name_def)
  let ?c = "\<lambda>p. concat (map (\<lambda>n. CHR ''/'' # n) p)"
  have e: "n @ ?c p = m @ ?c q'" using Cons.prems(3) q by (simp add: tar_name_def)
  have t: "takeWhile (\<lambda>c. c \<noteq> CHR ''/'') (n @ ?c p) = n" if "CHR ''/'' \<notin> set n" for n p
    using that by (cases p) (auto simp: takeWhile_append)
  have nm: "CHR ''/'' \<notin> set n" "CHR ''/'' \<notin> set m" using Cons.prems q by simp_all
  have "n = m" using t [OF nm(1), of p] t [OF nm(2), of q'] unfolding e by (rule trans [OF sym])
  moreover from this have "tar_name base p = tar_name base q'" using e by (simp add: tar_name_def)
  then have "p = q'" using Cons.IH [of q'] Cons.prems(1,2) q by simp
  ultimately show ?case using q by simp
qed

lemma leaves_file_at:
  "tree_ok x \<Longrightarrow> (p, y) \<in> set (leaves x) \<longleftrightarrow> file_at x p = Some y \<and> (\<forall>es. y \<noteq> FDir es)"
proof (induction x arbitrary: p rule: leaves.induct)
  case (1 es)
  show ?case
  proof (cases p)
    case (Cons n p')
    have "((n # p', y) \<in> set (leaves (FDir es))) = (\<exists>z. (n, z) \<in> set es \<and> (p', y) \<in> set (leaves z))" by force
    also have "\<dots> = (\<exists>z. map_of es n = Some z \<and> (p', y) \<in> set (leaves z))" using 1(2) by simp
    also have "\<dots> = (\<exists>z. map_of es n = Some z \<and> file_at z p' = Some y \<and> (\<forall>es. y \<noteq> FDir es))"
      using 1 map_of_SomeD [of es n] by fastforce
    finally show ?thesis using Cons by (auto split: option.split)
  qed auto
qed (case_tac [!] p; auto)+

lemma leaves_names: "tree_ok x \<Longrightarrow> l \<in> set (leaves x) \<Longrightarrow> \<forall>n \<in> set (fst l). CHR ''/'' \<notin> set n"
  by (induction x arbitrary: l rule: leaves.induct) fastforce+

lemma leaves_head: "l \<in> set (leaves (FDir es)) \<Longrightarrow> \<exists>n p. fst l = n # p \<and> n \<in> fst ` set es"
  by force

lemma leaves_distinct: "tree_ok x \<Longrightarrow> distinct (map fst (leaves x))"
proof (induction x rule: leaves.induct)
  case (1 es)
  then have "distinct (map fst es)" "\<And>e. e \<in> set es \<Longrightarrow> distinct (map fst (leaves (snd e)))" by auto
  then show ?case
  proof (induction es)
    case (Cons e es)
    have "distinct (map ((#) (fst e)) (map fst (leaves (snd e))))" using Cons.prems(2) [of e] by (intro distinct_map [THEN iffD2]) simp
    moreover have "map fst (leaves (FDir (e # es))) = map ((#) (fst e)) (map fst (leaves (snd e))) @ map fst (leaves (FDir es))" by simp
    moreover have "set (map ((#) (fst e)) (map fst (leaves (snd e)))) \<inter> set (map fst (leaves (FDir es))) = {}"
      using leaves_head [of _ es] Cons.prems(1) by fastforce
    moreover have "distinct (map fst (leaves (FDir es)))" using Cons by simp
    ultimately show ?case by (simp only: distinct_append)
  qed simp
qed simp_all

text \<open>The archive and the tree hold the same files.\<close>

lemma archive_files:
  assumes "tree_ok (FDir es)" "addDirToTar W base (FDir es) [] = (tw, None)"
  shows "distinct (map tName tw)"
    "t \<in> set tw \<longleftrightarrow> (\<exists>p x data. file_at (FDir es) p = Some x \<and> ReadFile x = Some data \<and> t = tar_file (tar_name base p) data)"
proof -
  have a: "tw = map (tar_leaf base) (leaves (FDir es))" "\<forall>l \<in> set (leaves (FDir es)). ReadFile (snd l) \<noteq> None"
    using addDirToTar_leaves(1) [OF assms(2)] by (simp_all del: leaves.simps)
  have "tName \<circ> tar_leaf base = tar_name base \<circ> fst" by (rule ext) (simp add: tar_leaf_def tar_file_def)
  then have "map tName tw = map (tar_name base) (map fst (leaves (FDir es)))" using a(1) by (simp del: leaves.simps)
  moreover have "inj_on (tar_name base) (set (map fst (leaves (FDir es))))"
    using leaves_names [OF assms(1)] tar_name_inj unfolding inj_on_def by (simp del: leaves.simps)
  ultimately show "distinct (map tName tw)" using leaves_distinct [OF assms(1)] by (simp add: distinct_map comp_inj_on del: leaves.simps)
  show "t \<in> set tw \<longleftrightarrow> (\<exists>p x data. file_at (FDir es) p = Some x \<and> ReadFile x = Some data \<and> t = tar_file (tar_name base p) data)"
  proof
    assume "t \<in> set tw"
    then obtain p x where l: "(p, x) \<in> set (leaves (FDir es))" "t = tar_leaf base (p, x)" using a(1) by (auto simp del: leaves.simps)
    then obtain data where "ReadFile x = Some data" using a(2) by fastforce
    then show "\<exists>p x data. file_at (FDir es) p = Some x \<and> ReadFile x = Some data \<and> t = tar_file (tar_name base p) data"
      using l leaves_file_at [OF assms(1)] by (auto simp: tar_leaf_def simp del: leaves.simps)
  next
    assume "\<exists>p x data. file_at (FDir es) p = Some x \<and> ReadFile x = Some data \<and> t = tar_file (tar_name base p) data"
    then obtain p x data where x: "file_at (FDir es) p = Some x" "ReadFile x = Some data" "t = tar_leaf base (p, x)"
      by (auto simp: tar_leaf_def)
    then have "(p, x) \<in> set (leaves (FDir es))" using leaves_file_at [OF assms(1), of p x] by auto
    then show "t \<in> set tw" using x(3) a(1) by (simp del: leaves.simps)
  qed
qed


lemma map_of_insert_entry: "name \<notin> fst ` set es \<Longrightarrow> map_of (insert_entry name x es) = (map_of es)(name \<mapsto> x)"
  by (induction name x es rule: insert_entry.induct) (auto simp: fun_eq_iff)

lemma set_insert_entry [simp]: "set (insert_entry name x es) = insert (name, x) (set es)"
  by (induction name x es rule: insert_entry.induct) auto

lemma distinct_insert_entry: "name \<notin> fst ` set es \<Longrightarrow> distinct (map fst es) \<Longrightarrow> distinct (map fst (insert_entry name x es))"
  by (induction name x es rule: insert_entry.induct) auto

lemma map_of_overwrite:
  "map_of (map (\<lambda>(n, y). (n, if n = name then x else y)) es) k = (if k = name then map_option (\<lambda>_. x) (map_of es k) else map_of es k)"
  by (induction es) auto

text \<open>A successful write puts readable contents under the name and leaves the rest of the directory alone.\<close>

lemma WriteFile_ok:
  assumes "tree_ok (FDir es)" "WriteFile name data es = Some es'" "CHR ''/'' \<notin> set name"
  shows "tree_ok (FDir es')" "\<exists>x. map_of es' = (map_of es)(name \<mapsto> x) \<and> ReadFile x = Some data"
    "map fst (Remove name es') = map fst (Remove name es) \<and> map_of (Remove name es') = (map_of es)(name := None)"
proof -
  let ?upd = "\<lambda>x. map (\<lambda>(n, y). (n, if n = name then x else y)) es"
  have fsts: "map fst (?upd x) = map fst es" for x by (induction es) auto
  have rm: "map fst (Remove name (?upd x)) = map fst (Remove name es)" for x by (induction es) (auto simp: Remove_def)
  have rmi: "map fst (Remove name (insert_entry name x es)) = map fst (Remove name es)" for x
    by (induction name x es rule: insert_entry.induct) (auto simp: Remove_def)
  have mrm: "map_of (Remove name l) = (map_of l)(name := None)" for l :: "(string \<times> fnode) list"
    by (induction l) (auto simp: Remove_def fun_eq_iff)
  consider "map_of es name = None" "es' = insert_entry name (FFile data) es"
    | x where "map_of es name \<noteq> None" "es' = ?upd x" "x = FFile data \<or> x = FLink (Some data)"
    using assms(2) unfolding WriteFile_def by (auto split: option.splits fnode.splits)
  then have "tree_ok (FDir es') \<and> (\<exists>x. map_of es' = (map_of es)(name \<mapsto> x) \<and> ReadFile x = Some data) \<and>
      map fst (Remove name es') = map fst (Remove name es)"
  proof cases
    case 1
    then have "name \<notin> fst ` set es" by (simp add: map_of_eq_None_iff)
    then show ?thesis using 1 assms rmi by (auto simp: map_of_insert_entry distinct_insert_entry)
  next
    case (2 x)
    have "map_of es' = (map_of es)(name \<mapsto> x)" using 2(1,2) by (auto simp: map_of_overwrite fun_eq_iff)
    moreover have "tree_ok (FDir es')" using assms(1) 2(2,3) fsts [of x] by (auto simp del: map_map)
    ultimately show ?thesis using 2(2,3) rm by auto
  qed
  then have t: "tree_ok (FDir es')" and x: "\<exists>x. map_of es' = (map_of es)(name \<mapsto> x) \<and> ReadFile x = Some data"
    and r: "map fst (Remove name es') = map fst (Remove name es)" by (simp_all del: tree_ok.simps)
  then obtain x where "map_of es' = (map_of es)(name \<mapsto> x)" by blast
  then show "map fst (Remove name es') = map fst (Remove name es) \<and> map_of (Remove name es') = (map_of es)(name := None)"
    using r by (simp add: mrm)
  show "tree_ok (FDir es')" by (rule t)
  show "\<exists>x. map_of es' = (map_of es)(name \<mapsto> x) \<and> ReadFile x = Some data" by (rule x)
qed

section \<open>The daemon\<close>

record sandbox_container =
  scConfig :: container_config
  scHost :: host_config
  scRunning :: bool

text \<open>
  What the client's calls do to the containers \<open>cs d\<close> of the daemon: a call that reports an
  error leaves them alone, a new container has a fresh identifier of at least twelve characters
  and is not running, and a forced removal removes it, running or not.
\<close>

definition docker_ok :: "'d docker \<Rightarrow> ('d \<Rightarrow> string \<rightharpoonup> sandbox_container) \<Rightarrow> bool" where
  "docker_ok cli cs \<longleftrightarrow>
     (\<forall>c h d d' err. dContainerCreate cli c h d = (d', Inl err) \<longrightarrow> cs d' = cs d) \<and>
     (\<forall>c h d d' i. dContainerCreate cli c h d = (d', Inr i) \<longrightarrow> 12 \<le> length i \<and> cs d i = None \<and>
        cs d' = (cs d)(i \<mapsto> \<lparr>scConfig = c, scHost = h, scRunning = False\<rparr>)) \<and>
     (\<forall>i d d'. dContainerStart cli i d = (d', None) \<longrightarrow> (\<exists>x. cs d i = Some x \<and> cs d' = (cs d)(i \<mapsto> x\<lparr>scRunning := True\<rparr>))) \<and>
     (\<forall>i d d' err. dContainerStart cli i d = (d', Some err) \<longrightarrow> cs d' = cs d) \<and>
     (\<forall>i t d d' err. dContainerStop cli i t d = (d', err) \<longrightarrow> cs d' = cs d \<or> (\<exists>x. cs d i = Some x \<and> cs d' = (cs d)(i \<mapsto> x\<lparr>scRunning := False\<rparr>))) \<and>
     (\<forall>i d d'. dContainerRemove cli i True d = (d', None) \<longrightarrow> cs d' = (cs d)(i := None)) \<and>
     (\<forall>i d d' err. dContainerRemove cli i True d = (d', Some err) \<longrightarrow> cs d' = cs d)"

lemma docker_okD:
  assumes "docker_ok cli cs"
  shows "dContainerCreate cli c h d = (d', Inl err) \<Longrightarrow> cs d' = cs d"
    and "dContainerCreate cli c h d = (d', Inr i) \<Longrightarrow> 12 \<le> length i \<and> cs d i = None \<and>
        cs d' = (cs d)(i \<mapsto> \<lparr>scConfig = c, scHost = h, scRunning = False\<rparr>)"
    and "dContainerStart cli i d = (d', None) \<Longrightarrow> \<exists>x. cs d i = Some x \<and> cs d' = (cs d)(i \<mapsto> x\<lparr>scRunning := True\<rparr>)"
    and "dContainerStart cli i d = (d', Some err) \<Longrightarrow> cs d' = cs d"
    and "dContainerStop cli i t d = (d', res) \<Longrightarrow> (cs d')(i := None) = (cs d)(i := None)"
    and "dContainerRemove cli i True d = (d', None) \<Longrightarrow> cs d' = (cs d)(i := None)"
proof -
  note ok = assms [unfolded docker_ok_def]
  show "dContainerCreate cli c h d = (d', Inl err) \<Longrightarrow> cs d' = cs d" using ok [THEN conjunct1] by blast
  show "dContainerCreate cli c h d = (d', Inr i) \<Longrightarrow> 12 \<le> length i \<and> cs d i = None \<and>
        cs d' = (cs d)(i \<mapsto> \<lparr>scConfig = c, scHost = h, scRunning = False\<rparr>)" using ok [THEN conjunct2, THEN conjunct1] by blast
  show "dContainerStart cli i d = (d', None) \<Longrightarrow> \<exists>x. cs d i = Some x \<and> cs d' = (cs d)(i \<mapsto> x\<lparr>scRunning := True\<rparr>)" using ok [THEN conjunct2, THEN conjunct2, THEN conjunct1] by blast
  show "dContainerStart cli i d = (d', Some err) \<Longrightarrow> cs d' = cs d" using ok [THEN conjunct2, THEN conjunct2, THEN conjunct2, THEN conjunct1] by blast
  show "(cs d')(i := None) = (cs d)(i := None)" if s: "dContainerStop cli i t d = (d', res)"
  proof -
    have "cs d' = cs d \<or> (\<exists>x. cs d i = Some x \<and> cs d' = (cs d)(i \<mapsto> x\<lparr>scRunning := False\<rparr>))" using ok [THEN conjunct2, THEN conjunct2, THEN conjunct2, THEN conjunct2, THEN conjunct1] s by blast
    then show ?thesis by auto
  qed
  show "dContainerRemove cli i True d = (d', None) \<Longrightarrow> cs d' = (cs d)(i := None)" using ok [THEN conjunct2, THEN conjunct2, THEN conjunct2, THEN conjunct2, THEN conjunct2, THEN conjunct1] by blast
qed

lemma StopAndRemove_removes:
  assumes "docker_ok cli cs" "StopAndRemove cli i d = Some (d', None)"
  shows "cs d' = (cs d)(i := None)"
proof -
  obtain d1 r where s: "dContainerStop cli i 5 d = (d1, r)" by fastforce
  then have "dContainerRemove cli i True d1 = (d', None)" using assms(2) by (auto simp: StopAndRemove_def split: if_splits)
  then show ?thesis using docker_okD(5) [OF assms(1) s] docker_okD(6) [OF assms(1)] by simp
qed

section \<open>An example daemon\<close>

type_synonym ex_daemon = "nat \<times> (string \<rightharpoonup> sandbox_container)"

definition ex_cs :: "ex_daemon \<Rightarrow> string \<rightharpoonup> sandbox_container" where
  "ex_cs d i = (if length i < 12 + fst d then snd d i else None)"

definition ex_set_running :: "bool \<Rightarrow> string \<Rightarrow> ex_daemon \<Rightarrow> ex_daemon \<times> string option" where
  "ex_set_running r i d = (case ex_cs d i of None \<Rightarrow> (d, Some ''No such container'') | Some x \<Rightarrow> ((fst d, (ex_cs d)(i \<mapsto> x\<lparr>scRunning := r\<rparr>)), None))"

definition ex_cli :: "ex_daemon docker" where
  "ex_cli = \<lparr>dContainerCreate = (\<lambda>c h d. let i = replicate (12 + fst d) CHR ''a'' in
       ((fst d + 1, (ex_cs d)(i \<mapsto> \<lparr>scConfig = c, scHost = h, scRunning = False\<rparr>)), Inr i)),
     dContainerStart = ex_set_running True, dContainerStop = (\<lambda>i t. ex_set_running False i),
     dContainerRemove = (\<lambda>i force d. ((fst d, (ex_cs d)(i := None)), None)),
     dContainerLogs = (\<lambda>i o1 o2 d. Inr []), dImageBuild = (\<lambda>ctx opts d. (d, None))\<rparr>"

lemma ex_set_running_cs: "ex_set_running r i d = (d', res) \<Longrightarrow> (res \<noteq> None \<and> ex_cs d' = ex_cs d) \<or>
    (res = None \<and> (\<exists>x. ex_cs d i = Some x \<and> ex_cs d' = (ex_cs d)(i \<mapsto> x\<lparr>scRunning := r\<rparr>)))"
  by (auto simp: ex_set_running_def ex_cs_def fun_eq_iff split: option.splits if_splits)

lemma ex_cli_ok: "docker_ok ex_cli ex_cs"
proof -
  have f: "ex_cs (fst d + 1, (ex_cs d)(replicate (12 + fst d) CHR ''a'' \<mapsto> x)) = (ex_cs d)(replicate (12 + fst d) CHR ''a'' \<mapsto> x)"
    "ex_cs d (replicate (12 + fst d) CHR ''a'') = None" "ex_cs (fst d, (ex_cs d)(i := None)) = (ex_cs d)(i := None)" for d x i
    by (auto simp: ex_cs_def fun_eq_iff)
  show ?thesis unfolding docker_ok_def
  proof (intro conjI allI impI)
    fix c h d d' i assume "dContainerCreate ex_cli c h d = (d', Inr i)"
    then have i: "i = replicate (12 + fst d) CHR ''a''" "d' = (fst d + 1, (ex_cs d)(i \<mapsto> \<lparr>scConfig = c, scHost = h, scRunning = False\<rparr>))"
      by (auto simp: ex_cli_def Let_def)
    show "12 \<le> length i" by (simp add: i(1))
    show "ex_cs d i = None" unfolding i(1) by (rule f(2))
    show "ex_cs d' = (ex_cs d)(i \<mapsto> \<lparr>scConfig = c, scHost = h, scRunning = False\<rparr>)" unfolding i by (rule f(1))
  next
    fix i d d' assume "dContainerStart ex_cli i d = (d', None)"
    then have "ex_set_running True i d = (d', None)" by (simp add: ex_cli_def)
    from ex_set_running_cs [OF this] show "\<exists>x. ex_cs d i = Some x \<and> ex_cs d' = (ex_cs d)(i \<mapsto> x\<lparr>scRunning := True\<rparr>)" by simp
  next
    fix i d d' err assume "dContainerStart ex_cli i d = (d', Some err)"
    then have "ex_set_running True i d = (d', Some err)" by (simp add: ex_cli_def)
    from ex_set_running_cs [OF this] show "ex_cs d' = ex_cs d" by simp
  next
    fix i t d d' res assume "dContainerStop ex_cli i t d = (d', res)"
    then have "ex_set_running False i d = (d', res)" by (simp add: ex_cli_def)
    from ex_set_running_cs [OF this] show "ex_cs d' = ex_cs d \<or> (\<exists>x. ex_cs d i = Some x \<and> ex_cs d' = (ex_cs d)(i \<mapsto> x\<lparr>scRunning := False\<rparr>))" by blast
  next
    fix i d d' assume "dContainerRemove ex_cli i True d = (d', None)"
    then have "d' = (fst d, (ex_cs d)(i := None))" by (simp add: ex_cli_def)
    then show "ex_cs d' = (ex_cs d)(i := None)" using f(3) by simp
  qed (simp_all add: ex_cli_def Let_def)
qed

section \<open>Properties\<close>

text \<open>
  C36. Every container a sandbox run creates is locked down: \<open>RunSandbox\<close> never panics, on success
  exactly one new container runs, from the given image, with no network, a read-only root, 512 MiB,
  one CPU, no privilege escalation and all capabilities dropped, and no other container changes;
  on failure nothing has changed, or the created container is left behind, equally locked down
  and not running.  A successful \<open>StopAndRemove\<close> of that container restores the daemon.
\<close>

theorem sandbox_locked_down:
  assumes "docker_ok cli cs"
  shows "\<exists>d' res. RunSandbox cli imageName port d = Some (d', res) \<and>
     (cs d' = cs d \<and> isl res \<or>
      (\<exists>i x. cs d i = None \<and> cs d' = (cs d)(i \<mapsto> x) \<and> cImage (scConfig x) = imageName \<and> (res = Inr i \<and> scRunning x \<or> isl res \<and> \<not> scRunning x) \<and>
         hNetworkMode (scHost x) = ''none'' \<and> hReadonlyRootfs (scHost x) \<and> hMemory (scHost x) = 2 ^ 29 \<and> hNanoCPUs (scHost x) = 10 ^ 9 \<and>
         hSecurityOpt (scHost x) = [''no-new-privileges:true''] \<and> hCapDrop (scHost x) = [''ALL''] \<and>
         (\<forall>d''. StopAndRemove cli i d' = Some (d'', None) \<longrightarrow> cs d'' = cs d)))"
proof -
  let ?c = "\<lparr>cImage = imageName, cEnv = [''PORT='' @ port]\<rparr>" and ?x = "\<lambda>r. \<lparr>scConfig = \<lparr>cImage = imageName, cEnv = [''PORT='' @ port]\<rparr>, scHost = sandbox_host, scRunning = r\<rparr>"
  note ok = docker_okD [OF assms]
  obtain d1 r1 where c: "dContainerCreate cli ?c sandbox_host d = (d1, r1)" by fastforce
  show ?thesis
  proof (cases r1)
    case (Inl err)
    then show ?thesis using c ok(1) [OF c [unfolded Inl]] by (simp add: RunSandbox_def)
  next
    case (Inr i)
    note i = ok(2) [OF c [unfolded Inr]]
    obtain d2 r2 where s: "dContainerStart cli i d1 = (d2, r2)" by fastforce
    define R :: "string + string" where "R = (case r2 of None \<Rightarrow> Inr i | Some err \<Rightarrow> Inl (''failed to start container: '' @ err))"
    have cs2: "cs d2 = (cs d)(i \<mapsto> ?x (r2 = None))"
      using i ok(3) [of i d1 d2] ok(4) [of i d1 d2] s by (cases r2) auto
    have "cs d'' = cs d" if "StopAndRemove cli i d2 = Some (d'', None)" for d''
      using StopAndRemove_removes [OF assms that] cs2 i by (simp add: fun_eq_iff)
    then have "\<exists>i x. cs d i = None \<and> cs d2 = (cs d)(i \<mapsto> x) \<and> cImage (scConfig x) = imageName \<and> (R = Inr i \<and> scRunning x \<or> isl R \<and> \<not> scRunning x) \<and>
         hNetworkMode (scHost x) = ''none'' \<and> hReadonlyRootfs (scHost x) \<and> hMemory (scHost x) = 2 ^ 29 \<and> hNanoCPUs (scHost x) = 10 ^ 9 \<and>
         hSecurityOpt (scHost x) = [''no-new-privileges:true''] \<and> hCapDrop (scHost x) = [''ALL''] \<and>
         (\<forall>d''. StopAndRemove cli i d2 = Some (d'', None) \<longrightarrow> cs d'' = cs d)"
      using cs2 i by (intro exI [of _ i] exI [of _ "?x (r2 = None)"]) (auto simp: sandbox_host_def R_def split: option.split)
    moreover have "RunSandbox cli imageName port d = Some (d2, R)" using c s i Inr by (simp add: RunSandbox_def R_def split: option.split)
    ultimately show ?thesis by (intro exI [of _ d2] exI [of _ R] conjI disjI2)
  qed
qed

theorem sandbox_locked_down_witness:
  "\<exists>d' i x. RunSandbox ex_cli ''engine:latest'' ''8080'' (0, Map.empty) = Some (d', Inr i) \<and>
     ex_cs d' = [i \<mapsto> x] \<and> scRunning x \<and> hNetworkMode (scHost x) = ''none'' \<and> hCapDrop (scHost x) = [''ALL'']"
proof -
  have "\<exists>d' i. RunSandbox ex_cli ''engine:latest'' ''8080'' (0, Map.empty) = Some (d', Inr i)"
    by (simp add: RunSandbox_def ex_cli_def ex_set_running_def ex_cs_def Let_def)
  then obtain d' i where r: "RunSandbox ex_cli ''engine:latest'' ''8080'' (0, Map.empty) = Some (d', Inr i)" by blast
  have "ex_cs (0, Map.empty) = Map.empty" by (simp add: ex_cs_def fun_eq_iff)
  with sandbox_locked_down [OF ex_cli_ok, of "''engine:latest''" "''8080''" "(0, Map.empty)"] r show ?thesis by auto
qed



end
