(* ===== verification/Load_Report.thy ===== *)
theory Load_Report
  imports Loadgen Go_Format
begin

text \<open>
  What \<open>Orchestrator.Run\<close> prints (\<open>pkg/loadgen/orchestrator.go\<close>): the line at the start and the
  report at the end, with the texts of numbers and durations from \<open>Go_Format\<close>.
\<close>

definition start_line :: "orchestrator \<Rightarrow> string" where
  "start_line orc = ''Starting Load Generator. Target: '' @ Endpoint orc @ '', TPS: '' @ dec_int (TotalTPS orc) @
     '', Bots: '' @ dec_int (NumBots orc) @ '', Duration: '' @ Duration_String (Duration orc)"

definition report_lines :: "orchestrator \<Rightarrow> run_stats \<Rightarrow> string list" where
  "report_lines orc st = [''--- Load Test Completed ---'', ''Total Requests: '' @ dec (totalRequests st), ''Successful: '' @ dec (successCount st)] @
     (case average_latency st of
        None \<Rightarrow> []
      | Some avg \<Rightarrow> [''Average Latency: '' @ Duration_String avg,
          ''Actual TPS: '' @ FormatFloat2 (fdiv (f64_of_int (int (totalRequests st))) (Seconds (Duration orc)))])"

text \<open>
  With no requests the report has no rates; with a timeout of zero the rate is infinite; and for a
  timeout of whole seconds the rate printed is the quotient, rounded once to a floating-point
  number and once to hundredths.
\<close>

lemma small_dec: "dec 0 = ''0''" "dec 1 = ''1''" "dec 10 = ''10''" "dec 250 = ''250''"
  by code_simp+

lemma report_no_requests:
  "totalRequests st = 0 \<Longrightarrow> report_lines orc st =
     [''--- Load Test Completed ---'', ''Total Requests: 0'', ''Successful: '' @ dec (successCount st)]"
  by (simp add: report_lines_def average_latency_def small_dec)

lemma report_no_time:
  assumes "0 < totalRequests st" "totalRequests st < 2 ^ 53" "Duration orc = 0"
  shows "last (report_lines orc st) = ''Actual TPS: +Inf''"
proof -
  have z: "Seconds 0 = Fin False 0" by (simp add: Seconds_def f64_of_int_def f64_of_def rnd64_def fval_def)
  have "f64_of_int (int (totalRequests st)) = Fin False (of_int (int (totalRequests st)))"
    using f64_of_int_exact [of "int (totalRequests st)"] assms(2) by simp
  then show ?thesis using assms by (simp add: report_lines_def average_latency_def z)
qed

lemma report_rate:
  assumes "0 < totalRequests st" "totalRequests st < 2 ^ 53" "Duration orc = k * nano" "0 < k" "k < 2 ^ 53"
  shows "last (report_lines orc st) = ''Actual TPS: '' @ FormatFloat2 (f64_of False (of_nat (totalRequests st) / of_int k))"
proof -
  have "f64_of_int (int (totalRequests st)) = Fin False (of_nat (totalRequests st))"
    using f64_of_int_exact [of "int (totalRequests st)"] assms(2) by simp
  then show ?thesis using assms Seconds_whole [OF assms(4,5)] by (simp add: report_lines_def average_latency_def)
qed

lemma ex_start_line:
  "start_line ex_orc = ''Starting Load Generator. Target: http://localhost:8080, TPS: 1, Bots: 1, Duration: 10s''"
proof -
  have "Duration_String (10 ^ 10) = ''10s''"
    by (simp add: Duration_String_def small_dec fmtFrac_whole Let_def)
  then show ?thesis using small_dec(2) by (simp add: start_line_def ex_orc_def dec_int_def)
qed

lemma ex_report_lines: "take 4 (report_lines ex_orc ex_st) =
  [''--- Load Test Completed ---'', ''Total Requests: 1'', ''Successful: 1'', ''Average Latency: 250ns'']"
proof -
  have "average_latency ex_st = Some 250"
    by (simp add: average_latency_def collect_def ex_metric_def zero_stats_def signed_divide_int_def)
  moreover have "Duration_String 250 = ''250ns''" by (simp add: Duration_String_def small_dec)
  moreover have "totalRequests ex_st = 1" "successCount ex_st = 1" by (simp_all add: collect_def ex_metric_def zero_stats_def)
  ultimately show ?thesis using small_dec(2) by (simp add: report_lines_def)
qed

end
