(* ===== verification/Deploy_Config.thy ===== *)
theory Deploy_Config
  imports Services Controller Load_Report
begin

text \<open>
  The configuration that runs the programs: the name templates, deployments and network policy of
  the Helm chart (\<open>deploy/helm/matching-platform\<close>), the ports of the local stack
  (\<open>deployments/docker-compose.yml\<close>, \<open>prometheus.yml\<close>, \<open>scripts/run_local_demo.ps1\<close>) and the
  queries of the Grafana dashboard, next to the flags, metrics and objects of the programs.
\<close>

section \<open>Names of the chart\<close>

text \<open>The template functions \<open>trunc\<close>, \<open>trimSuffix\<close>, \<open>contains\<close> and \<open>default\<close>.\<close>

definition trunc :: "nat \<Rightarrow> string \<Rightarrow> string" where
  "trunc n s = take n s"

definition trimSuffix :: "string \<Rightarrow> string \<Rightarrow> string" where
  "trimSuffix suf s = (if suffix suf s then take (length s - length suf) s else s)"

definition tpl_contains :: "string \<Rightarrow> string \<Rightarrow> bool" where
  "tpl_contains sub s \<longleftrightarrow> sublist sub s"

definition tpl_default :: "string \<Rightarrow> string \<Rightarrow> string" where
  "tpl_default d v = (if v = '''' then d else v)"

record chart_values =
  nameOverride :: string
  fullnameOverride :: string

definition chart_Name :: string where "chart_Name = ''matching-platform''"

definition dns_trim :: "string \<Rightarrow> string" where
  "dns_trim s = trimSuffix ''-'' (trunc 63 s)"

definition chart_name :: "chart_values \<Rightarrow> string" where
  "chart_name v = dns_trim (tpl_default chart_Name (nameOverride v))"

definition fullname :: "chart_values \<Rightarrow> string \<Rightarrow> string" where
  "fullname v release =
     (if fullnameOverride v \<noteq> '''' then dns_trim (fullnameOverride v)
      else let name = tpl_default chart_Name (nameOverride v) in
        if tpl_contains name release then dns_trim release
        else dns_trim (release @ ''-'' @ name))"

definition chart_label :: "string \<Rightarrow> string" where
  "chart_label version = dns_trim (map (\<lambda>c. if c = CHR ''+'' then CHR ''_'' else c) (chart_Name @ ''-'' @ version))"

definition submission_name :: "chart_values \<Rightarrow> string \<Rightarrow> string" where
  "submission_name v release = fullname v release @ ''-submission''"

definition load_generator_name :: "chart_values \<Rightarrow> string \<Rightarrow> string" where
  "load_generator_name v release = fullname v release @ ''-load-generator''"

definition default_values :: chart_values where
  "default_values = \<lparr>nameOverride = '''', fullnameOverride = ''''\<rparr>"

lemma dns_trim_length: "length (dns_trim s) \<le> 63"
  by (auto simp: dns_trim_def trimSuffix_def trunc_def intro: diff_le_self le_trans)

lemma dns_trim_long: "63 < length s \<Longrightarrow> 62 \<le> length (dns_trim s)"
  by (simp add: dns_trim_def trimSuffix_def trunc_def)

lemma dns_trim_short: "length s \<le> 63 \<Longrightarrow> \<not> suffix ''-'' s \<Longrightarrow> dns_trim s = s"
  by (simp add: dns_trim_def trimSuffix_def trunc_def)

text \<open>The templates bound the names they make, as their comment says.\<close>

lemma fullname_bound: "length (fullname v release) \<le> 63" "length (chart_name v) \<le> 63" "length (chart_label version) \<le> 63"
  by (simp_all add: fullname_def chart_name_def chart_label_def Let_def dns_trim_length)

text \<open>
  The name of the submission service is longer than the bound: with the default values and a
  release that does not repeat the chart's name, it is a DNS label only up to 34 characters.
\<close>

lemma submission_name_label:
  assumes "\<not> tpl_contains chart_Name release"
  shows "length (submission_name default_values release) \<le> 63 \<longleftrightarrow> length release \<le> 34"
proof -
  let ?s = "release @ ''-'' @ chart_Name"
  have l: "length ?s = length release + 18" by (simp add: chart_Name_def)
  have f: "fullname default_values release = dns_trim ?s"
    using assms by (simp add: fullname_def default_values_def tpl_default_def Let_def)
  have e: "\<not> suffix ''-'' ?s" by (simp add: chart_Name_def suffix_def)
  show ?thesis
  proof (cases "length ?s \<le> 63")
    case True
    then have "length (submission_name default_values release) = length release + 29"
      using dns_trim_short [OF True e] f l by (simp add: submission_name_def)
    then show ?thesis by auto
  next
    case False
    then show ?thesis using dns_trim_long [of ?s] f l by (simp add: submission_name_def)
  qed
qed

section \<open>Arguments and ports\<close>

definition helm_load_generator_args :: "string list" where
  "helm_load_generator_args = [''-endpoint'', ''http://contestant-runner.run-namespace.svc.cluster.local:8080'',
     ''-tps'', ''1000'', ''-duration'', ''60s'', ''-bots'', ''5'']"

definition demo_load_generator_args :: "string list" where
  "demo_load_generator_args = [''-endpoint'', ''http://localhost:8080'', ''-tps'', ''1500'', ''-duration'', ''15s'', ''-bots'', ''5'']"

definition demo_leaderboard_args :: "string list" where "demo_leaderboard_args = [''--port'', ''8282'']"

definition demo_engine_args :: "string list" where "demo_engine_args = [''--port'', ''8080'']"

text \<open>The values that the load generator takes from four arguments, if the numbers parse.\<close>

lemma load_args_parsed:
  assumes "PI t = Some n" "PI b = Some m" "PD d = Some ns"
  shows "load_generator_flags PI PD [''-endpoint'', e, ''-tps'', t, ''-duration'', d, ''-bots'', b] =
    Inr \<lparr>lfEndpoint = e, lfTPS = n, lfDuration = ns, lfBots = m, lfTelemetryPort = '':2113''\<rparr>"
proof -
  let ?f = "load_formal PI PD"
  have "flag_name_ok ''endpoint''" "flag_name_ok ''tps''" "flag_name_ok ''duration''" "flag_name_ok ''bots''"
    by (simp_all add: flag_name_ok_def hd_opt_def)
  note p = parse_flag_arg(2) [OF this(1), of ?f "\<lambda>_. True" e] parse_flag_arg(2) [OF this(2), of ?f "\<lambda>v. PI v \<noteq> None" t]
    parse_flag_arg(2) [OF this(3), of ?f "\<lambda>v. PD v \<noteq> None" d] parse_flag_arg(2) [OF this(4), of ?f "\<lambda>v. PI v \<noteq> None" b]
  have "parse_flags ?f [''-endpoint'', e, ''-tps'', t, ''-duration'', d, ''-bots'', b] Map.empty =
      Inr ([''endpoint'' \<mapsto> e, ''tps'' \<mapsto> t, ''duration'' \<mapsto> d, ''bots'' \<mapsto> b], [])"
    using p assms by (simp add: load_formal_def)
  then show ?thesis using assms by (simp add: load_generator_flags_def flag_value_def)
qed

text \<open>Ports that the containers of the local stack publish, and those that Prometheus visits.\<close>

definition compose_ports :: "(string \<times> string) list" where
  "compose_ports = [(''prometheus'', ''9090''), (''grafana'', ''3000''), (''timescaledb'', ''5432''), (''redis'', ''6379''),
     (''redpanda'', ''9092''), (''redpanda'', ''9644'')]"

definition scrape_ports :: "(string \<times> string) list" where
  "scrape_ports = [(''matching-engine'', ''2112''), (''load-generator'', ''2113'')]"

definition helm_submission_port :: string where "helm_submission_port = ''8181''"

lemma demo_flags:
  "\<exists>eng. matching_engine_flags demo_engine_args = Inr eng \<and> eng ''port'' = ''8080'' \<and> eng ''telemetry-port'' = '':2112''"
  "\<exists>lb. leaderboard_service_flags demo_leaderboard_args = Inr lb \<and> lb ''port'' = ''8282'' \<and> lb ''redis-addr'' = ''localhost:6379''"
  "\<exists>sub. submission_service_flags [] = Inr sub \<and> sub ''port'' = ''9090''"
  by (simp_all add: matching_engine_flags_def leaderboard_service_flags_def submission_service_flags_def string_flags_def
      demo_engine_args_def demo_leaderboard_args_def parse_flags.simps hd_opt_def Let_def)

text \<open>
  The deployment of the submission service passes its port in the environment, which the program
  does not read: it listens on its default port, which is not the one of the container, and which
  on one machine is the one that the container of Prometheus publishes.
\<close>

lemma submission_port_unused:
  assumes "submission_service_flags [] = Inr sub"
  shows "sub ''port'' \<noteq> helm_submission_port" "(''prometheus'', sub ''port'') \<in> set compose_ports"
  using demo_flags(3) assms by (simp_all add: helm_submission_port_def compose_ports_def)

section \<open>Dashboards and metrics\<close>

text \<open>The series that the queries of the Grafana dashboard name.\<close>

definition dashboard_series :: "string list" where
  "dashboard_series = [''trading_orders_processed_total'', ''trading_matching_duration_seconds_bucket'',
     ''trading_loadgen_requests_total'', ''trading_loadgen_latency_seconds_bucket'']"

text \<open>The series of a collector: the counter itself, or the buckets, sum and count of a histogram.\<close>

fun series_of :: "string \<times> collector \<Rightarrow> string list" where
  "series_of (n, CounterVec labels) = [n]"
| "series_of (n, Histogram) = [n @ ''_bucket'', n @ ''_sum'', n @ ''_count'']"

lemma dashboard_series_registered:
  "\<exists>reg. exporter_init [] = Some reg \<and> set dashboard_series \<subseteq> \<Union> (set ` series_of ` set reg)"
  unfolding exporter_init_eq
  by (simp add: the_registry_def dashboard_series_def OrdersProcessed_def MatchingDuration_def LoadGenRequests_def LoadGenLatency_def)

section \<open>The network policy of the chart\<close>

datatype peers = Anyone | PodsWith labels | AnyNamespacePods labels

record chart_policy =
  cpNamespace :: string
  cpSelector :: labels
  cpTypes :: "string list"
  cpIngress :: "(peers \<times> int list) list"
  cpEgress :: "(peers \<times> int list) list"

definition contestant_isolation :: "string \<Rightarrow> chart_policy" where
  "contestant_isolation releaseNamespace = \<lparr>cpNamespace = releaseNamespace, cpSelector = [(''role'', ''contestant'')],
     cpTypes = [''Ingress'', ''Egress''],
     cpIngress = [(PodsWith [(''role'', ''load-generator'')], [8080]), (AnyNamespacePods [(''app'', ''prometheus'')], [2112])],
     cpEgress = []\<rparr>"

text \<open>A policy concerns the pods of its own namespace.\<close>

fun policy_selects :: "chart_policy \<Rightarrow> kobject \<Rightarrow> bool" where
  "policy_selects p (Pod n ns ls cs) \<longleftrightarrow> ns = cpNamespace p \<and> set (cpSelector p) \<subseteq> set ls"
| "policy_selects p _ \<longleftrightarrow> False"

lemma chart_policy_selects:
  "policy_selects (contestant_isolation rel) (pod_object sid cid img) \<longleftrightarrow> rel = runNamespace sid"
  by (auto simp: contestant_isolation_def pod_object_def)

section \<open>Property\<close>


definition ex_ParseDuration :: "string \<Rightarrow> int option" where
  "ex_ParseDuration s = map_of [(''60s'', 60 * nano), (''15s'', 15 * nano)] s"


end
