(* ===== verification/Spec2Isabelle.thy ===== *)
theory Spec2Isabelle
  imports OrderBook_Props Fix_Server Controller_System Web_Dashboard Load_System Telemetry_Order Latency_Probe
    Deploy_Crd Deploy_Config
begin

text \<open>
  A verification development of the distributed trading benchmark platform.  Contestants submit a
  matching engine, the platform builds it and runs it in a sandbox, a load generator trades
  against it, and the measurements become a live leaderboard.  The theories follow the packages
  of the Go sources; every definition that translates code keeps the name of the function or type
  where Isabelle allows it.  \<open>Platform_Prelude\<close> holds the shared types and lemmas.

  \<^bold>\<open>The order book\<close> (\<open>pkg/orderbook\<close>).  \<open>Limit_Queue\<close>: orders and price levels (\<open>order.go\<close>,
  \<open>limit.go\<close>) as records on an explicit heap, pointers as optional addresses, quantities and
  prices as 64-bit words.  \<open>Go_Search\<close>: \<open>sort.Search\<close> and slice operations.  \<open>OrderBook\<close>:
  \<open>Process\<close>, \<open>matchOrder\<close>, \<open>Cancel\<close>, \<open>GetDepth\<close> (\<open>orderbook.go\<close>); its loops are
  \<^theory_text>\<open>partial_function (option)\<close>, so that a loop that does not end and a panic are both \<open>None\<close>.
  \<open>Price_Time_Spec\<close>: the abstract specification, price-time priority on lists of levels, with the
  locale \<open>price_priority\<close> for the two sides of the book.  \<open>OrderBook_Match\<close>, \<open>OrderBook_Sweep\<close>,
  \<open>OrderBook_Levels\<close>, \<open>OrderBook_Correct\<close> and \<open>OrderBook_Reach\<close> prove the refinement from the
  inner loop outwards and the invariant of all reachable books; \<open>OrderBook_Priority\<close> and
  \<open>OrderBook_Examples\<close> hold lemmas on the specification and example books.  \<open>OrderBook_Props\<close>
  states the results: \<open>Process\<close> and \<open>Cancel\<close> always return, refine the specification, serve in
  price-time order, conserve quantity and respect limits, and what happens for unknown sides,
  repeated identifiers and overflowing volumes.  The one bound is that the volume of a level fits
  64 bits; that it is needed is a theorem.

  \<^bold>\<open>The API server\<close> (\<open>pkg/api\<close>).  \<open>Api_Hub\<close>: the WebSocket hub and its pumps (\<open>hub.go\<close>).
  \<open>Api_Engine\<close>: the locale \<open>engine\<close>, the contract the server relies on, interpreted by the order
  book.  \<open>Api_Server\<close>: matching loop, handlers, routes and depth cache (\<open>server.go\<close>) as an
  interleaving of atomic steps over channels of the source's capacities (100000 requests, 256
  messages per client, depth 50).  Its runs (\<open>server_reachable\<close>) assume of every new request that
  the quantities in the book and the channel still fit 64 bits (\<open>step_room\<close>), the bound of the order
  book.  \<open>Api_Server_Props\<close>: every request is answered, once and by the
  book's own result; the cached depth is exact between changes.  \<open>Api_Liveness\<close>: no reachable
  state blocks a pending request for good; from each of them some schedule answers it within
  3 * n + 9 steps, n the length of the input channel, provided that the quantities in the book and
  in the channel fit 64 bits together.

  \<^bold>\<open>FIX\<close> (\<open>pkg/fix\<close>).  \<open>Go_Strconv\<close>: decimal numbers.  \<open>Fix_Parser\<close> (\<open>parser.go\<close>),
  \<open>Fix_Session\<close> and \<open>Fix_Server\<close> (\<open>session.go\<close>): parsing is total and inverts formatting,
  messages are sealed with length and checksum and numbered without gaps, and concurrent
  connections are independent.

  \<^bold>\<open>Submissions\<close>.  \<open>Go_Path\<close>: \<open>strings.Split\<close> and the functions of \<open>path/filepath\<close>.
  \<open>Submission\<close> (\<open>pkg/submission/handler.go\<close>): the store, the handlers and the cloning goroutine;
  records are never lost, their status only advances, uploads stay in the upload directory.
  \<open>Sandbox\<close> (\<open>pkg/sandbox\<close>): the tar build context holds exactly the source tree and the
  platform's Dockerfile, and containers are locked down.  \<open>Controller\<close>
  (\<open>pkg/controller/benchmark_controller.go\<close>): \<open>Reconcile\<close> contains a pod before it runs, moves a
  run through its states only, and completes it on time.  \<open>Controller_System\<close>: containment as an
  invariant of a cluster with many runs, failing calls and namespaces that are being deleted.
  \<open>Deploy_Crd\<close> (\<open>deploy/crds\<close>): the resource definition next to the controller; the statuses fit its
  schema, but without a status subresource no run ever leaves its initial state.

  \<^bold>\<open>Measurement and ranking\<close>.  \<open>Loadgen\<close> (\<open>pkg/loadgen\<close>): the bots' orders are always accepted
  by the API server, and the report counts every request once in every interleaving.
  \<open>Load_System\<close>: bots, collector and API server together; the successes reported are the orders the
  engine processed.  \<open>Load_Report\<close>: the printed report, with \<open>Go_Format\<close> for durations and
  floating-point numbers as text.  \<open>Telemetry_Exporter\<close> (\<open>pkg/telemetry\<close>): the metrics register and record
  without a panic and agree with the reports.
  \<open>Go_Float64\<close>: binary64 arithmetic as exactly rounded rationals.  \<open>Ranking\<close>
  (\<open>pkg/leaderboard/ranking.go\<close>): the score is monotone despite rounding, and the standings show
  the latest runs in order.  \<open>Telemetry_Queue\<close> (\<open>pkg/queue\<close>, \<open>cmd/leaderboard-service\<close>): from
  the event stream to the leaderboard page, with the settings of writer and reader and the
  cancellation of the consumer.  \<open>Telemetry_Order\<close>: partitions and balancers; the order of the runs
  of a submission is kept with one partition or a hashing balancer and can be lost with the
  configured one.  \<open>Leaderboard_Hub\<close> (\<open>pkg/leaderboard/broadcast.go\<close>): the hub of the dashboards; the
  pump is split at every channel operation, so a frame holds at most 257 messages.  \<open>Leaderboard_Service\<close>: consumer,
  Redis, subscription, hub and dashboards as one system.  \<open>Web_Dashboard\<close> (\<open>web\<close>): the page shows
  the fetched standings, escapes what contestants choose, keeps one connection, and misses updates
  that arrive in one frame.

  \<^bold>\<open>Programs\<close> (\<open>cmd\<close>, \<open>ebpf\<close>).  \<open>Go_Mux\<close>: \<open>http.ServeMux\<close> with precedence, conflicts and
  redirects; \<open>Routes\<close>: the routers of the three services dispatch as the handler tables say.
  \<open>Go_Flag\<close>: the \<open>flag\<close> package.  \<open>Http_Service\<close>: an HTTP server between start, signal and exit, over
  any application, with the locale \<open>http_service\<close>.  \<open>Services\<close>: flags and start of the programs, and
  that locale interpreted by the API server, the submission handlers and the requests of the
  leaderboard service, up to the exit status; the telemetry aggregator.  \<open>Deploy_Config\<close> (\<open>deploy\<close>,
  \<open>deployments\<close>, \<open>scripts\<close>): names, arguments, ports, network policy and dashboard queries of the
  deployment against the flags, metrics and objects of the programs.  \<open>Latency_Probe\<close> (\<open>ebpf\<close>): the memory layout of the probe's event in C and in
  Go, and the loops of the sensor.

  \<^bold>\<open>Parameters\<close>.  The Kubernetes, Docker, Redis and Kafka clients, JSON, \<open>uuid\<close>, \<open>time.Parse\<close>,
  \<open>time.ParseDuration\<close>, \<open>strconv.ParseInt\<close> and \<open>strconv.ParseFloat\<close>, the database and the browser's
  number formats are arguments of the definitions that call them; \<open>kube_ok\<close>, \<open>delete_local\<close>,
  \<open>docker_ok\<close>, \<open>redis_ok\<close>, \<open>redis_up\<close>, \<open>pub_ok\<close>, \<open>parse_ok\<close>, \<open>balancers_ok\<close>, \<open>codec_on\<close>,
  \<open>status_served\<close>, \<open>Intn_ok\<close> and \<open>plain_formats\<close> are the documented behaviour that properties use, and each has a concrete instance.  Clocks, random draws, network
  failures and scheduling are arbitrary inputs or steps.

  \<^bold>\<open>Not modelled\<close>.  \<open>NewHTTPClient\<close> and \<open>SetupWithManager\<close>, which only configure a library,
  \<open>proto/events.proto\<close>, from which nothing is generated, the styles and chart options of the
  dashboard, the image recipes and the tuning script, and of the deployment files what has no
  counterpart in the programs, such as replicas, images and resources.  Logging, timeouts of sockets and the values
  of latency histograms are left out of the modelled functions; a timeout appears as the failure
  it causes.  Exhaustion of memory is not modelled.
\<close>

end
